(* ===== verification/Prelude.thy ===== *)
theory Prelude
  imports Main
begin

text \<open>
  Shared vocabulary of the development: the exceptions of the C++ standard library that the
  program throws and catches, 64-bit integer ranges, \<open>std::string\<close> searching, and the
  decimal conversions \<open>std::to_string\<close>, \<open>std::stoll\<close> and \<open>std::from_chars\<close>.
  A \<open>std::string\<close> is a list of \<^typ>\<open>char\<close> (bytes); an index or size (\<open>size_t\<close>)
  is a \<^typ>\<open>nat\<close>; an \<open>int64_t\<close> or \<open>long long\<close> is an \<^typ>\<open>int\<close> whose range is
  stated with \<open>in_int64\<close>.
\<close>

named_theorems resp_simps \<open>unfolding of the RESP parser on one kind of value\<close>
named_theorems json_simps \<open>unfolding of the JSON reader on the text the writer produces\<close>
named_theorems store_simps \<open>unfolding of the store operations\<close>
named_theorems handler_simps \<open>unfolding of the request handlers\<close>

section \<open>Exceptions and results\<close>

datatype exn =
    out_of_range string
  | invalid_argument string
  | runtime_error string

type_synonym 'a result = "exn + 'a"

text \<open>
  Undefined behaviour: reading an empty \<open>std::optional\<close>, indexing behind the end of a vector, signed
  integer arithmetic whose result does not fit.
\<close>

datatype fault = nullopt_deref | vector_index | signed_overflow

fun is_out_of_range :: "exn \<Rightarrow> bool" where
  "is_out_of_range (out_of_range _) = True"
| "is_out_of_range _ = False"

definition bindE :: "'e + 'a \<Rightarrow> ('a \<Rightarrow> 'e + 'b) \<Rightarrow> 'e + 'b" where
  "bindE m f = (case m of Inl e \<Rightarrow> Inl e | Inr x \<Rightarrow> f x)"

lemma bindE_simps [simp]:
  "bindE (Inl e) f = Inl e"
  "bindE (Inr x) f = f x"
  by (simp_all add: bindE_def)

lemma bindE_eq_Inr: "bindE m f = Inr y \<longleftrightarrow> (\<exists>x. m = Inr x \<and> f x = Inr y)"
  by (cases m) auto

lemma bindE_eq_Inl: "bindE m f = Inl e \<longleftrightarrow> m = Inl e \<or> (\<exists>x. m = Inr x \<and> f x = Inl e)"
  by (cases m) auto

lemma bindE_cong [fundef_cong]:
  "m = m' \<Longrightarrow> (\<And>x. m' = Inr x \<Longrightarrow> f x = f' x) \<Longrightarrow> bindE m f = bindE m' f'"
  by (cases m') auto

text \<open>A throw guarded by a condition: \<open>if (c) throw e;\<close> followed by the rest of the body.\<close>

definition throw_if :: "bool \<Rightarrow> 'e \<Rightarrow> 'e + 'a \<Rightarrow> 'e + 'a" where
  "throw_if c e k = (if c then Inl e else k)"

lemma throw_if_simps [simp]:
  "c \<Longrightarrow> throw_if c e k = Inl e"
  "\<not> c \<Longrightarrow> throw_if c e k = k"
  by (simp_all add: throw_if_def)

lemma throw_if_eq_Inr: "throw_if c e k = Inr y \<longleftrightarrow> \<not> c \<and> k = Inr y"
  by (simp add: throw_if_def)

lemma throw_if_cong [fundef_cong]:
  "c = c' \<Longrightarrow> e = e' \<Longrightarrow> (\<not> c' \<Longrightarrow> k = k') \<Longrightarrow> throw_if c e k = throw_if c' e' k'"
  by (auto simp: throw_if_def)

section \<open>64-bit integers\<close>

definition INT64_MIN :: int where "INT64_MIN = - 9223372036854775808"
definition INT64_MAX :: int where "INT64_MAX = 9223372036854775807"

definition in_int64 :: "int \<Rightarrow> bool" where
  "in_int64 i \<longleftrightarrow> INT64_MIN \<le> i \<and> i \<le> INT64_MAX"

lemmas int64_defs = in_int64_def INT64_MIN_def INT64_MAX_def

section \<open>Searching strings\<close>

text \<open>
  \<open>str.find(needle, pos)\<close>: the least index not below \<open>pos\<close> at which \<open>needle\<close> occurs;
  \<open>None\<close> stands for \<open>std::string::npos\<close>.
\<close>

fun find_list :: "'a list \<Rightarrow> 'a list \<Rightarrow> nat option" where
  "find_list needle [] = (if needle = [] then Some 0 else None)"
| "find_list needle (c # cs) =
     (if take (length needle) (c # cs) = needle then Some 0
      else map_option Suc (find_list needle cs))"

definition str_find :: "'a list \<Rightarrow> 'a list \<Rightarrow> nat \<Rightarrow> nat option" where
  "str_find str needle pos =
     (if pos > length str then None
      else map_option (\<lambda>i. pos + i) (find_list needle (drop pos str)))"

text \<open>\<open>str.substr(pos, n)\<close> for \<open>pos \<le> str.size()\<close>.\<close>

definition substr :: "'a list \<Rightarrow> nat \<Rightarrow> nat \<Rightarrow> 'a list" where
  "substr str pos n = take n (drop pos str)"

abbreviation CR :: char where "CR \<equiv> CHR 0x0D"
abbreviation LF :: char where "LF \<equiv> CHR 0x0A"
abbreviation CRLF :: string where "CRLF \<equiv> [CR, LF]"

lemma substr_append: "pos + n \<le> length s \<Longrightarrow> substr (s @ t) pos n = substr s pos n"
  by (simp add: substr_def)

lemma substr_shift: "substr (pre @ s) (length pre + p) n = substr s p n"
  by (simp add: substr_def)

lemma nth_after:
  "(pre @ a # b) ! length pre = a"
  "(pre @ x0 # a # b) ! Suc (length pre) = a"
  "(pre @ x0 # x1 # a # b) ! Suc (Suc (length pre)) = a"
  "(pre @ x0 # x1 # x2 # a # b) ! Suc (Suc (Suc (length pre))) = a"
  by (simp_all add: nth_append)

lemma find_list_Some_take:
  "find_list needle s = Some i \<Longrightarrow> take (length needle) (drop i s) = needle"
  by (induction needle s arbitrary: i rule: find_list.induct) (auto split: if_splits)

lemma find_list_Some_bound: "find_list needle s = Some i \<Longrightarrow> i + length needle \<le> length s"
proof (induction needle s arbitrary: i rule: find_list.induct)
  case (2 needle c cs)
  show ?case
  proof (cases "take (length needle) (c # cs) = needle")
    case True
    then have "length needle \<le> length (c # cs)"
      by (metis length_take min.absorb_iff2 min.cobounded1 nle_le)
    with 2 True show ?thesis by simp
  next
    case False
    with 2 show ?thesis by auto
  qed
qed (auto split: if_splits)

lemma find_list_append:
  "find_list needle s = Some i \<Longrightarrow> find_list needle (s @ t) = Some i"
proof (induction needle s arbitrary: i rule: find_list.induct)
  case (1 needle)
  then show ?case by (cases t) (auto split: if_splits)
next
  case (2 needle c cs)
  show ?case
  proof (cases "take (length needle) (c # cs) = needle")
    case True
    then have "length needle \<le> length (c # cs)"
      by (metis length_take min.absorb_iff2 min.cobounded1 nle_le)
    then have "take (length needle) ((c # cs) @ t) = take (length needle) (c # cs)"
      by (simp only: take_append) simp
    with 2 True show ?thesis by simp
  next
    case False
    with 2 obtain j where j: "find_list needle cs = Some j" "i = Suc j" by auto
    then have "Suc j + length needle \<le> length (c # cs)"
      using find_list_Some_bound [OF j(1)] by simp
    then have "take (length needle) ((c # cs) @ t) = take (length needle) (c # cs)"
      by (simp only: take_append) simp
    with False j 2 show ?thesis by simp
  qed
qed

lemma find_list_before:
  assumes "find_list needle s = Some i" and "needle \<noteq> []"
  shows "find_list needle (take i s) = None"
proof (rule ccontr)
  assume "find_list needle (take i s) \<noteq> None"
  then obtain j where j: "find_list needle (take i s) = Some j" by blast
  have "find_list needle (take i s @ drop i s) = Some j" using j by (rule find_list_append)
  with assms have "j = i" by simp
  with find_list_Some_bound [OF j] assms(2) show False by simp
qed

lemma str_find_append:
  assumes "str_find s needle p = Some i"
  shows "str_find (s @ t) needle p = Some i"
  using assms by (auto simp: str_find_def find_list_append split: if_splits)

lemma str_find_bounds:
  assumes "str_find s needle p = Some i"
  shows "p \<le> i \<and> i + length needle \<le> length s"
  using assms by (auto simp: str_find_def split: if_splits dest: find_list_Some_bound)

lemma str_find_shift: "str_find (pre @ s) needle (length pre + p) =
    map_option (\<lambda>i. length pre + i) (str_find s needle p)"
  by (simp add: str_find_def option.map_comp comp_def add.assoc)

text \<open>The first CRLF after a text that holds none is right behind it.\<close>

lemma find_list_CRLF_fresh:
  "find_list CRLF s = None \<Longrightarrow> find_list CRLF (s @ CRLF @ t) = Some (length s)"
proof (induction s)
  case (Cons c s)
  then have c: "\<not> (c = CR \<and> take 1 s = [LF])" and s: "find_list CRLF s = None"
    by (auto split: if_splits)
  have "\<not> (c = CR \<and> take 1 (s @ CRLF @ t) = [LF])"
    using c by (cases s) auto
  with Cons.IH [OF s] show ?case by simp
qed simp

lemma find_list_CRLF_no_CR: "CR \<notin> set s \<Longrightarrow> find_list CRLF s = None"
  by (induction s) auto

section \<open>Decimal conversions\<close>

definition is_digit :: "char \<Rightarrow> bool" where
  "is_digit c \<longleftrightarrow> 48 \<le> (of_char c :: nat) \<and> (of_char c :: nat) \<le> 57"

definition digit_value :: "char \<Rightarrow> nat" where
  "digit_value c = of_char c - 48"

definition digit_char :: "nat \<Rightarrow> char" where
  "digit_char n = ''0123456789'' ! n"

text \<open>\<open>isspace\<close> in the C locale: space, tab, line feed, vertical tab, form feed, return.\<close>

definition isspace :: "char \<Rightarrow> bool" where
  "isspace c \<longleftrightarrow> c \<in> set [CHR '' '', CHR 0x09, CHR 0x0A, CHR 0x0B, CHR 0x0C, CHR 0x0D]"

definition dec_value :: "string \<Rightarrow> nat" where
  "dec_value ds = foldl (\<lambda>n c. 10 * n + digit_value c) 0 ds"

fun dec_string :: "nat \<Rightarrow> string" where
  "dec_string n =
     (if n < 10 then [digit_char n] else dec_string (n div 10) @ [digit_char (n mod 10)])"

declare dec_string.simps [simp del]

definition to_string :: "int \<Rightarrow> string" where
  "to_string i = (if i < 0 then CHR ''-'' # dec_string (nat (- i)) else dec_string (nat i))"

text \<open>An optional sign; a plus sign counts only where \<open>allow_plus\<close> holds.\<close>

definition scan_sign :: "bool \<Rightarrow> string \<Rightarrow> bool \<times> string" where
  "scan_sign allow_plus s =
     (case s of [] \<Rightarrow> (False, [])
      | c # cs \<Rightarrow> if c = CHR ''-'' then (True, cs)
                  else if allow_plus \<and> c = CHR ''+'' then (False, cs) else (False, s))"

definition signed :: "bool \<Rightarrow> nat \<Rightarrow> int" where
  "signed neg n = (if neg then - int n else int n)"

text \<open>
  \<open>std::stoll(s)\<close>: leading white space, an optional sign, digits; what follows the digits is
  ignored. No digits throw \<open>invalid_argument\<close>, an unrepresentable value \<open>out_of_range\<close>.
\<close>

definition stoll :: "string \<Rightarrow> int result" where
  "stoll s =
     (let (neg, t) = scan_sign True (dropWhile isspace s); ds = takeWhile is_digit t;
          v = signed neg (dec_value ds)
      in throw_if (ds = []) (invalid_argument ''stoll'')
          (throw_if (\<not> in_int64 v) (out_of_range ''stoll'') (Inr v)))"

text \<open>
  \<open>std::from_chars(begin, end, value)\<close> on the characters of the range: an optional minus
  sign, digits; \<open>Inr (value, n)\<close> when the first \<open>n\<close> characters were converted.
\<close>

datatype errc = errc_invalid_argument | errc_result_out_of_range

definition from_chars :: "string \<Rightarrow> errc + int \<times> nat" where
  "from_chars s =
     (let (neg, t) = scan_sign False s; ds = takeWhile is_digit t;
          v = signed neg (dec_value ds)
      in throw_if (ds = []) errc_invalid_argument
          (throw_if (\<not> in_int64 v) errc_result_out_of_range
            (Inr (v, length ds + (if neg then 1 else 0)))))"

lemma digit_char_cases:
  assumes "n < (10 :: nat)"
  shows "n \<in> {0, 1, 2, 3, 4, 5, 6, 7, 8, 9}"
  using assms by auto

lemma digit_char_props:
  assumes "n < 10"
  shows "is_digit (digit_char n)" and "digit_value (digit_char n) = n"
    and "digit_char n \<noteq> CHR ''-''" and "digit_char n \<noteq> CHR ''+''"
    and "\<not> isspace (digit_char n)" and "digit_char n \<noteq> CR"
  using digit_char_cases [OF assms]
  by (auto simp: is_digit_def digit_value_def digit_char_def isspace_def)

lemma dec_string_digits: "c \<in> set (dec_string n) \<Longrightarrow> \<exists>d < 10. c = digit_char d"
proof (induction n rule: dec_string.induct)
  case (1 n)
  show ?case
  proof (cases "n < 10")
    case True
    with "1.prems" show ?thesis by (auto simp: dec_string.simps [of n])
  next
    case False
    with 1 show ?thesis
      by (auto simp: dec_string.simps [of n]) (metis mod_less_divisor zero_less_numeral)
  qed
qed

lemma dec_string_is_digit: "c \<in> set (dec_string n) \<Longrightarrow> is_digit c"
  using dec_string_digits digit_char_props(1) by blast

lemma dec_string_nonempty [simp]: "dec_string n \<noteq> []"
  by (subst dec_string.simps) simp

lemma dec_value_snoc [simp]: "dec_value (ds @ [c]) = 10 * dec_value ds + digit_value c"
  by (simp add: dec_value_def)

lemma dec_value_dec_string [simp]: "dec_value (dec_string n) = n"
proof (induction n rule: dec_string.induct)
  case (1 n)
  show ?case
  proof (cases "n < 10")
    case True
    then show ?thesis
      using digit_char_props(2) [OF True] by (simp add: dec_string.simps [of n] dec_value_def)
  next
    case False
    with 1 show ?thesis
      using digit_char_props(2) [of "n mod 10"] by (simp add: dec_string.simps [of n])
  qed
qed

lemma dec_string_hd:
  obtains c cs where "dec_string n = c # cs" "is_digit c" "c \<noteq> CHR ''-''" "c \<noteq> CHR ''+''"
    "\<not> isspace c"
proof -
  obtain c cs where c: "dec_string n = c # cs" by (cases "dec_string n") auto
  then obtain d where "d < 10" "c = digit_char d" using dec_string_digits [of c n] by auto
  then show ?thesis using that c digit_char_props by blast
qed

lemma takeWhile_digits_dec_string:
  "takeWhile is_digit (dec_string n @ t) = dec_string n @ takeWhile is_digit t"
  by (rule takeWhile_append2) (rule dec_string_is_digit)

lemma takeWhile_digits_dec_string_only [simp]: "takeWhile is_digit (dec_string n) = dec_string n"
  using takeWhile_digits_dec_string [of n "[]"] by simp

lemma CR_notin_dec_string: "CR \<notin> set (dec_string n)"
  using dec_string_digits digit_char_props(6) by metis

lemma CR_notin_to_string: "CR \<notin> set (to_string i)"
  using CR_notin_dec_string by (auto simp: to_string_def)

lemma scan_sign_dec_string [simp]: "scan_sign b (dec_string n @ t) = (False, dec_string n @ t)"
  by (rule dec_string_hd [of n]) (simp add: scan_sign_def)

lemma scan_sign_minus [simp]: "scan_sign b (CHR ''-'' # t) = (True, t)"
  by (simp add: scan_sign_def)

lemma not_isspace_minus [simp]: "\<not> isspace (CHR ''-'')"
  by (simp add: isspace_def)

lemma dropWhile_isspace_dec_string [simp]:
  "dropWhile isspace (dec_string n @ t) = dec_string n @ t"
  by (rule dec_string_hd [of n]) simp

lemma stoll_to_string: "in_int64 i \<Longrightarrow> stoll (to_string i) = Inr i"
  using scan_sign_dec_string [of True _ "[]"] dropWhile_isspace_dec_string [of _ "[]"]
  by (auto simp: stoll_def to_string_def signed_def Let_def simp del: scan_sign_dec_string)

lemma stoll_dec_string: "int n \<le> INT64_MAX \<Longrightarrow> stoll (dec_string n) = Inr (int n)"
  using stoll_to_string [of "int n"] by (simp add: to_string_def int64_defs)

lemma from_chars_to_string:
  assumes "in_int64 i" and "takeWhile is_digit t = []"
  shows "from_chars (to_string i @ t) = Inr (i, length (to_string i))"
  using assms takeWhile_digits_dec_string [of _ t]
  by (simp add: from_chars_def to_string_def signed_def)

lemma stoll_in_int64: "stoll s = Inr i \<Longrightarrow> in_int64 i"
  by (auto simp: stoll_def Let_def throw_if_eq_Inr split: prod.splits)

lemma from_chars_in_int64: "from_chars s = Inr (i, n) \<Longrightarrow> in_int64 i"
  by (auto simp: from_chars_def Let_def throw_if_eq_Inr split: prod.splits)

lemma from_chars_pos: "from_chars s = Inr (i, n) \<Longrightarrow> 0 < n"
  by (auto simp: from_chars_def Let_def throw_if_eq_Inr split: prod.splits)

end
