(* ===== verification/Map_Interface.thy ===== *)
theory Map_Interface
  imports Complex_Main Prelude "HOL-Library.AList"
begin

text \<open>
  The abstract class \<open>Map<K, V>\<close> of \<open>v2/src/store/map/map.h\<close> as a locale. The state of an
  implementation is a value of type \<open>'m\<close>; \<open>LookUp\<close>, \<open>Insert\<close>, \<open>Remove\<close> and \<open>ForEach\<close> are the
  virtual methods. \<open>LookUp\<close> returns a reference to the stored value, so a caller can also
  write through it: \<open>Assign\<close> is that write. \<open>Entries\<close> lists the bindings in the order
  \<open>ForEach\<close> visits them; an implementation may choose any order.

  The laws say that the implementation behaves like a finite map. They are discharged by
  \<open>StandardMap\<close> and \<open>LinkedListHashmap\<close>, and without \<open>Remove\<close> by \<open>LinearProbingHashmap\<close>, in the
  theories of these classes; the lemmas in the locales are what a client may conclude.
\<close>

text \<open>The constants of \<open>map.h\<close>.\<close>

definition kDefaultLoadFactor :: rat where "kDefaultLoadFactor = 3 / 4"
definition kDefaultCapacity :: nat where "kDefaultCapacity = 16"

text \<open>
  A range-for over a list of bindings that calls \<open>action(key, value)\<close>: the action can change
  the value (its argument is \<open>V&\<close>) and a state \<open>'s\<close> captured by the closure.
\<close>

fun for_each :: "('k \<Rightarrow> 'v \<Rightarrow> 's \<Rightarrow> 'v \<times> 's) \<Rightarrow> ('k \<times> 'v) list \<Rightarrow> 's \<Rightarrow> ('k \<times> 'v) list \<times> 's" where
  "for_each action [] s = ([], s)"
| "for_each action ((k, v) # es) s =
     (let (v', s1) = action k v s; (es', s2) = for_each action es s1 in ((k, v') # es', s2))"

lemma for_each_keys: "for_each action es s = (es', s') \<Longrightarrow> map fst es' = map fst es"
  by (induction action es s arbitrary: es' s' rule: for_each.induct) (auto split: prod.splits)

lemma for_each_append:
  "for_each action (xs @ ys) s =
     (let (xs', s1) = for_each action xs s; (ys', s2) = for_each action ys s1 in (xs' @ ys', s2))"
  by (induction action xs s rule: for_each.induct) (auto split: prod.splits)

lemma for_each_pure:
  "fst (for_each (\<lambda>k v s. (f k v, g k v s)) es s) = map (\<lambda>(k, v). (k, f k v)) es"
  by (induction es arbitrary: s) (auto simp: split_beta Let_def)

lemma map_of_pure: "map_of (map (\<lambda>(k, v). (k, f k v)) es) k = map_option (f k) (map_of es k)"
  by (induction es) auto

lemma for_each_read_only:
  "for_each (\<lambda>k v s. (v, f k v s)) es s = (es, fold (\<lambda>(k, v). f k v) es s)"
  by (induction es arbitrary: s) auto

lemma for_each_collect: "for_each (\<lambda>k v seen. (v, seen @ [(k, v)])) es seen = (es, seen @ es)"
  by (induction es arbitrary: seen) auto

lemma map_of_rev: "distinct (map fst es) \<Longrightarrow> map_of (rev es) = map_of es"
proof (induction es)
  case (Cons e es)
  obtain k v where e: "e = (k, v)" by (cases e)
  have "map_of es k = None" using Cons.prems e by (simp add: map_of_eq_None_iff)
  with Cons e show ?case by (auto simp: fun_eq_iff map_add_def split: option.split)
qed simp

section \<open>Histories of calls\<close>

datatype ('k, 'v) map_op = LookUpOp 'k | InsertOp 'k 'v | RemoveOp 'k | AssignOp 'k 'v

text \<open>
  A history of calls on a state, with the answers of the \<open>LookUp\<close> calls. The same function
  runs an implementation and, with the operations on functions, the specification.
\<close>

fun run_ops :: "('m \<Rightarrow> 'k \<Rightarrow> 'v option) \<Rightarrow> ('k \<Rightarrow> 'v \<Rightarrow> 'm \<Rightarrow> 'm) \<Rightarrow> ('k \<Rightarrow> 'm \<Rightarrow> 'm) \<Rightarrow>
    (('v \<Rightarrow> 'v) \<Rightarrow> 'k \<Rightarrow> 'm \<Rightarrow> 'm) \<Rightarrow> ('k, 'v) map_op list \<Rightarrow> 'm \<Rightarrow> 'v option list \<times> 'm" where
  "run_ops lk ins rem asg [] m = ([], m)"
| "run_ops lk ins rem asg (LookUpOp k # ops) m =
     (let (as, m') = run_ops lk ins rem asg ops m in (lk m k # as, m'))"
| "run_ops lk ins rem asg (InsertOp k v # ops) m = run_ops lk ins rem asg ops (ins k v m)"
| "run_ops lk ins rem asg (RemoveOp k # ops) m = run_ops lk ins rem asg ops (rem k m)"
| "run_ops lk ins rem asg (AssignOp k v # ops) m = run_ops lk ins rem asg ops (asg (\<lambda>_. v) k m)"

definition spec_insert :: "'k \<Rightarrow> 'v \<Rightarrow> ('k \<rightharpoonup> 'v) \<Rightarrow> ('k \<rightharpoonup> 'v)" where
  "spec_insert k v m = m(k \<mapsto> v)"

definition spec_remove :: "'k \<Rightarrow> ('k \<rightharpoonup> 'v) \<Rightarrow> ('k \<rightharpoonup> 'v)" where
  "spec_remove k m = m(k := None)"

definition spec_assign :: "('v \<Rightarrow> 'v) \<Rightarrow> 'k \<Rightarrow> ('k \<rightharpoonup> 'v) \<Rightarrow> ('k \<rightharpoonup> 'v)" where
  "spec_assign f k m = m(k := map_option f (m k))"

abbreviation run_spec :: "('k, 'v) map_op list \<Rightarrow> ('k \<rightharpoonup> 'v) \<Rightarrow> 'v option list \<times> ('k \<rightharpoonup> 'v)" where
  "run_spec \<equiv> run_ops (\<lambda>m. m) spec_insert spec_remove spec_assign"

section \<open>The interface\<close>

text \<open>
  The part of the contract without \<open>Remove\<close>, which is all \<open>LinearProbingHashmap\<close> keeps, and the
  full contract.
\<close>

locale growing_dictionary =
  fixes invar :: "'m \<Rightarrow> bool"
    and LookUp :: "'m \<Rightarrow> 'k \<Rightarrow> 'v option"
    and Insert :: "'k \<Rightarrow> 'v \<Rightarrow> 'm \<Rightarrow> 'm"
    and Assign :: "('v \<Rightarrow> 'v) \<Rightarrow> 'k \<Rightarrow> 'm \<Rightarrow> 'm"
    and Entries :: "'m \<Rightarrow> ('k \<times> 'v) list"
    and ForEach :: "('k \<Rightarrow> 'v \<Rightarrow> 's \<Rightarrow> 'v \<times> 's) \<Rightarrow> 'm \<Rightarrow> 's \<Rightarrow> 'm \<times> 's"
  assumes insert_invar: "invar m \<Longrightarrow> invar (Insert k v m)"
    and assign_invar: "invar m \<Longrightarrow> invar (Assign f k m)"
    and for_each_invar: "invar m \<Longrightarrow> invar (fst (ForEach action m s))"
    and lookup_insert: "invar m \<Longrightarrow> LookUp (Insert k v m) = (LookUp m)(k \<mapsto> v)"
    and lookup_assign: "invar m \<Longrightarrow> LookUp (Assign f k m) = (LookUp m)(k := map_option f (LookUp m k))"
    and entries_distinct: "invar m \<Longrightarrow> distinct (map fst (Entries m))"
    and entries_lookup: "invar m \<Longrightarrow> map_of (Entries m) = LookUp m"
    and for_each_entries: "invar m \<Longrightarrow> ForEach action m s = (m', s') \<Longrightarrow>
      for_each action (Entries m) s = (Entries m', s')"
begin

lemma run_op_refines:
  assumes "invar m" and "\<forall>k. op \<noteq> RemoveOp k"
    and "\<And>m as. invar m \<Longrightarrow> run_ops LookUp Insert rem Assign ops m = (as, m') \<Longrightarrow>
      invar m' \<and> run_spec ops (LookUp m) = (as, LookUp m')"
    and "run_ops LookUp Insert rem Assign (op # ops) m = (as, m')"
  shows "invar m' \<and> run_spec (op # ops) (LookUp m) = (as, LookUp m')"
proof (cases op)
  case (LookUpOp k)
  with assms show ?thesis by (auto split: prod.splits)
next
  case (InsertOp k v)
  with assms(1,4) assms(3) [of "Insert k v m" as] show ?thesis
    by (simp add: insert_invar lookup_insert spec_insert_def)
next
  case (AssignOp k v)
  with assms(1,4) assms(3) [of "Assign (\<lambda>_. v) k m" as] show ?thesis
    by (simp add: assign_invar lookup_assign spec_assign_def)
qed (use assms(2) in simp)

lemma run_growing_refines:
  "invar m \<Longrightarrow> \<forall>k. RemoveOp k \<notin> set ops \<Longrightarrow> run_ops LookUp Insert rem Assign ops m = (as, m') \<Longrightarrow>
     invar m' \<and> run_spec ops (LookUp m) = (as, LookUp m')"
proof (induction ops arbitrary: m as)
  case (Cons op ops)
  show ?case
    by (rule run_op_refines [OF Cons.prems(1) _ _ Cons.prems(3)]) (use Cons.prems(2) Cons.IH in auto)
qed simp

lemma fold_insert:
  "invar m \<Longrightarrow> invar (fold (\<lambda>(k, v). Insert k v) es m) \<and>
     LookUp (fold (\<lambda>(k, v). Insert k v) es m) = LookUp m ++ map_of (rev es)"
proof (induction es arbitrary: m)
  case (Cons e es)
  obtain k v where e: "e = (k, v)" by (cases e)
  from Cons.IH [OF insert_invar [OF Cons.prems, of k v]] lookup_insert [OF Cons.prems, of k v]
  show ?case by (auto simp: e map_add_def fun_eq_iff split: option.split)
qed simp

lemma entries_set: "invar m \<Longrightarrow> set (Entries m) = {(k, v). LookUp m k = Some v}"
  using entries_distinct [of m] entries_lookup [of m]
  by (auto simp flip: map_of_eq_Some_iff)

lemma dom_finite: "invar m \<Longrightarrow> finite (dom (LookUp m))"
  using finite_dom_map_of entries_lookup by metis

lemma entries_length:
  assumes "invar m"
  shows "length (Entries m) = card (dom (LookUp m))"
proof -
  have "dom (LookUp m) = set (map fst (Entries m))"
    unfolding entries_lookup [OF assms, symmetric] by (simp add: dom_map_of_conv_image_fst)
  then show ?thesis using distinct_card [OF entries_distinct [OF assms]] by simp
qed

lemma for_each_lookup:
  assumes "invar m"
  shows "LookUp (fst (ForEach (\<lambda>k v s. (f k v, g k v s)) m s)) = (\<lambda>k. map_option (f k) (LookUp m k))"
proof -
  obtain m' s' where r: "ForEach (\<lambda>k v s. (f k v, g k v s)) m s = (m', s')"
    by (rule prod.exhaust)
  have "Entries m' = map (\<lambda>(k, v). (k, f k v)) (Entries m)"
    using for_each_pure [of f g "Entries m" s] for_each_entries [OF assms r] by simp
  moreover have "invar m'" using for_each_invar [OF assms, of "\<lambda>k v s. (f k v, g k v s)" s] r by simp
  ultimately have "LookUp m' k = map_option (f k) (LookUp m k)" for k
    using map_of_pure [of f "Entries m" k] entries_lookup [of m'] entries_lookup [OF assms] by simp
  then show ?thesis using r by (simp add: fun_eq_iff)
qed

end

locale dictionary = growing_dictionary +
  fixes Remove
  assumes remove_invar: "invar m \<Longrightarrow> invar (Remove k m)"
    and lookup_remove: "invar m \<Longrightarrow> LookUp (Remove k m) = (LookUp m)(k := None)"
begin

lemma run_ops_refines:
  "invar m \<Longrightarrow> run_ops LookUp Insert Remove Assign ops m = (as, m') \<Longrightarrow>
     invar m' \<and> run_spec ops (LookUp m) = (as, LookUp m')"
proof (induction ops arbitrary: m as)
  case (Cons op ops)
  show ?case
  proof (cases "\<exists>k. op = RemoveOp k")
    case True
    then obtain k where "op = RemoveOp k" by blast
    with Cons.prems Cons.IH [of "Remove k m" as] show ?thesis
      by (simp add: remove_invar lookup_remove spec_remove_def)
  next
    case False
    show ?thesis by (rule run_op_refines [OF Cons.prems(1) _ _ Cons.prems(2)]) (use False Cons.IH in auto)
  qed
qed simp

end

end
