(* ===== verification/Linked_List_Hashmap.thy ===== *)
theory Linked_List_Hashmap
  imports Map_Interface
begin

text \<open>
  \<open>LinkedListHashmap\<close> of \<open>v2/src/store/map/linked_list_hashmap.h\<close>: hashing with separate
  chaining. A bucket, a chain of \<open>unique_ptr<Entry>\<close>, is the list of its nodes, so the null
  pointer is the empty list. The load factor, a \<open>double\<close>, is a rational number. The class is
  shown to satisfy the laws of \<open>Map<K, V>\<close> for every hash function and load factor.
\<close>

record ('k, 'v) LinkedListHashmap =
  llh_hash :: "'k \<Rightarrow> nat"
  llh_size :: nat
  llh_entries :: "('k \<times> 'v) list list"
  llh_load_factor :: rat

definition LinkedListHashmap_new :: "rat \<Rightarrow> ('k \<Rightarrow> nat) \<Rightarrow> ('k, 'v) LinkedListHashmap" where
  "LinkedListHashmap_new load_factor hash =
     \<lparr>llh_hash = hash, llh_size = 0, llh_entries = replicate kDefaultCapacity [],
      llh_load_factor = load_factor\<rparr>"

text \<open>
  The walk of \<open>InsertWithoutResize\<close> along a chain: it overwrites the first node with the key,
  or appends a node behind the last one; the flag says whether \<open>size_++\<close> is executed.
\<close>

fun InsertChain :: "'k \<Rightarrow> 'v \<Rightarrow> ('k \<times> 'v) list \<Rightarrow> ('k \<times> 'v) list \<times> bool" where
  "InsertChain key value [] = ([(key, value)], True)"
| "InsertChain key value ((k, v) # next) =
     (if k = key then ((k, value) # next, False)
      else let (next', added) = InsertChain key value next in ((k, v) # next', added))"

definition InsertWithoutResize ::
    "'k \<Rightarrow> 'v \<Rightarrow> ('k, 'v) LinkedListHashmap \<Rightarrow> ('k, 'v) LinkedListHashmap" where
  "InsertWithoutResize key value m =
     (let bucket_index = llh_hash m key mod length (llh_entries m);
          (chain, added) = InsertChain key value (llh_entries m ! bucket_index)
      in m\<lparr>llh_entries := (llh_entries m)[bucket_index := chain],
           llh_size := (if added then llh_size m + 1 else llh_size m)\<rparr>)"

definition Resize :: "('k, 'v) LinkedListHashmap \<Rightarrow> ('k, 'v) LinkedListHashmap" where
  "Resize m =
     (let flat_entries = concat (llh_entries m)
      in fold (\<lambda>(key, value). InsertWithoutResize key value) flat_entries
           (m\<lparr>llh_entries := replicate (max 2 (llh_size m * 2)) [], llh_size := 0\<rparr>))"

definition LinkedListHashmap_LookUp :: "('k, 'v) LinkedListHashmap \<Rightarrow> 'k \<Rightarrow> 'v option" where
  "LinkedListHashmap_LookUp m key =
     (if llh_entries m = [] then None
      else map_of (llh_entries m ! (llh_hash m key mod length (llh_entries m))) key)"

definition LinkedListHashmap_Insert ::
    "'k \<Rightarrow> 'v \<Rightarrow> ('k, 'v) LinkedListHashmap \<Rightarrow> ('k, 'v) LinkedListHashmap" where
  "LinkedListHashmap_Insert key value m =
     InsertWithoutResize key value
       (if llh_entries m = [] \<or> of_nat (llh_size m) > of_nat (length (llh_entries m)) * llh_load_factor m
        then Resize m else m)"

fun RemoveChain :: "'k \<Rightarrow> ('k \<times> 'v) list \<Rightarrow> ('k \<times> 'v) list \<times> bool" where
  "RemoveChain key [] = ([], False)"
| "RemoveChain key ((k, v) # next) =
     (if k = key then (next, True)
      else let (next', removed) = RemoveChain key next in ((k, v) # next', removed))"

definition LinkedListHashmap_Remove ::
    "'k \<Rightarrow> ('k, 'v) LinkedListHashmap \<Rightarrow> ('k, 'v) LinkedListHashmap" where
  "LinkedListHashmap_Remove key m =
     (if llh_entries m = [] then m
      else let bucket_index = llh_hash m key mod length (llh_entries m);
               (chain, removed) = RemoveChain key (llh_entries m ! bucket_index)
           in m\<lparr>llh_entries := (llh_entries m)[bucket_index := chain],
                llh_size := (if removed then llh_size m - 1 else llh_size m)\<rparr>)"

text \<open>A write through the reference that \<open>LookUp\<close> returns: to the node it stopped at.\<close>

definition LinkedListHashmap_Assign ::
    "('v \<Rightarrow> 'v) \<Rightarrow> 'k \<Rightarrow> ('k, 'v) LinkedListHashmap \<Rightarrow> ('k, 'v) LinkedListHashmap" where
  "LinkedListHashmap_Assign f key m =
     (if llh_entries m = [] then m
      else let bucket_index = llh_hash m key mod length (llh_entries m)
           in m\<lparr>llh_entries := (llh_entries m)
                  [bucket_index := AList.map_entry key f (llh_entries m ! bucket_index)]\<rparr>)"

fun ForEachBucket :: "('k \<Rightarrow> 'v \<Rightarrow> 's \<Rightarrow> 'v \<times> 's) \<Rightarrow> ('k \<times> 'v) list list \<Rightarrow> 's \<Rightarrow> ('k \<times> 'v) list list \<times> 's" where
  "ForEachBucket action [] s = ([], s)"
| "ForEachBucket action (bucket # buckets) s =
     (let (bucket', s1) = for_each action bucket s; (buckets', s2) = ForEachBucket action buckets s1
      in (bucket' # buckets', s2))"

definition LinkedListHashmap_ForEach ::
    "('k \<Rightarrow> 'v \<Rightarrow> 's \<Rightarrow> 'v \<times> 's) \<Rightarrow> ('k, 'v) LinkedListHashmap \<Rightarrow> 's \<Rightarrow> ('k, 'v) LinkedListHashmap \<times> 's" where
  "LinkedListHashmap_ForEach action m s =
     (let (buckets, s') = ForEachBucket action (llh_entries m) s in (m\<lparr>llh_entries := buckets\<rparr>, s'))"

section \<open>Chains\<close>

lemma InsertChain_update: "InsertChain k v c = (AList.update k v c, map_of c k = None)"
  by (induction k v c rule: InsertChain.induct) auto

lemma RemoveChain_delete:
  "distinct (map fst c) \<Longrightarrow> RemoveChain k c = (AList.delete k c, map_of c k \<noteq> None)"
proof (induction k c rule: RemoveChain.induct)
  case (2 key k v "next")
  have "AList.delete k next = next" using "2.prems" by (simp add: image_iff)
  with 2 show ?case by auto
qed simp

lemma length_update:
  "length (AList.update k v c) = (if map_of c k = None then length c + 1 else length c)"
  by (induction c) auto

lemma length_map_entry: "length (AList.map_entry k f c) = length c"
  by (induction c) auto

lemma length_delete:
  "distinct (map fst c) \<Longrightarrow>
     length (AList.delete k c) = (if map_of c k = None then length c else length c - 1)"
proof (induction c)
  case (Cons e c)
  obtain k' v' where e: "e = (k', v')" by (cases e)
  have "k' = k \<Longrightarrow> AList.delete k c = c" using Cons.prems e by (auto simp: image_iff)
  moreover have "map_of c k \<noteq> None \<Longrightarrow> length c > 0" by (cases c) auto
  ultimately show ?case using Cons e by auto
qed simp

section \<open>The invariant\<close>

definition hashed :: "('k \<Rightarrow> nat) \<Rightarrow> ('k \<times> 'v) list list \<Rightarrow> bool" where
  "hashed hash es =
     (\<forall>b < length es. distinct (map fst (es ! b)) \<and>
        (\<forall>k \<in> fst ` set (es ! b). hash k mod length es = b))"

definition LinkedListHashmap_invar :: "('k, 'v) LinkedListHashmap \<Rightarrow> bool" where
  "LinkedListHashmap_invar m =
     (hashed (llh_hash m) (llh_entries m) \<and> llh_size m = length (concat (llh_entries m)))"

lemma hashed_update:
  assumes "hashed hash es" and "distinct (map fst c)"
    and "fst ` set c \<subseteq> insert k (fst ` set (es ! (hash k mod length es)))"
  shows "hashed hash (es[hash k mod length es := c])"
  unfolding hashed_def length_list_update
proof (intro allI impI)
  fix b
  assume b: "b < length es"
  show "distinct (map fst (es[hash k mod length es := c] ! b)) \<and>
    (\<forall>k' \<in> fst ` set (es[hash k mod length es := c] ! b). hash k' mod length es = b)"
  proof (cases "b = hash k mod length es")
    case True
    have "\<forall>k' \<in> fst ` set (es ! b). hash k' mod length es = b"
      using assms(1) b unfolding hashed_def by blast
    with True assms(3) have "\<forall>k' \<in> fst ` set c. hash k' mod length es = b" by blast
    with True b assms(2) show ?thesis by simp
  next
    case False
    with b assms(1) show ?thesis unfolding hashed_def by simp
  qed
qed

lemma length_concat_update:
  "b < length es \<Longrightarrow> length (concat (es[b := c])) + length (es ! b) = length (concat es) + length c"
proof (induction es arbitrary: b)
  case (Cons e es)
  then show ?case by (cases b) auto
qed simp

lemma map_of_concat:
  "(\<And>j. j < length es \<Longrightarrow> j \<noteq> b \<Longrightarrow> k \<notin> fst ` set (es ! j)) \<Longrightarrow> b < length es \<Longrightarrow>
     map_of (concat es) k = map_of (es ! b) k"
proof (induction es arbitrary: b)
  case (Cons e es)
  show ?case
  proof (cases b)
    case 0
    have "k \<notin> fst ` set (concat es)"
    proof
      assume "k \<in> fst ` set (concat es)"
      then obtain c where "c \<in> set es" "k \<in> fst ` set c" by auto
      then obtain j where "j < length es" "k \<in> fst ` set (es ! j)" by (metis in_set_conv_nth)
      with Cons.prems(1) [of "Suc j"] 0 show False by simp
    qed
    then have "map_of (concat es) k = None" by (simp add: map_of_eq_None_iff)
    with 0 show ?thesis by (simp add: map_add_def split: option.split)
  next
    case (Suc b')
    have "map_of e k = None" using Cons.prems(1) [of 0] Suc by (simp add: map_of_eq_None_iff)
    moreover have "map_of (concat es) k = map_of (es ! b') k"
      using Cons.prems(1) [of "Suc j" for j] Cons.prems(2) Suc by (intro Cons.IH) auto
    ultimately show ?thesis using Suc by (simp add: map_add_def split: option.split)
  qed
qed simp

lemma hashed_lookup:
  assumes "hashed hash es" and "es \<noteq> []"
  shows "map_of (concat es) k = map_of (es ! (hash k mod length es)) k"
  using assms by (intro map_of_concat) (auto simp: hashed_def)

lemma distinct_concat_keys:
  "(\<And>b. b < length es \<Longrightarrow> distinct (map fst (es ! b))) \<Longrightarrow>
   (\<And>i j. i < length es \<Longrightarrow> j < length es \<Longrightarrow> i \<noteq> j \<Longrightarrow> fst ` set (es ! i) \<inter> fst ` set (es ! j) = {}) \<Longrightarrow>
     distinct (map fst (concat es))"
proof (induction es)
  case (Cons e es)
  have "distinct (map fst (concat es))" (is ?rest)
    using Cons.prems(1) [of "Suc b" for b] Cons.prems(2) [of "Suc i" "Suc j" for i j] by (intro Cons.IH) auto
  have "fst ` set e \<inter> fst ` set c = {}" if c: "c \<in> set es" for c
  proof -
    from c obtain j where "j < length es" "c = es ! j" by (metis in_set_conv_nth)
    with Cons.prems(2) [of 0 "Suc j"] show ?thesis by simp
  qed
  then have "fst ` set e \<inter> fst ` set (concat es) = {}" by (simp add: image_UN Int_UN_distrib)
  with \<open>?rest\<close> show ?case using Cons.prems(1) [of 0] by simp
qed simp

lemma hashed_distinct:
  assumes "hashed hash es"
  shows "distinct (map fst (concat es))"
proof (rule distinct_concat_keys)
  fix i j
  assume "i < length es" "j < length es" "i \<noteq> j"
  with assms show "fst ` set (es ! i) \<inter> fst ` set (es ! j) = {}"
    unfolding hashed_def by (metis disjoint_iff)
qed (use assms in \<open>simp add: hashed_def\<close>)

section \<open>The operations\<close>

lemma LookUp_concat:
  "hashed (llh_hash m) (llh_entries m) \<Longrightarrow> LinkedListHashmap_LookUp m = map_of (concat (llh_entries m))"
  by (rule ext) (auto simp: LinkedListHashmap_LookUp_def hashed_lookup)

text \<open>Replacing the chain of the key \<open>k\<close>.\<close>

lemma replace_chain:
  assumes "LinkedListHashmap_invar m" and ne: "llh_entries m \<noteq> []"
    and b_def: "b = llh_hash m k mod length (llh_entries m)"
    and c: "distinct (map fst c)" "fst ` set c \<subseteq> insert k (fst ` set (llh_entries m ! b))"
    and other: "\<And>k'. k' \<noteq> k \<Longrightarrow> map_of c k' = map_of (llh_entries m ! b) k'"
    and size: "n + length (llh_entries m ! b) = llh_size m + length c"
    and m': "m' = m\<lparr>llh_entries := (llh_entries m)[b := c], llh_size := n\<rparr>"
  shows "LinkedListHashmap_invar m'" and "LinkedListHashmap_LookUp m' = (LinkedListHashmap_LookUp m)(k := map_of c k)"
proof -
  have b: "b < length (llh_entries m)" using ne by (simp add: b_def)
  show "LinkedListHashmap_invar m'"
    using assms(1) c size m' length_concat_update [OF b, of c] hashed_update [OF _ c(1), of "llh_hash m" "llh_entries m" k]
    by (simp add: LinkedListHashmap_invar_def b_def)
  show "LinkedListHashmap_LookUp m' = (LinkedListHashmap_LookUp m)(k := map_of c k)"
  proof
    fix k'
    show "LinkedListHashmap_LookUp m' k' = ((LinkedListHashmap_LookUp m)(k := map_of c k)) k'"
      using ne b other [of k'] m' by (auto simp: LinkedListHashmap_LookUp_def b_def nth_list_update)
  qed
qed

lemma InsertWithoutResize_correct:
  assumes "LinkedListHashmap_invar m" and "llh_entries m \<noteq> []"
  shows "LinkedListHashmap_invar (InsertWithoutResize k v m)"
    and "LinkedListHashmap_LookUp (InsertWithoutResize k v m) = (LinkedListHashmap_LookUp m)(k \<mapsto> v)"
proof -
  let ?b = "llh_hash m k mod length (llh_entries m)" and ?c = "llh_entries m ! (llh_hash m k mod length (llh_entries m))"
  have d: "distinct (map fst ?c)" using assms by (simp add: LinkedListHashmap_invar_def hashed_def)
  let ?n = "if map_of ?c k = None then llh_size m + 1 else llh_size m"
  have "?n + length ?c = llh_size m + length (AList.update k v ?c)"
    unfolding length_update by (cases "map_of ?c k = None") simp_all
  moreover have "InsertWithoutResize k v m
      = m\<lparr>llh_entries := (llh_entries m)[?b := AList.update k v ?c], llh_size := ?n\<rparr>"
    by (simp only: InsertWithoutResize_def InsertChain_update Let_def prod.case)
  ultimately have r: "LinkedListHashmap_invar (InsertWithoutResize k v m)"
    "LinkedListHashmap_LookUp (InsertWithoutResize k v m)
       = (LinkedListHashmap_LookUp m)(k := map_of (AList.update k v ?c) k)"
    by (rule replace_chain [OF assms refl distinct_update [OF d], rotated 2];
        simp add: dom_update update_conv')+
  then show "LinkedListHashmap_invar (InsertWithoutResize k v m)"
    and "LinkedListHashmap_LookUp (InsertWithoutResize k v m) = (LinkedListHashmap_LookUp m)(k \<mapsto> v)"
    by (simp_all add: update_conv')
qed

lemma InsertWithoutResize_fields [simp]:
  "llh_hash (InsertWithoutResize k v m) = llh_hash m"
  "length (llh_entries (InsertWithoutResize k v m)) = length (llh_entries m)"
  "llh_load_factor (InsertWithoutResize k v m) = llh_load_factor m"
  by (simp_all add: InsertWithoutResize_def split_beta Let_def)

lemma fold_InsertWithoutResize:
  assumes "LinkedListHashmap_invar m" and "llh_entries m \<noteq> []"
  defines "m' \<equiv> \<lambda>es m. fold (\<lambda>(key, value). InsertWithoutResize key value) es m"
  shows "LinkedListHashmap_invar (m' es m) \<and> llh_hash (m' es m) = llh_hash m
    \<and> length (llh_entries (m' es m)) = length (llh_entries m) \<and> llh_load_factor (m' es m) = llh_load_factor m
    \<and> LinkedListHashmap_LookUp (m' es m) = LinkedListHashmap_LookUp m ++ map_of (rev es)"
  using assms(1,2)
proof (induction es arbitrary: m)
  case Nil
  then show ?case by (simp add: m'_def)
next
  case (Cons e es)
  obtain k v where e: "e = (k, v)" by (cases e)
  let ?m = "InsertWithoutResize k v m"
  have "LinkedListHashmap_invar ?m" "llh_entries ?m \<noteq> []"
    using InsertWithoutResize_correct(1) [OF Cons.prems, of k v] Cons.prems
      InsertWithoutResize_fields(2) [of k v m] by (simp, metis length_0_conv)
  note IH = Cons.IH [OF this]
  have "m' (e # es) m = m' es ?m" by (simp add: m'_def e)
  moreover have "LinkedListHashmap_LookUp ?m ++ map_of (rev es)
      = LinkedListHashmap_LookUp m ++ map_of (rev (e # es))"
    unfolding InsertWithoutResize_correct(2) [OF Cons.prems]
    by (rule ext) (auto simp: e map_add_def split: option.split)
  ultimately show ?case using IH by simp
qed

lemma fresh_invar:
  "LinkedListHashmap_invar (m\<lparr>llh_entries := replicate n [], llh_size := 0\<rparr>)"
  "LinkedListHashmap_LookUp (m\<lparr>llh_entries := replicate n [], llh_size := 0\<rparr>) = Map.empty"
  by (auto simp: LinkedListHashmap_invar_def hashed_def LinkedListHashmap_LookUp_def)

lemma size_card:
  assumes "LinkedListHashmap_invar m"
  shows "llh_size m = card (dom (LinkedListHashmap_LookUp m))"
proof -
  have h: "hashed (llh_hash m) (llh_entries m)" using assms by (simp add: LinkedListHashmap_invar_def)
  have "dom (LinkedListHashmap_LookUp m) = set (map fst (concat (llh_entries m)))"
    unfolding LookUp_concat [OF h] by (simp add: dom_map_of_conv_image_fst)
  then show ?thesis
    using assms distinct_card [OF hashed_distinct [OF h]] by (simp add: LinkedListHashmap_invar_def length_concat)
qed

lemma Resize_correct:
  assumes "LinkedListHashmap_invar m"
  shows "LinkedListHashmap_invar (Resize m)" and "LinkedListHashmap_LookUp (Resize m) = LinkedListHashmap_LookUp m"
    and "llh_size (Resize m) = llh_size m"
    and "length (llh_entries (Resize m)) = max 2 (2 * llh_size m)"
    and "llh_load_factor (Resize m) = llh_load_factor m"
proof -
  let ?m = "m\<lparr>llh_entries := replicate (max 2 (llh_size m * 2)) [], llh_size := 0\<rparr>"
  let ?es = "concat (llh_entries m)"
  have h: "hashed (llh_hash m) (llh_entries m)" using assms by (simp add: LinkedListHashmap_invar_def)
  have eq: "fold (\<lambda>(key, value). InsertWithoutResize key value) ?es ?m = Resize m"
    by (simp add: Resize_def)
  have "llh_entries ?m \<noteq> []" by simp
  from fold_InsertWithoutResize [OF fresh_invar(1) this, of ?es]
  have r: "LinkedListHashmap_invar (Resize m)"
    "length (llh_entries (Resize m)) = length (llh_entries ?m)" "llh_load_factor (Resize m) = llh_load_factor ?m"
    "LinkedListHashmap_LookUp (Resize m) = Map.empty ++ map_of (rev ?es)"
    unfolding eq fresh_invar(2) by blast+
  have "map_of (rev ?es) = map_of ?es"
    by (rule map_of_rev [OF hashed_distinct [OF h]])
  with r(4) show l: "LinkedListHashmap_LookUp (Resize m) = LinkedListHashmap_LookUp m"
    by (simp add: LookUp_concat [OF h])
  show "llh_size (Resize m) = llh_size m"
    using l size_card [OF assms] size_card [OF r(1)] by simp
  show "LinkedListHashmap_invar (Resize m)" "length (llh_entries (Resize m)) = max 2 (2 * llh_size m)"
    "llh_load_factor (Resize m) = llh_load_factor m"
    using r by (simp_all add: mult.commute)
qed

lemma Insert_correct:
  assumes "LinkedListHashmap_invar m"
  shows "LinkedListHashmap_invar (LinkedListHashmap_Insert k v m)"
    and "LinkedListHashmap_LookUp (LinkedListHashmap_Insert k v m) = (LinkedListHashmap_LookUp m)(k \<mapsto> v)"
proof -
  let ?m = "if llh_entries m = [] \<or> of_nat (llh_size m) > of_nat (length (llh_entries m)) * llh_load_factor m
    then Resize m else m"
  have "llh_entries (Resize m) \<noteq> []" using Resize_correct(4) [OF assms] by auto
  then have "LinkedListHashmap_invar ?m" "llh_entries ?m \<noteq> []" "LinkedListHashmap_LookUp ?m = LinkedListHashmap_LookUp m"
    using assms Resize_correct [OF assms] by simp_all
  with InsertWithoutResize_correct [of ?m k v]
  show "LinkedListHashmap_invar (LinkedListHashmap_Insert k v m)"
    and "LinkedListHashmap_LookUp (LinkedListHashmap_Insert k v m) = (LinkedListHashmap_LookUp m)(k \<mapsto> v)"
    unfolding LinkedListHashmap_Insert_def by simp_all
qed

lemma Remove_correct:
  assumes "LinkedListHashmap_invar m"
  shows "LinkedListHashmap_invar (LinkedListHashmap_Remove k m)" (is ?I)
    and "LinkedListHashmap_LookUp (LinkedListHashmap_Remove k m) = (LinkedListHashmap_LookUp m)(k := None)" (is ?L)
proof -
  have "?I \<and> ?L"
  proof (cases "llh_entries m = []")
    case True
    with assms show ?thesis
      by (auto simp: LinkedListHashmap_Remove_def LinkedListHashmap_LookUp_def)
  next
    case False
    let ?b = "llh_hash m k mod length (llh_entries m)" and ?c = "llh_entries m ! (llh_hash m k mod length (llh_entries m))"
    let ?n = "if map_of ?c k \<noteq> None then llh_size m - 1 else llh_size m"
    have b: "?b < length (llh_entries m)" using False by simp
    have d: "distinct (map fst ?c)" using assms False by (simp add: LinkedListHashmap_invar_def hashed_def)
    have "length ?c \<le> llh_size m"
      using assms length_concat_update [OF b, of "[]"] by (simp add: LinkedListHashmap_invar_def)
    moreover have "map_of ?c k \<noteq> None \<Longrightarrow> 0 < length ?c" by (cases ?c) auto
    ultimately have "?n + length ?c = llh_size m + length (AList.delete k ?c)"
      unfolding length_delete [OF d] by (cases "map_of ?c k"; cases ?c) simp_all
    moreover have "LinkedListHashmap_Remove k m
        = m\<lparr>llh_entries := (llh_entries m)[?b := AList.delete k ?c], llh_size := ?n\<rparr>"
      by (simp only: LinkedListHashmap_Remove_def RemoveChain_delete [OF d] Let_def prod.case False if_False)
    moreover have "fst ` set (AList.delete k ?c) \<subseteq> insert k (fst ` set ?c)"
      using dom_delete_subset [of k ?c] by blast
    ultimately have "?I" "LinkedListHashmap_LookUp (LinkedListHashmap_Remove k m)
       = (LinkedListHashmap_LookUp m)(k := map_of (AList.delete k ?c) k)"
      by (rule replace_chain [OF assms False refl distinct_delete [OF d], rotated 2]; simp)+
    then show ?thesis by (simp add: delete_conv')
  qed
  then show ?I and ?L by blast+
qed

lemma Assign_correct:
  assumes "LinkedListHashmap_invar m"
  shows "LinkedListHashmap_invar (LinkedListHashmap_Assign f k m)" (is ?I)
    and "LinkedListHashmap_LookUp (LinkedListHashmap_Assign f k m)
      = (LinkedListHashmap_LookUp m)(k := map_option f (LinkedListHashmap_LookUp m k))" (is ?L)
proof -
  have "?I \<and> ?L"
  proof (cases "llh_entries m = []")
    case True
    with assms show ?thesis
      by (auto simp: LinkedListHashmap_Assign_def LinkedListHashmap_LookUp_def)
  next
    case False
    let ?b = "llh_hash m k mod length (llh_entries m)" and ?c = "llh_entries m ! (llh_hash m k mod length (llh_entries m))"
    have d: "distinct (map fst ?c)" using assms False by (simp add: LinkedListHashmap_invar_def hashed_def)
    have "llh_size m + length ?c = llh_size m + length (AList.map_entry k f ?c)"
      by (simp add: length_map_entry)
    moreover have "LinkedListHashmap_Assign f k m
        = m\<lparr>llh_entries := (llh_entries m)[?b := AList.map_entry k f ?c], llh_size := llh_size m\<rparr>"
      by (simp add: LinkedListHashmap_Assign_def False Let_def)
    ultimately have "?I" "LinkedListHashmap_LookUp (LinkedListHashmap_Assign f k m)
       = (LinkedListHashmap_LookUp m)(k := map_of (AList.map_entry k f ?c) k)"
      by (rule replace_chain [OF assms False refl distinct_map_entry [OF d], rotated 2];
          simp add: dom_map_entry map_of_map_entry subset_insertI)+
    then show ?thesis
      using False by (auto simp: map_of_map_entry LinkedListHashmap_LookUp_def split: option.split)
  qed
  then show ?I and ?L by blast+
qed

lemma ForEachBucket_concat:
  assumes "ForEachBucket action es s = (es', s')"
  shows "for_each action (concat es) s = (concat es', s')"
    and "length es' = length es" and "\<And>b. b < length es \<Longrightarrow> map fst (es' ! b) = map fst (es ! b)"
proof -
  have "for_each action (concat es) s = (concat es', s') \<and> map (map fst) es' = map (map fst) es"
    using assms
    by (induction action es s arbitrary: es' s' rule: ForEachBucket.induct)
      (auto simp: for_each_append for_each_keys split: prod.splits)
  then show "for_each action (concat es) s = (concat es', s')" and l: "length es' = length es"
    and "\<And>b. b < length es \<Longrightarrow> map fst (es' ! b) = map fst (es ! b)"
    by (auto dest: map_eq_imp_length_eq) (metis length_map nth_map)
qed

lemma ForEach_correct:
  assumes "LinkedListHashmap_invar m" and "LinkedListHashmap_ForEach action m s = (m', s')"
  shows "LinkedListHashmap_invar m'"
    and "for_each action (concat (llh_entries m)) s = (concat (llh_entries m'), s')"
proof -
  obtain es where es: "ForEachBucket action (llh_entries m) s = (es, s')" "m' = m\<lparr>llh_entries := es\<rparr>"
    using assms(2) by (auto simp: LinkedListHashmap_ForEach_def split: prod.splits)
  note f = ForEachBucket_concat [OF es(1)]
  then show "for_each action (concat (llh_entries m)) s = (concat (llh_entries m'), s')" by (simp add: es(2))
  have "hashed (llh_hash m) es"
    using assms(1) f(2,3) by (simp add: LinkedListHashmap_invar_def hashed_def flip: set_map)
  moreover have "length (concat es) = length (concat (llh_entries m))"
    using for_each_keys [OF f(1)] by (metis length_map)
  ultimately show "LinkedListHashmap_invar m'"
    using assms(1) by (simp add: LinkedListHashmap_invar_def es(2))
qed

interpretation llh: dictionary LinkedListHashmap_invar LinkedListHashmap_LookUp LinkedListHashmap_Insert
  LinkedListHashmap_Assign "\<lambda>m. concat (llh_entries m)" LinkedListHashmap_ForEach LinkedListHashmap_Remove
proof
  fix m :: "('k, 'v) LinkedListHashmap" and action :: "'k \<Rightarrow> 'v \<Rightarrow> 's \<Rightarrow> 'v \<times> 's" and s
  assume m: "LinkedListHashmap_invar m"
  then show "LinkedListHashmap_invar (fst (LinkedListHashmap_ForEach action m s))"
    using ForEach_correct(1) [OF m, of action s] by (metis prod.collapse)
  show "distinct (map fst (concat (llh_entries m)))"
    using m hashed_distinct by (auto simp: LinkedListHashmap_invar_def)
  show "map_of (concat (llh_entries m)) = LinkedListHashmap_LookUp m"
    using m LookUp_concat [of m] by (simp add: LinkedListHashmap_invar_def)
qed (simp_all add: Insert_correct Remove_correct Assign_correct ForEach_correct)

section \<open>The load factor\<close>

definition load_bounded :: "('k, 'v) LinkedListHashmap \<Rightarrow> bool" where
  "load_bounded m =
     (of_nat (llh_size m) \<le> of_nat (length (llh_entries m)) * llh_load_factor m + 1)"

lemma InsertWithoutResize_size:
  "of_nat (llh_size (InsertWithoutResize k v m)) \<le> (of_nat (llh_size m) + 1 :: rat)"
  by (simp add: InsertWithoutResize_def split_beta Let_def)

lemma Insert_load:
  assumes "LinkedListHashmap_invar m" and "1 / 2 \<le> llh_load_factor m"
  shows "load_bounded (LinkedListHashmap_Insert k v m)"
    and "llh_load_factor (LinkedListHashmap_Insert k v m) = llh_load_factor m"
proof -
  let ?m = "if llh_entries m = [] \<or> of_nat (llh_size m) > of_nat (length (llh_entries m)) * llh_load_factor m
    then Resize m else m"
  note R = Resize_correct(3-5) [OF assms(1)]
  have lf: "llh_load_factor ?m = llh_load_factor m" using R by simp
  have "of_nat (llh_size m) \<le> of_nat (max 2 (2 * llh_size m)) * (1 / 2 :: rat)"
    by (simp add: of_nat_max max_def)
  also have "\<dots> \<le> of_nat (max 2 (2 * llh_size m)) * llh_load_factor m"
    using assms(2) by (intro mult_left_mono) auto
  finally have "of_nat (llh_size ?m) \<le> of_nat (length (llh_entries ?m)) * llh_load_factor ?m"
    using R by auto
  moreover have "of_nat (llh_size (InsertWithoutResize k v ?m)) \<le> (of_nat (llh_size ?m) + 1 :: rat)"
    by (rule InsertWithoutResize_size)
  ultimately show "load_bounded (LinkedListHashmap_Insert k v m)"
    and "llh_load_factor (LinkedListHashmap_Insert k v m) = llh_load_factor m"
    using lf by (simp_all add: load_bounded_def LinkedListHashmap_Insert_def del: of_nat_add)
qed

lemma Remove_Assign_load:
  assumes "load_bounded m"
  shows "load_bounded (LinkedListHashmap_Remove k m)" and "load_bounded (LinkedListHashmap_Assign f k m)"
    and "llh_load_factor (LinkedListHashmap_Remove k m) = llh_load_factor m"
    and "llh_load_factor (LinkedListHashmap_Assign f k m) = llh_load_factor m"
proof -
  have "(of_nat (llh_size m - 1) :: rat) \<le> of_nat (llh_size m)" by simp
  then show "load_bounded (LinkedListHashmap_Remove k m)"
    using assms by (auto simp: load_bounded_def LinkedListHashmap_Remove_def split_beta Let_def)
qed (use assms in \<open>auto simp: load_bounded_def LinkedListHashmap_Remove_def
    LinkedListHashmap_Assign_def split_beta Let_def\<close>)

lemma run_ops_load:
  assumes "LinkedListHashmap_invar m" and "1 / 2 \<le> llh_load_factor m" and "load_bounded m"
  shows "load_bounded (snd (run_ops LinkedListHashmap_LookUp LinkedListHashmap_Insert
    LinkedListHashmap_Remove LinkedListHashmap_Assign ops m))"
  using assms
proof (induction ops arbitrary: m)
  case (Cons op ops)
  then show ?case
    by (cases op) (simp_all add: split_beta Let_def Insert_correct Remove_correct Assign_correct
        Insert_load Remove_Assign_load)
qed simp

lemma new_correct:
  "LinkedListHashmap_invar (LinkedListHashmap_new load_factor hash)"
  "LinkedListHashmap_LookUp (LinkedListHashmap_new load_factor hash) = Map.empty"
  "llh_load_factor (LinkedListHashmap_new load_factor hash) = load_factor"
  "0 \<le> load_factor \<Longrightarrow> load_bounded (LinkedListHashmap_new load_factor hash)"
  by (auto simp: LinkedListHashmap_new_def LinkedListHashmap_invar_def hashed_def
      LinkedListHashmap_LookUp_def load_bounded_def)

section \<open>Properties\<close>

abbreviation LinkedListHashmap_run ::
    "('k, 'v) map_op list \<Rightarrow> ('k, 'v) LinkedListHashmap \<Rightarrow> 'v option list \<times> ('k, 'v) LinkedListHashmap" where
  "LinkedListHashmap_run \<equiv> run_ops LinkedListHashmap_LookUp LinkedListHashmap_Insert
     LinkedListHashmap_Remove LinkedListHashmap_Assign"

text \<open>
  \<^bold>\<open>C11\<close>. Whatever the hash function and the load factor, a \<open>LinkedListHashmap\<close> answers every
  history of \<open>LookUp\<close>, \<open>Insert\<close>, \<open>Remove\<close> and writes through references as the finite map of
  the specification does, its contents are that map, and \<open>ForEach\<close> then visits exactly the
  bindings of that map, each key once.
\<close>

theorem linked_list_hashmap_refines:
  "let (answers, m) = LinkedListHashmap_run ops (LinkedListHashmap_new load_factor hash);
       (spec_answers, spec) = run_spec ops Map.empty;
       visited = snd (LinkedListHashmap_ForEach (\<lambda>k v seen. (v, seen @ [(k, v)])) m [])
   in answers = spec_answers \<and> LinkedListHashmap_LookUp m = spec
      \<and> distinct (map fst visited) \<and> map_of visited = spec"
proof -
  obtain as m where r: "LinkedListHashmap_run ops (LinkedListHashmap_new load_factor hash) = (as, m)"
    by (rule prod.exhaust)
  note h = llh.run_ops_refines [OF new_correct(1) r, unfolded new_correct(2)]
  let ?a = "\<lambda>k v seen. (v, seen @ [(k, v)])"
  obtain m' visited where f: "LinkedListHashmap_ForEach ?a m [] = (m', visited)" by (rule prod.exhaust)
  have "visited = concat (llh_entries m)"
    using llh.for_each_entries [OF conjunct1 [OF h] f] by (auto simp: for_each_collect)
  with h r f llh.entries_distinct [of m] llh.entries_lookup [of m] show ?thesis by simp
qed

text \<open>
  \<^bold>\<open>C12\<close>. With a load factor of at least one half (the default is three quarters), the table of
  a \<open>LinkedListHashmap\<close> never falls behind its contents: after any history of operations the
  number of entries exceeds the number of buckets times the load factor by at most one.
\<close>

theorem linked_list_hashmap_load:
  assumes "1 / 2 \<le> load_factor"
  shows "let m = snd (LinkedListHashmap_run ops (LinkedListHashmap_new load_factor hash))
    in of_nat (llh_size m) \<le> of_nat (length (llh_entries m)) * llh_load_factor m + 1
       \<and> llh_size m = card (dom (LinkedListHashmap_LookUp m))"
proof -
  let ?r = "LinkedListHashmap_run ops (LinkedListHashmap_new load_factor hash)"
  have "load_bounded (snd ?r)" using assms by (intro run_ops_load) (auto simp: new_correct)
  moreover have "LinkedListHashmap_invar (snd ?r)"
    using llh.run_ops_refines [OF new_correct(1)] by (metis prod.collapse)
  ultimately show ?thesis by (simp add: load_bounded_def size_card)
qed

theorem linked_list_hashmap_load_witness:
  "let m = snd (LinkedListHashmap_run [InsertOp (5 :: nat) ''a'', InsertOp 21 ''b'', RemoveOp 5]
         (LinkedListHashmap_new kDefaultLoadFactor (\<lambda>k. k)))
   in of_nat (llh_size m) \<le> of_nat (length (llh_entries m)) * llh_load_factor m + 1
      \<and> llh_size m = card (dom (LinkedListHashmap_LookUp m))"
  by (rule linked_list_hashmap_load) (simp add: kDefaultLoadFactor_def)

end
