(* ===== verification/Linear_Probing_Hashmap.thy ===== *)
theory Linear_Probing_Hashmap
  imports Map_Interface
begin

text \<open>
  \<open>LinearProbingHashmap\<close> of \<open>v2/src/store/map/linear_probing_hashmap.h\<close>: open addressing with
  linear probing and tombstones. The probing loops can run forever on a bad table, so they are
  partial functions; an operation that does not return, or that computes an index modulo zero,
  has the result \<open>None\<close>. \<open>InsertWithoutSize\<close> and \<open>Resize\<close> call each other; the loop of \<open>Resize\<close> is
  the recursive function, with the body of \<open>InsertWithoutSize\<close> in place of its call, and
  \<open>InsertWithoutSize\<close> is defined from it.

  Without \<open>Remove\<close> the class is a correct map. With \<open>Remove\<close> it is not: an insertion can use a
  tombstone in front of the slot that already holds the key, and the old value comes back when
  the new one is removed.
\<close>

datatype State = EMPTY | DELETED | ELEMENT

record ('k, 'v) ProbeEntry =
  pe_state :: State
  pe_key :: "'k option"
  pe_value :: "'v option"

definition empty_entry :: "('k, 'v) ProbeEntry" where
  "empty_entry = \<lparr>pe_state = EMPTY, pe_key = None, pe_value = None\<rparr>"

record ('k, 'v) LinearProbingHashmap =
  lph_hash :: "'k \<Rightarrow> nat"
  lph_load_factor :: rat
  lph_entries :: "('k, 'v) ProbeEntry list"
  lph_size :: nat

definition LinearProbingHashmap_new :: "rat \<Rightarrow> ('k \<Rightarrow> nat) \<Rightarrow> nat \<Rightarrow> ('k, 'v) LinearProbingHashmap" where
  "LinearProbingHashmap_new load_factor hash initial_capacity =
     \<lparr>lph_hash = hash, lph_load_factor = load_factor,
      lph_entries = replicate initial_capacity empty_entry, lph_size = 0\<rparr>"

text \<open>\<open>state == ELEMENT && key.has_value() && key.value() != key\<close>.\<close>

definition other_key :: "('k, 'v) ProbeEntry \<Rightarrow> 'k \<Rightarrow> bool" where
  "other_key e key \<longleftrightarrow> pe_state e = ELEMENT \<and> (case pe_key e of None \<Rightarrow> False | Some k \<Rightarrow> k \<noteq> key)"

partial_function (option) FindLoop ::
    "('k, 'v) ProbeEntry list \<Rightarrow> 'k \<Rightarrow> nat \<Rightarrow> nat \<Rightarrow> nat option option" where
  "FindLoop es key initial_bucket_index bucket_index =
     (if pe_state (es ! bucket_index) = DELETED \<or> other_key (es ! bucket_index) key
      then let bucket_index = (bucket_index + 1) mod length es
           in if bucket_index = initial_bucket_index then Some None
              else FindLoop es key initial_bucket_index bucket_index
      else if pe_state (es ! bucket_index) = ELEMENT then Some (Some bucket_index)
      else Some None)"

definition InternalFind :: "('k, 'v) LinearProbingHashmap \<Rightarrow> 'k \<Rightarrow> nat option option" where
  "InternalFind m key =
     (if lph_entries m = [] then None
      else let bucket_index = lph_hash m key mod length (lph_entries m)
           in FindLoop (lph_entries m) key bucket_index bucket_index)"

definition LinearProbingHashmap_LookUp :: "('k, 'v) LinearProbingHashmap \<Rightarrow> 'k \<Rightarrow> 'v option option" where
  "LinearProbingHashmap_LookUp m key =
     map_option (\<lambda>found. case found of None \<Rightarrow> None | Some i \<Rightarrow> pe_value (lph_entries m ! i)) (InternalFind m key)"

definition LinearProbingHashmap_Remove :: "'k \<Rightarrow> ('k, 'v) LinearProbingHashmap \<Rightarrow> ('k, 'v) LinearProbingHashmap option" where
  "LinearProbingHashmap_Remove key m =
     map_option (\<lambda>found. case found of
         None \<Rightarrow> m
       | Some i \<Rightarrow> m\<lparr>lph_entries := (lph_entries m)[i := (lph_entries m ! i)\<lparr>pe_state := DELETED\<rparr>]\<rparr>)
       (InternalFind m key)"

partial_function (option) InsertProbe :: "('k, 'v) ProbeEntry list \<Rightarrow> 'k \<Rightarrow> nat \<Rightarrow> nat option" where
  "InsertProbe es key bucket_index =
     (if other_key (es ! bucket_index) key
      then InsertProbe es key ((bucket_index + 1) mod length es)
      else Some bucket_index)"

text \<open>The part of \<open>InsertWithoutSize\<close> behind the test of the load.\<close>

definition Place :: "'k \<Rightarrow> 'v \<Rightarrow> ('k, 'v) LinearProbingHashmap \<Rightarrow> ('k, 'v) LinearProbingHashmap option" where
  "Place key value m =
     (if lph_entries m = [] then None
      else map_option (\<lambda>bucket_index. m\<lparr>lph_entries := (lph_entries m)
          [bucket_index := \<lparr>pe_state = ELEMENT, pe_key = Some key, pe_value = Some value\<rparr>]\<rparr>)
        (InsertProbe (lph_entries m) key (lph_hash m key mod length (lph_entries m))))"

definition load_exceeded :: "('k, 'v) LinearProbingHashmap \<Rightarrow> bool" where
  "load_exceeded m \<longleftrightarrow> of_nat (lph_size m) > lph_load_factor m * of_nat (length (lph_entries m))"

definition ProbeElements :: "('k, 'v) ProbeEntry list \<Rightarrow> ('k \<times> 'v) list" where
  "ProbeElements es = map (\<lambda>e. (the (pe_key e), the (pe_value e))) (filter (\<lambda>e. pe_state e = ELEMENT) es)"

definition Grown :: "('k, 'v) LinearProbingHashmap \<Rightarrow> ('k, 'v) LinearProbingHashmap" where
  "Grown m = m\<lparr>lph_entries := replicate (max 2 (length (lph_entries m) * 2)) empty_entry\<rparr>"

partial_function (option) ReinsertAll ::
    "('k \<times> 'v) list \<Rightarrow> ('k, 'v) LinearProbingHashmap \<Rightarrow> ('k, 'v) LinearProbingHashmap option" where
  "ReinsertAll es m =
     (case es of
        [] \<Rightarrow> Some m
      | (key, value) # es \<Rightarrow>
          Option.bind
            (if load_exceeded m then Option.bind (ReinsertAll (ProbeElements (lph_entries m)) (Grown m)) (Place key value)
             else Place key value m)
            (\<lambda>m. ReinsertAll es m))"

definition LinearProbingHashmap_Resize :: "('k, 'v) LinearProbingHashmap \<Rightarrow> ('k, 'v) LinearProbingHashmap option" where
  "LinearProbingHashmap_Resize m = ReinsertAll (ProbeElements (lph_entries m)) (Grown m)"

definition InsertWithoutSize :: "'k \<Rightarrow> 'v \<Rightarrow> ('k, 'v) LinearProbingHashmap \<Rightarrow> ('k, 'v) LinearProbingHashmap option" where
  "InsertWithoutSize key value m =
     (if load_exceeded m then Option.bind (LinearProbingHashmap_Resize m) (Place key value) else Place key value m)"

text \<open>The loop of \<open>Resize\<close> is made of calls of \<open>InsertWithoutSize\<close>.\<close>

lemma ReinsertAll_simps:
  "ReinsertAll [] m = Some m"
  "ReinsertAll ((key, value) # es) m = Option.bind (InsertWithoutSize key value m) (ReinsertAll es)"
  by (simp_all add: ReinsertAll.simps [of "[]"] ReinsertAll.simps [of "(key, value) # es"] InsertWithoutSize_def LinearProbingHashmap_Resize_def)

definition LinearProbingHashmap_Insert ::
    "'k \<Rightarrow> 'v \<Rightarrow> ('k, 'v) LinearProbingHashmap \<Rightarrow> ('k, 'v) LinearProbingHashmap option" where
  "LinearProbingHashmap_Insert key value m =
     map_option (\<lambda>m. m\<lparr>lph_size := lph_size m + 1\<rparr>) (InsertWithoutSize key value m)"

fun ForEachEntry :: "('k \<Rightarrow> 'v \<Rightarrow> 's \<Rightarrow> 'v \<times> 's) \<Rightarrow> ('k, 'v) ProbeEntry list \<Rightarrow> 's \<Rightarrow> ('k, 'v) ProbeEntry list \<times> 's" where
  "ForEachEntry action [] s = ([], s)"
| "ForEachEntry action (e # es) s =
     (if pe_state e \<noteq> ELEMENT then let (es', s') = ForEachEntry action es s in (e # es', s')
      else let (v, s1) = action (the (pe_key e)) (the (pe_value e)) s; (es', s2) = ForEachEntry action es s1
           in (e\<lparr>pe_value := Some v\<rparr> # es', s2))"

definition LinearProbingHashmap_ForEach ::
    "('k \<Rightarrow> 'v \<Rightarrow> 's \<Rightarrow> 'v \<times> 's) \<Rightarrow> ('k, 'v) LinearProbingHashmap \<Rightarrow> 's \<Rightarrow> ('k, 'v) LinearProbingHashmap \<times> 's" where
  "LinearProbingHashmap_ForEach action m s =
     (let (es, s') = ForEachEntry action (lph_entries m) s in (m\<lparr>lph_entries := es\<rparr>, s'))"

text \<open>A write through the reference that \<open>LookUp\<close> returns.\<close>

definition LinearProbingHashmap_Assign ::
    "('v \<Rightarrow> 'v) \<Rightarrow> 'k \<Rightarrow> ('k, 'v) LinearProbingHashmap \<Rightarrow> ('k, 'v) LinearProbingHashmap option" where
  "LinearProbingHashmap_Assign f key m =
     map_option (\<lambda>found. case found of
         None \<Rightarrow> m
       | Some i \<Rightarrow> m\<lparr>lph_entries := (lph_entries m)
           [i := (lph_entries m ! i)\<lparr>pe_value := map_option f (pe_value (lph_entries m ! i))\<rparr>]\<rparr>)
       (InternalFind m key)"

section \<open>The probing loops\<close>

definition probe :: "'a list \<Rightarrow> nat \<Rightarrow> nat \<Rightarrow> nat" where
  "probe es h i = (h + i) mod length es"

lemma probe_Suc: "(probe es h i + 1) mod length es = probe es h (i + 1)"
  by (simp add: probe_def mod_simps)

lemma probe_less: "es \<noteq> [] \<Longrightarrow> probe es h i < length es"
  by (simp add: probe_def)

lemma probe_home: "h < length es \<Longrightarrow> probe es h 0 = h"
  by (simp add: probe_def)

lemma probe_wraps: "h < length es \<Longrightarrow> i < length es \<Longrightarrow> 0 < i \<Longrightarrow> probe es h i \<noteq> h"
proof -
  assume h: "h < length es" "i < length es" "0 < i"
  show ?thesis
  proof (cases "h + i < length es")
    case False
    then have "probe es h i = h + i - length es" using h by (simp add: probe_def le_mod_geq)
    with h False show ?thesis by simp
  qed (use h in \<open>simp add: probe_def\<close>)
qed

lemma probe_inj:
  assumes "h < length es" and "i < length es" and "d < length es" and "probe es h i = probe es h d"
  shows "i = d"
proof -
  have "probe es h n = (if h + n < length es then h + n else h + n - length es)" if "n < length es" for n
    using assms(1) that by (simp add: probe_def le_mod_geq)
  with assms show ?thesis by (auto split: if_splits)
qed

lemma probe_full: "h < length es \<Longrightarrow> probe es h (length es) = h"
  by (simp add: probe_def)

lemma probe_surj: "h < length es \<Longrightarrow> j < length es \<Longrightarrow> \<exists>d < length es. probe es h d = j"
proof -
  assume h: "h < length es" "j < length es"
  show ?thesis
  proof (cases "h \<le> j")
    case True
    then have "probe es h (j - h) = j" using h by (simp add: probe_def)
    with h show ?thesis by (intro exI [of _ "j - h"]) auto
  next
    case False
    then have "probe es h (j + length es - h) = j" using h by (simp add: probe_def)
    with h False show ?thesis by (intro exI [of _ "j + length es - h"]) auto
  qed
qed

text \<open>The slots the search passes over.\<close>

definition passes :: "('k, 'v) ProbeEntry \<Rightarrow> 'k \<Rightarrow> bool" where
  "passes e key \<longleftrightarrow> pe_state e = DELETED \<or> other_key e key"

lemma FindLoop_stop:
  assumes "h < length es" and "d < length es" and "i \<le> d"
    and "\<And>j. j < d \<Longrightarrow> passes (es ! probe es h j) key" and "\<not> passes (es ! probe es h d) key"
  shows "FindLoop es key h (probe es h i) =
    Some (if pe_state (es ! probe es h d) = ELEMENT then Some (probe es h d) else None)"
  using assms(3)
proof (induction "d - i" arbitrary: i)
  case 0
  then have "i = d" by simp
  with assms(5) show ?case by (subst FindLoop.simps) (auto simp: passes_def)
next
  case (Suc n)
  then have "i < d" by simp
  then have "passes (es ! probe es h i) key" "probe es h (i + 1) \<noteq> h"
    using assms(1,2,4) probe_wraps [of h es "i + 1"] by auto
  moreover have "FindLoop es key h (probe es h (i + 1)) =
      Some (if pe_state (es ! probe es h d) = ELEMENT then Some (probe es h d) else None)"
    using Suc \<open>i < d\<close> by (intro Suc.hyps) auto
  ultimately show ?case
    by (subst FindLoop.simps) (auto simp: passes_def Let_def probe_Suc simp del: add_Suc_right One_nat_def)
qed

lemma FindLoop_wrap:
  assumes "h < length es" and "i < length es" and "\<And>j. j < length es \<Longrightarrow> passes (es ! probe es h j) key"
  shows "FindLoop es key h (probe es h i) = Some None"
  using assms(2)
proof (induction "length es - i" arbitrary: i)
  case (Suc n)
  have p: "passes (es ! probe es h i) key" using assms(3) Suc.prems by blast
  show ?case
  proof (cases "i + 1 = length es")
    case True
    then have "probe es h (i + 1) = h" using probe_full [OF assms(1)] by simp
    with p show ?thesis by (subst FindLoop.simps) (auto simp: passes_def Let_def probe_Suc simp del: add_Suc_right One_nat_def)
  next
    case False
    then have "FindLoop es key h (probe es h (i + 1)) = Some None" using Suc by (intro Suc.hyps) auto
    moreover have "probe es h (i + 1) \<noteq> h" using assms(1) False Suc.prems by (intro probe_wraps) auto
    ultimately show ?thesis
      using p by (subst FindLoop.simps) (auto simp: passes_def Let_def probe_Suc simp del: add_Suc_right One_nat_def)
  qed
qed simp

lemma InsertProbe_stop:
  assumes "i \<le> d" and "\<And>j. j < d \<Longrightarrow> other_key (es ! probe es h j) key" and "\<not> other_key (es ! probe es h d) key"
  shows "InsertProbe es key (probe es h i) = Some (probe es h d)"
  using assms(1)
proof (induction "d - i" arbitrary: i)
  case 0
  with assms(3) show ?case by (subst InsertProbe.simps) simp
next
  case (Suc n)
  then have "other_key (es ! probe es h i) key" using assms(2) by simp
  moreover have "InsertProbe es key (probe es h (i + 1)) = Some (probe es h d)" using Suc by (intro Suc.hyps) auto
  ultimately show ?case by (subst InsertProbe.simps) (simp add: probe_Suc del: add_Suc_right One_nat_def)
qed

section \<open>The invariant\<close>

abbreviation is_element :: "('k, 'v) ProbeEntry \<Rightarrow> bool" where "is_element e \<equiv> pe_state e = ELEMENT"

text \<open>
  Every element is reached from the home slot of its key over elements only, no key occurs
  twice, and there are no tombstones.
\<close>

definition reached :: "('k \<Rightarrow> nat) \<Rightarrow> ('k, 'v) ProbeEntry list \<Rightarrow> 'k \<Rightarrow> nat \<Rightarrow> bool" where
  "reached hash es k j \<longleftrightarrow> (\<exists>d < length es. j = probe es (hash k mod length es) d \<and>
     (\<forall>i < d. is_element (es ! probe es (hash k mod length es) i)))"

definition probe_ok :: "('k \<Rightarrow> nat) \<Rightarrow> ('k, 'v) ProbeEntry list \<Rightarrow> bool" where
  "probe_ok hash es \<longleftrightarrow> es \<noteq> [] \<and>
     (\<forall>j < length es. pe_state (es ! j) \<noteq> DELETED \<and>
        (is_element (es ! j) \<longrightarrow> (\<exists>k v. pe_key (es ! j) = Some k \<and> pe_value (es ! j) = Some v \<and> reached hash es k j))) \<and>
     (\<forall>i < length es. \<forall>j < length es.
        is_element (es ! i) \<longrightarrow> is_element (es ! j) \<longrightarrow> pe_key (es ! i) = pe_key (es ! j) \<longrightarrow> i = j)"

lemma probe_okD:
  assumes "probe_ok hash es" and "j < length es"
  shows "pe_state (es ! j) \<noteq> DELETED"
    and "is_element (es ! j) \<Longrightarrow> \<exists>k v. pe_key (es ! j) = Some k \<and> pe_value (es ! j) = Some v \<and> reached hash es k j"
    and "i < length es \<Longrightarrow> is_element (es ! i) \<Longrightarrow> is_element (es ! j) \<Longrightarrow> pe_key (es ! i) = pe_key (es ! j) \<Longrightarrow> i = j"
  using assms unfolding probe_ok_def by blast+

lemma home_less: "es \<noteq> [] \<Longrightarrow> hash k mod length es < length es"
  by simp

lemma find_present:
  assumes ok: "probe_ok hash es" and j: "j < length es" "is_element (es ! j)" "pe_key (es ! j) = Some k"
  defines "h \<equiv> hash k mod length es"
  shows "FindLoop es k h h = Some (Some j)" and "InsertProbe es k h = Some j"
proof -
  have ne: "es \<noteq> []" using ok by (simp add: probe_ok_def)
  then have h: "h < length es" by (simp add: h_def)
  obtain d where d: "d < length es" "j = probe es h d" "\<forall>i < d. is_element (es ! probe es h i)"
    using probe_okD(2) [OF ok j(1,2)] j(3) by (auto simp: reached_def h_def)
  have pass: "other_key (es ! probe es h i) k" if "i < d" for i
  proof -
    have e: "is_element (es ! probe es h i)" using d(3) that by blast
    have l: "probe es h i < length es" using ne by (rule probe_less)
    have "probe es h i \<noteq> j"
    proof
      assume "probe es h i = j"
      then have "i = d" using probe_inj [OF h, of i d] that d(1,2) by simp
      with that show False by simp
    qed
    then have "pe_key (es ! probe es h i) \<noteq> Some k" using probe_okD(3) [OF ok j(1) l e j(2)] j(3) by auto
    with e probe_okD(2) [OF ok l e] show ?thesis by (auto simp: other_key_def)
  qed
  have "\<not> passes (es ! probe es h d) k" "\<not> other_key (es ! probe es h d) k"
    using j d(2) by (auto simp: passes_def other_key_def)
  then show "FindLoop es k h h = Some (Some j)" and "InsertProbe es k h = Some j"
    using FindLoop_stop [OF h d(1), of 0 k] InsertProbe_stop [of 0 d es h k] pass d(2) j(2)
    by (auto simp: passes_def probe_home [OF h])
qed

lemma find_absent:
  assumes ok: "probe_ok hash es" and absent: "\<And>j. j < length es \<Longrightarrow> is_element (es ! j) \<Longrightarrow> pe_key (es ! j) \<noteq> Some k"
  defines "h \<equiv> hash k mod length es"
  shows "FindLoop es k h h = Some None"
proof -
  have ne: "es \<noteq> []" using ok by (simp add: probe_ok_def)
  then have h: "h < length es" by (simp add: h_def)
  have stop: "\<not> is_element (es ! j)" if "j < length es" "\<not> passes (es ! j) k" for j
    using that absent [OF that(1)] probe_okD(2) [OF ok that(1)] by (auto simp: passes_def other_key_def)
  show ?thesis
  proof (cases "\<forall>j < length es. passes (es ! probe es h j) k")
    case True
    with FindLoop_wrap [OF h, of 0 k] ne show ?thesis by (simp add: probe_home [OF h])
  next
    case False
    then obtain d where d: "\<not> passes (es ! probe es h d) k" "d < length es" "\<And>j. j < d \<Longrightarrow> passes (es ! probe es h j) k"
      using exists_least_iff [of "\<lambda>j. j < length es \<and> \<not> passes (es ! probe es h j) k"] by auto
    with stop [OF probe_less [OF ne] d(1)] FindLoop_stop [OF h d(2), of 0 k] show ?thesis
      by (simp add: probe_home [OF h])
  qed
qed

text \<open>The contents as a list of bindings.\<close>

lemma distinct_map_filter:
  "(\<And>i j. i < length es \<Longrightarrow> j < length es \<Longrightarrow> P (es ! i) \<Longrightarrow> P (es ! j) \<Longrightarrow> f (es ! i) = f (es ! j) \<Longrightarrow> i = j) \<Longrightarrow>
     distinct (map f (filter P es))"
proof (induction es)
  case (Cons e es)
  have "distinct (map f (filter P es))"
    using Cons.prems [of "Suc i" "Suc j" for i j] by (intro Cons.IH) auto
  moreover have "f e \<notin> f ` {x \<in> set es. P x}" if "P e"
  proof
    assume "f e \<in> f ` {x \<in> set es. P x}"
    then obtain i where "i < length es" "P (es ! i)" "f (es ! i) = f e" by (auto simp: in_set_conv_nth)
    with Cons.prems [of 0 "Suc i"] that show False by simp
  qed
  ultimately show ?case by auto
qed simp

lemma ProbeElements_distinct:
  assumes "probe_ok hash es"
  shows "distinct (map fst (ProbeElements es))"
proof -
  have "distinct (map (\<lambda>e. the (pe_key e)) (filter is_element es))"
  proof (rule distinct_map_filter)
    fix i j
    assume "i < length es" "j < length es" "is_element (es ! i)" "is_element (es ! j)"
      "the (pe_key (es ! i)) = the (pe_key (es ! j))"
    with probe_okD(2) [OF assms, of i] probe_okD(2) [OF assms, of j] probe_okD(3) [OF assms, of j i] show "i = j" by auto
  qed
  then show ?thesis by (simp add: ProbeElements_def comp_def)
qed

lemma ProbeElements_set:
  assumes "probe_ok hash es"
  shows "(k, v) \<in> set (ProbeElements es) \<longleftrightarrow>
    (\<exists>j < length es. is_element (es ! j) \<and> pe_key (es ! j) = Some k \<and> pe_value (es ! j) = Some v)"
proof
  assume "(k, v) \<in> set (ProbeElements es)"
  then obtain j where j: "j < length es" "is_element (es ! j)" "k = the (pe_key (es ! j))" "v = the (pe_value (es ! j))"
    by (auto simp: ProbeElements_def in_set_conv_nth)
  with probe_okD(2) [OF assms j(1,2)] show "\<exists>j < length es. is_element (es ! j) \<and> pe_key (es ! j) = Some k \<and> pe_value (es ! j) = Some v"
    by auto
next
  assume "\<exists>j < length es. is_element (es ! j) \<and> pe_key (es ! j) = Some k \<and> pe_value (es ! j) = Some v"
  then obtain j where "j < length es" "is_element (es ! j)" "pe_key (es ! j) = Some k" "pe_value (es ! j) = Some v" by blast
  then have "es ! j \<in> set (filter is_element es)" "(k, v) = (the (pe_key (es ! j)), the (pe_value (es ! j)))" by auto
  then show "(k, v) \<in> set (ProbeElements es)" unfolding ProbeElements_def set_map by (rule image_eqI [rotated])
qed

lemma LookUp_elements:
  assumes "probe_ok (lph_hash m) (lph_entries m)"
  shows "LinearProbingHashmap_LookUp m k = Some (map_of (ProbeElements (lph_entries m)) k)"
proof -
  let ?es = "lph_entries m" and ?h = "lph_hash m k mod length (lph_entries m)"
  have ne: "?es \<noteq> []" using assms by (simp add: probe_ok_def)
  show ?thesis
  proof (cases "\<exists>j < length ?es. is_element (?es ! j) \<and> pe_key (?es ! j) = Some k")
    case True
    then obtain j where j: "j < length ?es" "is_element (?es ! j)" "pe_key (?es ! j) = Some k" by blast
    then obtain v where v: "pe_value (?es ! j) = Some v" using probe_okD(2) [OF assms j(1,2)] by auto
    with j have "(k, v) \<in> set (ProbeElements ?es)" by (auto simp: ProbeElements_set [OF assms])
    then have "map_of (ProbeElements ?es) k = Some v" by (rule map_of_is_SomeI [OF ProbeElements_distinct [OF assms]])
    with find_present(1) [OF assms j] ne v show ?thesis
      by (simp add: LinearProbingHashmap_LookUp_def InternalFind_def Let_def)
  next
    case False
    then have "k \<notin> fst ` set (ProbeElements ?es)" using ProbeElements_set [OF assms, of k] by auto
    then have "map_of (ProbeElements ?es) k = None" by (simp add: map_of_eq_None_iff)
    with find_absent [OF assms, of k] False ne show ?thesis
      by (auto simp: LinearProbingHashmap_LookUp_def InternalFind_def Let_def)
  qed
qed

section \<open>Insertion\<close>

definition element_count :: "('k, 'v) ProbeEntry list \<Rightarrow> nat" where
  "element_count es = length (filter is_element es)"

lemma element_count_update:
  assumes "j < length es" and "is_element e"
  shows "element_count (es[j := e]) = (if is_element (es ! j) then element_count es else element_count es + 1)"
proof -
  have "es[j := e] = take j es @ e # drop (Suc j) es" using assms(1) by (rule upd_conv_take_nth_drop)
  moreover have "element_count es = element_count (take j es @ es ! j # drop (Suc j) es)"
    using id_take_nth_drop [OF assms(1)] by simp
  ultimately show ?thesis using assms(2) by (simp add: element_count_def)
qed

lemma element_count_less: "element_count es < length es \<Longrightarrow> \<exists>j < length es. \<not> is_element (es ! j)"
proof (rule ccontr)
  assume "element_count es < length es" "\<not> (\<exists>j < length es. \<not> is_element (es ! j))"
  then have "filter is_element es = es" by (auto simp: filter_id_conv in_set_conv_nth)
  with \<open>element_count es < length es\<close> show False by (simp add: element_count_def)
qed

lemma reached_update: "is_element e \<Longrightarrow> reached hash es k j' \<Longrightarrow> reached hash (es[j := e]) k j'"
proof -
  assume e: "is_element e" and "reached hash es k j'"
  then obtain d where d: "d < length es" "j' = probe es (hash k mod length es) d"
    and pass: "\<forall>i < d. is_element (es ! probe es (hash k mod length es) i)"
    unfolding reached_def by blast
  have "is_element (es[j := e] ! i)" if "is_element (es ! i)" for i
    using e that by (cases "i = j \<and> j < length es") (auto simp: nth_list_update list_update_beyond)
  with d pass show ?thesis unfolding reached_def probe_def by auto
qed

text \<open>Writing the binding into the slot of the key, or into the first free slot on its path.\<close>

definition may_store :: "('k \<Rightarrow> nat) \<Rightarrow> ('k, 'v) ProbeEntry list \<Rightarrow> 'k \<Rightarrow> nat \<Rightarrow> bool" where
  "may_store hash es k j \<longleftrightarrow> is_element (es ! j) \<and> pe_key (es ! j) = Some k \<or>
     \<not> is_element (es ! j) \<and> reached hash es k j \<and> (\<forall>i < length es. is_element (es ! i) \<longrightarrow> pe_key (es ! i) \<noteq> Some k)"

abbreviation stored :: "('k, 'v) ProbeEntry list \<Rightarrow> nat \<Rightarrow> 'k \<Rightarrow> 'v \<Rightarrow> ('k, 'v) ProbeEntry list" where
  "stored es j k v \<equiv> es[j := \<lparr>pe_state = ELEMENT, pe_key = Some k, pe_value = Some v\<rparr>]"

lemma store_other:
  assumes "probe_ok hash es" and "j < length es" and "may_store hash es k j" and "i < length es" "is_element (es ! i)" "i \<noteq> j"
  shows "pe_key (es ! i) \<noteq> Some k"
  using assms probe_okD(3) [OF assms(1,2), of i] by (auto simp: may_store_def)

lemma store_probe_ok:
  assumes ok: "probe_ok hash es" and j: "j < length es" and slot: "may_store hash es k j"
  shows "probe_ok hash (stored es j k v)"
proof -
  note other = store_other [OF ok j slot]
  have r: "reached hash es k j" using slot probe_okD(2) [OF ok j] by (auto simp: may_store_def)
  have reach: "reached hash (stored es j k v) k' i" if "reached hash es k' i" for k' i
    by (rule reached_update [OF _ that]) simp
  show ?thesis
    unfolding probe_ok_def length_list_update
  proof (intro conjI allI impI)
    show "stored es j k v \<noteq> []" using j by auto
    fix i
    assume i: "i < length es"
    show "pe_state (stored es j k v ! i) \<noteq> DELETED" using j probe_okD(1) [OF ok i] by (simp add: nth_list_update)
    show "\<exists>k' v'. pe_key (stored es j k v ! i) = Some k' \<and> pe_value (stored es j k v ! i) = Some v' \<and> reached hash (stored es j k v) k' i"
      if "is_element (stored es j k v ! i)"
      using that reach [OF r] j probe_okD(2) [OF ok i] reach by (cases "i = j") auto
    fix i'
    assume i': "i' < length es" and e: "is_element (stored es j k v ! i)" "is_element (stored es j k v ! i')"
      "pe_key (stored es j k v ! i) = pe_key (stored es j k v ! i')"
    show "i = i'"
      using e j other [OF i] other [OF i'] probe_okD(3) [OF ok i' i] by (auto simp: nth_list_update split: if_splits)
  qed
qed

lemma store_slots:
  assumes ok: "probe_ok hash es" and j: "j < length es" and slot: "may_store hash es k j"
  shows "(\<exists>i < length es. is_element (stored es j k v ! i) \<and> pe_key (stored es j k v ! i) = Some k' \<and> pe_value (stored es j k v ! i) = Some v') \<longleftrightarrow>
    (if k' = k then v' = v else \<exists>i < length es. is_element (es ! i) \<and> pe_key (es ! i) = Some k' \<and> pe_value (es ! i) = Some v')"
proof (cases "k' = k")
  case True
  have "(\<exists>i < length es. is_element (stored es j k v ! i) \<and> pe_key (stored es j k v ! i) = Some k \<and> pe_value (stored es j k v ! i) = Some v') \<longleftrightarrow> v' = v"
    using j store_other [OF ok j slot] by (auto simp: nth_list_update split: if_splits)
  with True show ?thesis by simp
next
  case False
  have "is_element (es ! j) \<Longrightarrow> pe_key (es ! j) = Some k" using slot by (auto simp: may_store_def)
  then have "is_element (stored es j k v ! i) \<and> pe_key (stored es j k v ! i) = Some k' \<and> pe_value (stored es j k v ! i) = Some v' \<longleftrightarrow>
      is_element (es ! i) \<and> pe_key (es ! i) = Some k' \<and> pe_value (es ! i) = Some v'" if "i < length es" for i
    using False j that by (auto simp: nth_list_update)
  with False show ?thesis by auto
qed

lemma store_ok:
  fixes v :: 'v
  assumes ok: "probe_ok hash es" and j: "j < length es"
    and slot: "is_element (es ! j) \<and> pe_key (es ! j) = Some k \<or>
      \<not> is_element (es ! j) \<and> reached hash es k j \<and>
      (\<forall>i < length es. is_element (es ! i) \<longrightarrow> pe_key (es ! i) \<noteq> Some k)"
  shows "probe_ok hash (stored es j k v)"
    and "map_of (ProbeElements (stored es j k v)) = (map_of (ProbeElements es))(k \<mapsto> v)"
proof -
  have may: "may_store hash es k j" using slot by (simp add: may_store_def)
  show ok': "probe_ok hash (stored es j k v)" by (rule store_probe_ok [OF ok j may])
  show "map_of (ProbeElements (stored es j k v)) = (map_of (ProbeElements es))(k \<mapsto> v)"
  proof
    fix k'
    have "map_of (ProbeElements (stored es j k v)) k' = Some v' \<longleftrightarrow> ((map_of (ProbeElements es))(k \<mapsto> v)) k' = Some v'" for v'
    proof -
      have "map_of (ProbeElements (stored es j k v)) k' = Some v' \<longleftrightarrow>
          (if k' = k then v' = v else \<exists>i < length es. is_element (es ! i) \<and> pe_key (es ! i) = Some k' \<and> pe_value (es ! i) = Some v')"
        by (simp only: map_of_eq_Some_iff [OF ProbeElements_distinct [OF ok']] ProbeElements_set [OF ok'] length_list_update
          store_slots [OF ok j may])
      also have "\<dots> \<longleftrightarrow> ((map_of (ProbeElements es))(k \<mapsto> v)) k' = Some v'"
        by (auto simp only: map_of_eq_Some_iff [OF ProbeElements_distinct [OF ok]] ProbeElements_set [OF ok] fun_upd_def option.inject split: if_splits)
      finally show ?thesis .
    qed
    then show "map_of (ProbeElements (stored es j k v)) k' = ((map_of (ProbeElements es))(k \<mapsto> v)) k'"
      by (metis not_Some_eq)
  qed
qed

lemma InsertProbe_total:
  assumes room: "element_count es < length es" and h: "h < length es"
  obtains d where "d < length es" and "InsertProbe es k h = Some (probe es h d)"
    and "\<And>i. i < d \<Longrightarrow> other_key (es ! probe es h i) k" and "\<not> other_key (es ! probe es h d) k"
proof -
  obtain j where j: "j < length es" "\<not> is_element (es ! j)" using element_count_less [OF room] by blast
  obtain d0 where "d0 < length es" "probe es h d0 = j" using probe_surj [OF h j(1)] by blast
  with j(2) have "d0 < length es \<and> \<not> other_key (es ! probe es h d0) k" by (simp add: other_key_def)
  then obtain d where d: "d < length es" "\<not> other_key (es ! probe es h d) k" "\<And>i. i < d \<Longrightarrow> other_key (es ! probe es h i) k"
    using exists_least_iff [of "\<lambda>d. d < length es \<and> \<not> other_key (es ! probe es h d) k"] by auto
  then have "InsertProbe es k h = Some (probe es h d)"
    using InsertProbe_stop [of 0 d es h k] by (simp add: probe_home [OF h])
  with d show ?thesis by (intro that)
qed

lemma Place_correct:
  fixes m :: "('k, 'v) LinearProbingHashmap"
  defines "es \<equiv> lph_entries m"
  assumes room: "element_count es < length es"
  shows "\<exists>es'. Place k v m = Some (m\<lparr>lph_entries := es'\<rparr>) \<and> length es' = length es \<and>
    element_count es' \<le> element_count es + 1 \<and>
    (probe_ok (lph_hash m) es \<longrightarrow> probe_ok (lph_hash m) es' \<and>
       map_of (ProbeElements es') = (map_of (ProbeElements es))(k \<mapsto> v))"
proof -
  let ?h = "lph_hash m k mod length es" and ?e = "\<lparr>pe_state = ELEMENT, pe_key = Some k, pe_value = Some v\<rparr>"
  have ne: "es \<noteq> []" using room by auto
  then have h: "?h < length es" by simp
  obtain d where d: "d < length es" "InsertProbe es k ?h = Some (probe es ?h d)"
    "\<And>i. i < d \<Longrightarrow> other_key (es ! probe es ?h i) k" "\<not> other_key (es ! probe es ?h d) k"
    using InsertProbe_total [OF room h] by metis
  let ?j = "probe es ?h d"
  have j: "?j < length es" using ne by (rule probe_less)
  have "Place k v m = Some (m\<lparr>lph_entries := es[?j := ?e]\<rparr>)" using d(2) ne by (simp add: Place_def es_def)
  moreover have "element_count (es[?j := ?e]) \<le> element_count es + 1" using element_count_update [OF j, of ?e] by simp
  moreover have "probe_ok (lph_hash m) (es[?j := ?e]) \<and> map_of (ProbeElements (es[?j := ?e])) = (map_of (ProbeElements es))(k \<mapsto> v)"
    if ok: "probe_ok (lph_hash m) es"
  proof -
    have here: "pe_key (es ! ?j) = Some k" if "is_element (es ! ?j)"
      using probe_okD(2) [OF ok j that] d(4) that by (auto simp: other_key_def)
    have "\<not> is_element (es ! ?j) \<Longrightarrow> reached (lph_hash m) es k ?j \<and> (\<forall>i < length es. is_element (es ! i) \<longrightarrow> pe_key (es ! i) \<noteq> Some k)"
      using d(1,3) find_present(2) [OF ok] d(2) by (auto simp: reached_def other_key_def)
    with here store_ok [OF ok j, of k v] show ?thesis by blast
  qed
  ultimately show ?thesis by (intro exI [of _ "es[?j := ?e]"]) simp
qed

lemma load_room:
  assumes "\<not> load_exceeded m" and "lph_load_factor m < 1" and "lph_entries m \<noteq> []"
  shows "lph_size m < length (lph_entries m)"
proof -
  have "(0 :: rat) < of_nat (length (lph_entries m))" using assms(3) by simp
  then have "lph_load_factor m * of_nat (length (lph_entries m)) < 1 * of_nat (length (lph_entries m))"
    using assms(2) by (intro mult_strict_right_mono)
  with assms(1) have "(of_nat (lph_size m) :: rat) < of_nat (length (lph_entries m))"
    unfolding load_exceeded_def by linarith
  then show ?thesis by simp
qed

lemma ReinsertAll_correct:
  fixes m :: "('k, 'v) LinearProbingHashmap"
  assumes "\<not> load_exceeded m" and "lph_load_factor m < 1" and "lph_entries m \<noteq> []"
    and "element_count (lph_entries m) + length xs \<le> lph_size m"
  shows "\<exists>es'. ReinsertAll xs m = Some (m\<lparr>lph_entries := es'\<rparr>) \<and> length es' = length (lph_entries m) \<and>
    element_count es' \<le> element_count (lph_entries m) + length xs \<and>
    (probe_ok (lph_hash m) (lph_entries m) \<longrightarrow> probe_ok (lph_hash m) es' \<and>
       map_of (ProbeElements es') = map_of (ProbeElements (lph_entries m)) ++ map_of (rev xs))"
  using assms
proof (induction xs arbitrary: m)
  case (Cons x xs)
  obtain k v where x: "x = (k, v)" by (cases x)
  have "lph_size m < length (lph_entries m)" using Cons.prems(1-3) by (rule load_room)
  then obtain es1 where p: "Place k v m = Some (m\<lparr>lph_entries := es1\<rparr>)" "length es1 = length (lph_entries m)"
    "element_count es1 \<le> element_count (lph_entries m) + 1"
    "probe_ok (lph_hash m) (lph_entries m) \<Longrightarrow> probe_ok (lph_hash m) es1 \<and>
       map_of (ProbeElements es1) = (map_of (ProbeElements (lph_entries m)))(k \<mapsto> v)"
    using Place_correct [of m k v] Cons.prems(4) by auto
  have "es1 \<noteq> []" using p(2) Cons.prems(3) by auto
  with Cons.IH [of "m\<lparr>lph_entries := es1\<rparr>"] Cons.prems p(2,3) obtain es' where
    "ReinsertAll xs (m\<lparr>lph_entries := es1\<rparr>) = Some (m\<lparr>lph_entries := es'\<rparr>)" "length es' = length es1"
    "element_count es' \<le> element_count es1 + length xs"
    "probe_ok (lph_hash m) es1 \<longrightarrow> probe_ok (lph_hash m) es' \<and> map_of (ProbeElements es') = map_of (ProbeElements es1) ++ map_of (rev xs)"
    by (auto simp: load_exceeded_def)
  with p Cons.prems(1) show ?case by (auto simp: x ReinsertAll_simps InsertWithoutSize_def)
next
  case Nil
  show ?case by (intro exI [of _ "lph_entries m"]) (simp add: ReinsertAll_simps)
qed

text \<open>
  What keeps the loops finite: the counter \<open>size_\<close> is an upper bound of the number of elements,
  and it exceeds the load by at most one.
\<close>

definition has_room :: "('k, 'v) LinearProbingHashmap \<Rightarrow> bool" where
  "has_room m \<longleftrightarrow> lph_load_factor m < 1 \<and> 1 \<le> lph_load_factor m * of_nat (length (lph_entries m)) \<and>
     element_count (lph_entries m) \<le> lph_size m \<and>
     of_nat (lph_size m) \<le> lph_load_factor m * of_nat (length (lph_entries m)) + 1"

definition LinearProbingHashmap_invar :: "('k, 'v) LinearProbingHashmap \<Rightarrow> bool" where
  "LinearProbingHashmap_invar m \<longleftrightarrow> has_room m \<and> probe_ok (lph_hash m) (lph_entries m)"

lemma has_room_entries: "has_room m \<Longrightarrow> lph_entries m \<noteq> []"
  by (auto simp: has_room_def)

lemma fresh_entries:
  "element_count (replicate n empty_entry) = 0" "ProbeElements (replicate n empty_entry) = []"
  "0 < n \<Longrightarrow> probe_ok hash (replicate n empty_entry)"
  by (auto simp: element_count_def ProbeElements_def empty_entry_def probe_ok_def)

lemma ProbeElements_length: "length (ProbeElements es) = element_count es"
  by (simp add: ProbeElements_def element_count_def)

lemma InsertWithoutSize_correct:
  assumes room: "has_room m"
  defines "es \<equiv> lph_entries m"
  shows "\<exists>es'. InsertWithoutSize k v m = Some (m\<lparr>lph_entries := es'\<rparr>) \<and> length es \<le> length es' \<and>
    element_count es' \<le> lph_size m + 1 \<and> of_nat (lph_size m) \<le> lph_load_factor m * of_nat (length es') \<and>
    (probe_ok (lph_hash m) es \<longrightarrow> probe_ok (lph_hash m) es' \<and>
       map_of (ProbeElements es') = (map_of (ProbeElements es))(k \<mapsto> v))"
proof (cases "load_exceeded m")
  case False
  have "element_count (lph_entries m) < length (lph_entries m)"
    using load_room [OF False _ has_room_entries [OF room]] room by (auto simp: has_room_def)
  with Place_correct [of m k v] False room show ?thesis
    by (auto simp: InsertWithoutSize_def es_def load_exceeded_def has_room_def)
next
  case True
  let ?n = "length es * 2"
  define f where "f = m\<lparr>lph_entries := replicate ?n empty_entry\<rparr>"
  have n: "0 < ?n" "max 2 ?n = ?n" using has_room_entries [OF room] by (auto simp: es_def max_def Suc_le_eq)
  have fits: "of_nat (lph_size m) \<le> lph_load_factor m * of_nat ?n" "\<not> load_exceeded f"
    using room by (auto simp: has_room_def es_def f_def load_exceeded_def algebra_simps)
  have f: "lph_entries f \<noteq> []" "lph_load_factor f < 1" "lph_size f = lph_size m" "lph_hash f = lph_hash m"
    using n room by (auto simp: f_def has_room_def)
  obtain es1 where r: "ReinsertAll (ProbeElements es) f = Some (f\<lparr>lph_entries := es1\<rparr>)" "length es1 = ?n"
    "element_count es1 \<le> element_count es" "probe_ok (lph_hash m) es1" "map_of (ProbeElements es1) = map_of (rev (ProbeElements es))"
    using ReinsertAll_correct [OF fits(2) f(2,1), of "ProbeElements es"] n room f
    by (auto simp: fresh_entries ProbeElements_length f_def has_room_def es_def)
  have "element_count es1 < length es1"
    using r(2,3) load_room [OF fits(2) f(2,1)] room by (auto simp: f_def has_room_def es_def)
  with Place_correct [of "f\<lparr>lph_entries := es1\<rparr>" k v] r(4) obtain es' where
    "Place k v (f\<lparr>lph_entries := es1\<rparr>) = Some (m\<lparr>lph_entries := es'\<rparr>)" "length es' = length es1"
    "element_count es' \<le> element_count es1 + 1" "probe_ok (lph_hash m) es'"
    "map_of (ProbeElements es') = (map_of (ProbeElements es1))(k \<mapsto> v)"
    by (auto simp: f_def)
  with r True n fits(1) room ProbeElements_distinct [of "lph_hash m" es] show ?thesis
    by (intro exI [of _ es']) (auto simp: InsertWithoutSize_def LinearProbingHashmap_Resize_def Grown_def f_def es_def has_room_def map_of_rev)
qed

lemma Insert_total:
  assumes "has_room m"
  shows "\<exists>m'. LinearProbingHashmap_Insert k v m = Some m' \<and> has_room m' \<and>
    (LinearProbingHashmap_invar m \<longrightarrow> LinearProbingHashmap_invar m' \<and>
      map_of (ProbeElements (lph_entries m')) = (map_of (ProbeElements (lph_entries m)))(k \<mapsto> v))"
proof -
  obtain es' where i: "InsertWithoutSize k v m = Some (m\<lparr>lph_entries := es'\<rparr>)" "length (lph_entries m) \<le> length es'"
    "element_count es' \<le> lph_size m + 1" "of_nat (lph_size m) \<le> lph_load_factor m * of_nat (length es')"
    "probe_ok (lph_hash m) (lph_entries m) \<Longrightarrow> probe_ok (lph_hash m) es' \<and>
       map_of (ProbeElements es') = (map_of (ProbeElements (lph_entries m)))(k \<mapsto> v)"
    using InsertWithoutSize_correct [OF assms, of k v] by blast
  have pos: "0 \<le> lph_load_factor m"
  proof (rule ccontr)
    assume "\<not> 0 \<le> lph_load_factor m"
    then have "lph_load_factor m * of_nat (length (lph_entries m)) \<le> 0" by (simp add: mult_nonpos_nonneg)
    with assms show False by (simp add: has_room_def)
  qed
  then have "lph_load_factor m * of_nat (length (lph_entries m)) \<le> lph_load_factor m * of_nat (length es')"
    using i(2) by (intro mult_left_mono) auto
  then have "has_room (m\<lparr>lph_entries := es', lph_size := lph_size m + 1\<rparr>)"
    using assms i(3,4) by (auto simp: has_room_def)
  with i(1,5) show ?thesis by (auto simp: LinearProbingHashmap_Insert_def LinearProbingHashmap_invar_def)
qed

text \<open>A load factor of one or more lets the table fill up, and then a new key is looked for for ever.\<close>

lemma InsertProbe_full:
  assumes "\<forall>i < length es. other_key (es ! i) key" and "bucket_index < length es"
  shows "InsertProbe es key bucket_index = None"
proof (rule ccontr)
  assume "InsertProbe es key bucket_index \<noteq> None"
  then obtain i where i: "InsertProbe es key bucket_index = Some i" by blast
  have "bucket_index < length es \<longrightarrow> i < length es \<and> \<not> other_key (es ! i) key"
    by (rule InsertProbe.raw_induct [OF _ i, where P = "\<lambda>es key b i. b < length es \<longrightarrow> i < length es \<and> \<not> other_key (es ! i) key"])
      (auto split: if_splits, (metis mod_less_divisor less_nat_zero_code neq0_conv)+)
  with assms show False by blast
qed

section \<open>The other operations\<close>

lemma FindLoop_total:
  assumes "h < length es"
  shows "\<exists>r. FindLoop es k h h = Some r \<and> (\<forall>i. r = Some i \<longrightarrow> i < length es \<and> is_element (es ! i))"
proof (cases "\<forall>j < length es. passes (es ! probe es h j) k")
  case True
  moreover have "0 < length es" using assms by linarith
  ultimately show ?thesis using FindLoop_wrap [OF assms, of 0 k] by (simp add: probe_home [OF assms])
next
  case False
  then obtain d where d: "\<not> passes (es ! probe es h d) k" "d < length es" "\<And>j. j < d \<Longrightarrow> passes (es ! probe es h j) k"
    using exists_least_iff [of "\<lambda>j. j < length es \<and> \<not> passes (es ! probe es h j) k"] by auto
  have "probe es h d < length es" using assms by (intro probe_less) auto
  with FindLoop_stop [OF assms d(2), of 0 k] d(1,3) show ?thesis by (auto simp: probe_home [OF assms])
qed

lemma InternalFind_total:
  assumes "lph_entries m \<noteq> []"
  obtains r where "InternalFind m k = Some r"
    and "\<And>i. r = Some i \<Longrightarrow> i < length (lph_entries m) \<and> is_element (lph_entries m ! i)"
proof -
  have "lph_hash m k mod length (lph_entries m) < length (lph_entries m)" using assms by simp
  from FindLoop_total [OF this, of k] assms that show ?thesis by (auto simp: InternalFind_def Let_def)
qed

lemma element_count_le:
  assumes "is_element e \<Longrightarrow> j < length es \<Longrightarrow> is_element (es ! j)"
  shows "element_count (es[j := e]) \<le> element_count es"
proof (cases "j < length es")
  case True
  have "es[j := e] = take j es @ e # drop (Suc j) es" using True by (rule upd_conv_take_nth_drop)
  moreover have "element_count es = element_count (take j es @ es ! j # drop (Suc j) es)"
    using id_take_nth_drop [OF True] by simp
  ultimately show ?thesis using assms True by (auto simp: element_count_def)
qed (simp add: list_update_beyond)

lemma has_room_update:
  assumes "has_room m" and "is_element e \<Longrightarrow> i < length (lph_entries m) \<Longrightarrow> is_element (lph_entries m ! i)"
  shows "has_room (m\<lparr>lph_entries := (lph_entries m)[i := e]\<rparr>)"
  using assms(1) element_count_le [of e i "lph_entries m"] assms(2) by (auto simp: has_room_def)

lemma Remove_total:
  assumes "has_room m"
  shows "\<exists>m'. LinearProbingHashmap_Remove k m = Some m' \<and> has_room m'"
proof -
  obtain r where "InternalFind m k = Some r" using InternalFind_total [OF has_room_entries [OF assms]] by blast
  with assms show ?thesis
    by (auto simp: LinearProbingHashmap_Remove_def intro!: has_room_update split: option.split)
qed

lemma Assign_total:
  assumes "has_room m"
  shows "\<exists>m'. LinearProbingHashmap_Assign f k m = Some m' \<and> has_room m'"
proof -
  obtain r where "InternalFind m k = Some r" using InternalFind_total [OF has_room_entries [OF assms]] by blast
  with assms show ?thesis
    by (auto simp: LinearProbingHashmap_Assign_def intro!: has_room_update split: option.split)
qed

lemma LookUp_total:
  assumes "has_room m"
  shows "\<exists>r. LinearProbingHashmap_LookUp m k = Some r"
  using InternalFind_total [OF has_room_entries [OF assms], of k]
  by (auto simp: LinearProbingHashmap_LookUp_def)

lemma probing_Assign_correct:
  assumes m: "LinearProbingHashmap_invar m"
  shows "\<exists>m'. LinearProbingHashmap_Assign f k m = Some m' \<and> LinearProbingHashmap_invar m' \<and>
    map_of (ProbeElements (lph_entries m')) =
      (map_of (ProbeElements (lph_entries m)))(k := map_option f (map_of (ProbeElements (lph_entries m)) k))"
proof -
  let ?es = "lph_entries m"
  have ok: "probe_ok (lph_hash m) ?es" and room: "has_room m" using m by (auto simp: LinearProbingHashmap_invar_def)
  have ne: "?es \<noteq> []" using ok by (simp add: probe_ok_def)
  show ?thesis
  proof (cases "\<exists>j < length ?es. is_element (?es ! j) \<and> pe_key (?es ! j) = Some k")
    case True
    then obtain j where j: "j < length ?es" "is_element (?es ! j)" "pe_key (?es ! j) = Some k" by blast
    then obtain v where v: "pe_value (?es ! j) = Some v" using probe_okD(2) [OF ok j(1,2)] by auto
    let ?e = "\<lparr>pe_state = ELEMENT, pe_key = Some k, pe_value = Some (f v)\<rparr>"
    have "(k, v) \<in> set (ProbeElements ?es)" using j v ProbeElements_set [OF ok] by blast
    then have old: "map_of (ProbeElements ?es) k = Some v" using ProbeElements_distinct [OF ok] by simp
    have e: "(?es ! j)\<lparr>pe_value := Some (f v)\<rparr> = ?e" using j by (cases "?es ! j") simp
    have "LinearProbingHashmap_Assign f k m = Some (m\<lparr>lph_entries := ?es[j := ?e]\<rparr>)"
      using find_present(1) [OF ok j] ne v e by (simp add: LinearProbingHashmap_Assign_def InternalFind_def Let_def)
    with store_ok [OF ok j(1), of k "f v"] j old has_room_update [OF room, of ?e j] show ?thesis
      by (auto simp: LinearProbingHashmap_invar_def)
  next
    case False
    have "map_of (ProbeElements ?es) k = None"
      using False ProbeElements_set [OF ok, of k] by (metis map_of_SomeD not_Some_eq)
    moreover have "LinearProbingHashmap_Assign f k m = Some m"
      using find_absent [OF ok, of k] False ne by (auto simp: LinearProbingHashmap_Assign_def InternalFind_def Let_def)
    ultimately show ?thesis using m by (auto simp: fun_upd_idem)
  qed
qed

lemma ForEachEntry_shape:
  "ForEachEntry action es s = (es', s') \<Longrightarrow>
     map pe_state es' = map pe_state es \<and> map pe_key es' = map pe_key es \<and>
     list_all2 (\<lambda>e e'. pe_value e \<noteq> None \<longrightarrow> pe_value e' \<noteq> None) es es' \<and>
     for_each action (ProbeElements es) s = (ProbeElements es', s')"
proof (induction action es s arbitrary: es' s' rule: ForEachEntry.induct)
  case (2 action e es s)
  show ?case
  proof (cases "is_element e")
    case True
    obtain v s1 where a: "action (the (pe_key e)) (the (pe_value e)) s = (v, s1)" by (rule prod.exhaust)
    obtain es1 s2 where r: "ForEachEntry action es s1 = (es1, s2)" by (rule prod.exhaust)
    with 2(2) [OF _ a [symmetric] refl r] 2(3) True a show ?thesis by (auto simp: ProbeElements_def)
  next
    case False
    obtain es1 s1 where r: "ForEachEntry action es s = (es1, s1)" by (rule prod.exhaust)
    with 2(1) [OF _ r] 2(3) False show ?thesis by (auto simp: ProbeElements_def)
  qed
qed (simp add: ProbeElements_def)

lemma element_count_states: "element_count es = length (filter (\<lambda>s. s = ELEMENT) (map pe_state es))"
  by (simp add: element_count_def filter_map comp_def)

lemma probe_ok_shape:
  assumes ok: "probe_ok hash es" and states: "map pe_state es' = map pe_state es" and keys: "map pe_key es' = map pe_key es"
    and vals: "list_all2 (\<lambda>e e'. pe_value e \<noteq> None \<longrightarrow> pe_value e' \<noteq> None) es es'"
  shows "probe_ok hash es'" and "element_count es' = element_count es"
proof -
  have len: "length es' = length es" using map_eq_imp_length_eq [OF states] .
  have st: "pe_state (es' ! i) = pe_state (es ! i)" and ky: "pe_key (es' ! i) = pe_key (es ! i)"
    and vl: "pe_value (es ! i) \<noteq> None \<Longrightarrow> pe_value (es' ! i) \<noteq> None" if "i < length es" for i
    using that len arg_cong [OF states, of "\<lambda>xs. xs ! i"] arg_cong [OF keys, of "\<lambda>xs. xs ! i"] list_all2_nthD [OF vals that]
    by simp_all
  have ne: "es \<noteq> []" using ok by (simp add: probe_ok_def)
  have reach: "reached hash es' k i = reached hash es k i" for k i
    unfolding reached_def probe_def len using st ne by simp
  show "probe_ok hash es'"
    unfolding probe_ok_def len
  proof (intro conjI allI impI)
    show "es' \<noteq> []" using ne len by auto
    fix i
    assume i: "i < length es"
    show "pe_state (es' ! i) \<noteq> DELETED" using st [OF i] probe_okD(1) [OF ok i] by simp
    show "\<exists>k v. pe_key (es' ! i) = Some k \<and> pe_value (es' ! i) = Some v \<and> reached hash es' k i" if "is_element (es' ! i)"
      using that st [OF i] ky [OF i] vl [OF i] probe_okD(2) [OF ok i] reach by auto
    fix j
    assume "j < length es" "is_element (es' ! i)" "is_element (es' ! j)" "pe_key (es' ! i) = pe_key (es' ! j)"
    then show "i = j" using st [of i] st [of j] ky [of i] ky [of j] i probe_okD(3) [OF ok \<open>j < length es\<close> i] by simp
  qed
  show "element_count es' = element_count es" unfolding element_count_states states ..
qed

lemma probing_ForEach_correct:
  assumes m: "LinearProbingHashmap_invar m" and r: "LinearProbingHashmap_ForEach action m s = (m', s')"
  shows "LinearProbingHashmap_invar m'"
    and "for_each action (ProbeElements (lph_entries m)) s = (ProbeElements (lph_entries m'), s')"
proof -
  obtain es' where e: "ForEachEntry action (lph_entries m) s = (es', s')" "m' = m\<lparr>lph_entries := es'\<rparr>"
    using r by (auto simp: LinearProbingHashmap_ForEach_def split: prod.splits)
  note sh = ForEachEntry_shape [OF e(1)]
  have "length es' = length (lph_entries m)" using sh map_eq_imp_length_eq by blast
  then show "LinearProbingHashmap_invar m'"
    using m probe_ok_shape [of "lph_hash m" "lph_entries m" es'] sh e(2)
    by (simp add: LinearProbingHashmap_invar_def has_room_def)
  show "for_each action (ProbeElements (lph_entries m)) s = (ProbeElements (lph_entries m'), s')"
    using sh e(2) by simp
qed

section \<open>The contract without \<open>Remove\<close>\<close>

abbreviation LinearProbingHashmap_find :: "('k, 'v) LinearProbingHashmap \<Rightarrow> 'k \<Rightarrow> 'v option" where
  "LinearProbingHashmap_find m k \<equiv> the (LinearProbingHashmap_LookUp m k)"

lemma find_elements:
  "LinearProbingHashmap_invar m \<Longrightarrow> LinearProbingHashmap_find m = map_of (ProbeElements (lph_entries m))"
  using LookUp_elements [of m] by (auto simp: LinearProbingHashmap_invar_def)

lemma probing_Insert_correct:
  assumes m: "LinearProbingHashmap_invar m"
  shows "LinearProbingHashmap_invar (the (LinearProbingHashmap_Insert k v m))"
    and "LinearProbingHashmap_find (the (LinearProbingHashmap_Insert k v m)) = (LinearProbingHashmap_find m)(k \<mapsto> v)"
proof -
  obtain m' where "LinearProbingHashmap_Insert k v m = Some m'" "LinearProbingHashmap_invar m'"
    "map_of (ProbeElements (lph_entries m')) = (map_of (ProbeElements (lph_entries m)))(k \<mapsto> v)"
    using Insert_total [of m k v] m by (auto simp: LinearProbingHashmap_invar_def)
  then show "LinearProbingHashmap_invar (the (LinearProbingHashmap_Insert k v m))"
    and "LinearProbingHashmap_find (the (LinearProbingHashmap_Insert k v m)) = (LinearProbingHashmap_find m)(k \<mapsto> v)"
    using find_elements [OF m] by (simp_all add: find_elements)
qed

interpretation lph: growing_dictionary LinearProbingHashmap_invar LinearProbingHashmap_find
  "\<lambda>k v m. the (LinearProbingHashmap_Insert k v m)" "\<lambda>f k m. the (LinearProbingHashmap_Assign f k m)"
  "\<lambda>m. ProbeElements (lph_entries m)" LinearProbingHashmap_ForEach
proof
  fix m :: "('k, 'v) LinearProbingHashmap" and action :: "'k \<Rightarrow> 'v \<Rightarrow> 's \<Rightarrow> 'v \<times> 's" and s k f
  assume m: "LinearProbingHashmap_invar m"
  show "LinearProbingHashmap_invar (fst (LinearProbingHashmap_ForEach action m s))"
    using probing_ForEach_correct(1) [OF m, of action s] by (metis prod.collapse)
  show "distinct (map fst (ProbeElements (lph_entries m)))"
    using m ProbeElements_distinct by (auto simp: LinearProbingHashmap_invar_def)
  show "map_of (ProbeElements (lph_entries m)) = LinearProbingHashmap_find m"
    using find_elements [OF m] by simp
  obtain m' where m': "LinearProbingHashmap_Assign f k m = Some m'" "LinearProbingHashmap_invar m'"
    "map_of (ProbeElements (lph_entries m')) =
      (map_of (ProbeElements (lph_entries m)))(k := map_option f (map_of (ProbeElements (lph_entries m)) k))"
    using probing_Assign_correct [OF m, of f k] by blast
  then show "LinearProbingHashmap_invar (the (LinearProbingHashmap_Assign f k m))" by simp
  show "LinearProbingHashmap_find (the (LinearProbingHashmap_Assign f k m)) =
      (LinearProbingHashmap_find m)(k := map_option f (LinearProbingHashmap_find m k))"
    using m' find_elements [OF m] fun_cong [OF find_elements [OF m], of k] find_elements [OF m'(2)] by simp
qed (simp_all add: probing_Insert_correct probing_ForEach_correct)

text \<open>Histories; the result is \<open>None\<close> if one of the calls does not return.\<close>

fun LinearProbingHashmap_run ::
    "('k, 'v) map_op list \<Rightarrow> ('k, 'v) LinearProbingHashmap \<Rightarrow> ('v option list \<times> ('k, 'v) LinearProbingHashmap) option" where
  "LinearProbingHashmap_run [] m = Some ([], m)"
| "LinearProbingHashmap_run (LookUpOp k # ops) m =
     Option.bind (LinearProbingHashmap_LookUp m k) (\<lambda>a.
       map_option (apfst ((#) a)) (LinearProbingHashmap_run ops m))"
| "LinearProbingHashmap_run (InsertOp k v # ops) m =
     Option.bind (LinearProbingHashmap_Insert k v m) (LinearProbingHashmap_run ops)"
| "LinearProbingHashmap_run (RemoveOp k # ops) m =
     Option.bind (LinearProbingHashmap_Remove k m) (LinearProbingHashmap_run ops)"
| "LinearProbingHashmap_run (AssignOp k v # ops) m =
     Option.bind (LinearProbingHashmap_Assign (\<lambda>_. v) k m) (LinearProbingHashmap_run ops)"

lemma run_total: "has_room m \<Longrightarrow> \<exists>as m'. LinearProbingHashmap_run ops m = Some (as, m') \<and> has_room m'"
proof (induction ops m rule: LinearProbingHashmap_run.induct)
  case (2 k ops m)
  with LookUp_total [of m k] show ?case by fastforce
next
  case (3 k v ops m)
  with Insert_total [of m k v] show ?case by fastforce
next
  case (4 k ops m)
  with Remove_total [of m k] show ?case by fastforce
next
  case (5 k v ops m)
  with Assign_total [of m "\<lambda>_. v" k] show ?case by fastforce
qed simp

lemma run_total_ops:
  "LinearProbingHashmap_run ops m = Some (as, m') \<Longrightarrow>
     run_ops LinearProbingHashmap_find (\<lambda>k v m. the (LinearProbingHashmap_Insert k v m))
       (\<lambda>k m. the (LinearProbingHashmap_Remove k m)) (\<lambda>f k m. the (LinearProbingHashmap_Assign f k m)) ops m = (as, m')"
  by (induction ops m arbitrary: as m' rule: LinearProbingHashmap_run.induct)
    (auto simp: bind_eq_Some_conv)

lemma invar_has_room: "LinearProbingHashmap_invar m \<Longrightarrow> has_room m"
  by (simp add: LinearProbingHashmap_invar_def)

lemma probing_new_correct:
  assumes "load_factor < 1" and "1 \<le> load_factor * of_nat capacity"
  shows "LinearProbingHashmap_invar (LinearProbingHashmap_new load_factor hash capacity)"
    and "LinearProbingHashmap_find (LinearProbingHashmap_new load_factor hash capacity) = Map.empty"
proof -
  have "0 < capacity" using assms by (cases capacity) auto
  with assms show i: "LinearProbingHashmap_invar (LinearProbingHashmap_new load_factor hash capacity)"
    by (simp add: LinearProbingHashmap_invar_def LinearProbingHashmap_new_def has_room_def fresh_entries)
  show "LinearProbingHashmap_find (LinearProbingHashmap_new load_factor hash capacity) = Map.empty"
    unfolding find_elements [OF i] by (simp add: LinearProbingHashmap_new_def fresh_entries)
qed

section \<open>Properties\<close>

text \<open>
  \<^bold>\<open>C27\<close>. With a load factor below one and room for one element, every call of a
  \<open>LinearProbingHashmap\<close> returns, whatever the hash function: no history of \<open>LookUp\<close>,
  \<open>Insert\<close>, \<open>Remove\<close> and writes through references makes one of the probing loops, or the calls
  between \<open>InsertWithoutSize\<close> and \<open>Resize\<close>, run forever. The counter \<open>size_\<close> bounds the number of elements and exceeds the load by at most
  one.
\<close>

theorem linear_probing_returns:
  assumes "load_factor < 1" and "1 \<le> load_factor * of_nat capacity"
  shows "\<exists>answers m. LinearProbingHashmap_run ops (LinearProbingHashmap_new load_factor hash capacity) = Some (answers, m)
    \<and> length (ProbeElements (lph_entries m)) \<le> lph_size m
    \<and> of_nat (lph_size m) \<le> lph_load_factor m * of_nat (length (lph_entries m)) + 1"
  using run_total [OF invar_has_room [OF probing_new_correct(1) [OF assms]], of ops hash]
  by (auto simp: has_room_def ProbeElements_length)

theorem linear_probing_returns_witness:
  "\<exists>answers m. LinearProbingHashmap_run [InsertOp (1 :: nat) True, InsertOp 17 False, RemoveOp 1, LookUpOp 17]
      (LinearProbingHashmap_new kDefaultLoadFactor (\<lambda>k. k) kDefaultCapacity) = Some (answers, m)"
  using linear_probing_returns [of kDefaultLoadFactor kDefaultCapacity
    "[InsertOp (1 :: nat) True, InsertOp 17 False, RemoveOp 1, LookUpOp 17]" "\<lambda>k. k"]
  by (fastforce simp: kDefaultLoadFactor_def kDefaultCapacity_def)

text \<open>
  \<^bold>\<open>C26\<close>. As long as nothing is removed, a \<open>LinearProbingHashmap\<close> with a load factor below one and
  room for one element is a correct map, whatever the hash function: every history of \<open>LookUp\<close>, \<open>Insert\<close> and writes through references returns, is
  answered as the finite map of the specification answers it, and leaves a table that holds
  exactly the bindings of that map, each key once.
\<close>

theorem linear_probing_refines_without_remove:
  assumes "load_factor < 1" and "1 \<le> load_factor * of_nat capacity" and "\<forall>k. RemoveOp k \<notin> set ops"
  shows "\<exists>m. LinearProbingHashmap_run ops (LinearProbingHashmap_new load_factor hash capacity)
        = Some (fst (run_spec ops Map.empty), m)
    \<and> (\<forall>k. LinearProbingHashmap_LookUp m k = Some (snd (run_spec ops Map.empty) k))
    \<and> distinct (map fst (snd (LinearProbingHashmap_ForEach (\<lambda>k v seen. (v, seen @ [(k, v)])) m [])))
    \<and> map_of (snd (LinearProbingHashmap_ForEach (\<lambda>k v seen. (v, seen @ [(k, v)])) m [])) = snd (run_spec ops Map.empty)"
proof -
  note new = probing_new_correct [OF assms(1,2)]
  obtain as m where r: "LinearProbingHashmap_run ops (LinearProbingHashmap_new load_factor hash capacity) = Some (as, m)"
    using run_total [OF invar_has_room [OF new(1)]] by blast
  have h: "LinearProbingHashmap_invar m" "run_spec ops Map.empty = (as, LinearProbingHashmap_find m)"
    using lph.run_growing_refines [OF new(1) assms(3) run_total_ops [OF r]] unfolding new(2) by simp_all
  have "LinearProbingHashmap_LookUp m k = Some (LinearProbingHashmap_find m k)" for k
    using LookUp_total [of m k] h(1) by (auto simp: LinearProbingHashmap_invar_def)
  moreover let ?a = "\<lambda>k v seen. (v, seen @ [(k, v)])"
  obtain m' visited where f: "LinearProbingHashmap_ForEach ?a m [] = (m', visited)" by (rule prod.exhaust)
  moreover have "visited = ProbeElements (lph_entries m)"
    using lph.for_each_entries [OF h(1) f] by (auto simp: for_each_collect)
  ultimately show ?thesis
    using r h lph.entries_distinct [OF h(1)] lph.entries_lookup [OF h(1)] by simp
qed

theorem linear_probing_refines_without_remove_witness:
  "\<exists>m. LinearProbingHashmap_run [InsertOp (1 :: nat) (5 :: nat), InsertOp 17 6, InsertOp 1 7, LookUpOp 1, LookUpOp 33]
      (LinearProbingHashmap_new kDefaultLoadFactor (\<lambda>k. k) kDefaultCapacity) = Some ([Some 7, None], m)"
  using linear_probing_refines_without_remove [of kDefaultLoadFactor kDefaultCapacity
    "[InsertOp (1 :: nat) (5 :: nat), InsertOp 17 6, InsertOp 1 7, LookUpOp 1, LookUpOp 33]" "\<lambda>k. k"]
  by (auto simp: kDefaultLoadFactor_def kDefaultCapacity_def spec_insert_def)

text \<open>
  \<^bold>\<open>C28\<close>. With \<open>Remove\<close> the class does not keep the contract of a map. Take two keys \<open>a\<close> and \<open>b\<close>
  with the same home slot in a table of the default size. After inserting \<open>a\<close>, inserting \<open>b\<close>
  with the value \<open>v\<close>, removing \<open>a\<close>, overwriting \<open>b\<close> with \<open>w\<close> and removing \<open>b\<close>, a lookup of \<open>b\<close>
  finds the old value \<open>v\<close>: the overwriting insertion stops at the tombstone of \<open>a\<close> and leaves the
  first entry of \<open>b\<close> behind it.
\<close>

theorem linear_probing_stale_value:
  assumes "a \<noteq> b" and "hash a mod kDefaultCapacity = hash b mod kDefaultCapacity"
  shows "map_option fst (LinearProbingHashmap_run
        [InsertOp a u, InsertOp b v, RemoveOp a, InsertOp b w, RemoveOp b, LookUpOp b]
        (LinearProbingHashmap_new kDefaultLoadFactor hash kDefaultCapacity)) = Some [Some v]
    \<and> fst (run_spec [InsertOp a u, InsertOp b v, RemoveOp a, InsertOp b w, RemoveOp b, LookUpOp b] Map.empty) = [None]"
proof -
  let ?h = "hash b mod 16"
  let ?i = "Suc (hash b mod 16) mod 16"
  have hi: "?h < 16" "?i < 16" "?h \<noteq> ?i" "?i \<noteq> ?h" by (auto simp: mod_Suc)
  have a: "hash a mod 16 = ?h" using assms(2) by (simp add: kDefaultCapacity_def)
  note eval = LinearProbingHashmap_LookUp_def LinearProbingHashmap_Insert_def InsertWithoutSize_def LinearProbingHashmap_Remove_def
    InternalFind_def Place_def Let_def load_exceeded_def other_key_def empty_entry_def nth_list_update FindLoop.simps InsertProbe.simps
  show ?thesis
    using assms(1) hi a
    by (simp add: LinearProbingHashmap_new_def kDefaultCapacity_def kDefaultLoadFactor_def numeral_2_eq_2 eval spec_insert_def spec_remove_def)
qed

theorem linear_probing_stale_value_witness:
  "map_option fst (LinearProbingHashmap_run
      [InsertOp (1 :: nat) ''u'', InsertOp 17 ''old'', RemoveOp 1, InsertOp 17 ''new'', RemoveOp 17, LookUpOp 17]
      (LinearProbingHashmap_new kDefaultLoadFactor (\<lambda>k. k) kDefaultCapacity)) = Some [Some ''old'']"
  using linear_probing_stale_value [of "1 :: nat" 17 "\<lambda>k. k" "''u''" "''old''" "''new''"]
  by (simp add: kDefaultCapacity_def)

end
