(* ===== verification/Spsc_Queue.thy ===== *)
theory Spsc_Queue
  imports Prelude
begin

text \<open>
  \<open>SingleConsumerProducerQueue<T, N>\<close> of \<open>v2/src/concurrent/single_consumer_producer_queue.h\<close>: a
  ring buffer of \<open>N + 1\<close> slots, of which one always stays empty. First the two operations as
  functions, shown to implement a bounded FIFO queue (locale \<open>bounded_fifo\<close>); then the same
  operations cut into their loads and stores, run by a producer and a consumer in any
  interleaving. The atomic accesses are interleaved sequentially consistently; each index has
  one writer, and the acquire loads read what the release stores published.
\<close>

record 'a Spsc =
  buffer :: "'a option list"
  head :: nat
  tail :: nat

definition Spsc_new :: "nat \<Rightarrow> 'a Spsc" where
  "Spsc_new N = \<lparr>buffer = replicate (N + 1) None, head = 0, tail = 0\<rparr>"

definition increment :: "nat \<Rightarrow> nat \<Rightarrow> nat" where
  "increment N n = (n + 1) mod (N + 1)"

definition Push :: "nat \<Rightarrow> 'a \<Rightarrow> 'a Spsc \<Rightarrow> bool \<times> 'a Spsc" where
  "Push N element q =
     (let t = tail q in
      if increment N t = head q then (False, q)
      else (True, q\<lparr>buffer := (buffer q)[t := Some element], tail := increment N t\<rparr>))"

definition Pop :: "nat \<Rightarrow> 'a Spsc \<Rightarrow> 'a option \<times> 'a Spsc" where
  "Pop N q =
     (let h = head q in
      if h = tail q then (None, q)
      else let element = buffer q ! h
           in (element, q\<lparr>buffer := (buffer q)[h := None], head := increment N h\<rparr>))"

section \<open>The interface\<close>

locale bounded_fifo =
  fixes invar :: "'q \<Rightarrow> bool"
    and contents :: "'q \<Rightarrow> 'a list"
    and push :: "'a \<Rightarrow> 'q \<Rightarrow> bool \<times> 'q"
    and pop :: "'q \<Rightarrow> 'a option \<times> 'q"
    and capacity :: nat
  assumes push_law: "invar q \<Longrightarrow> push x q = (ok, q') \<Longrightarrow>
      invar q' \<and> ok = (length (contents q) < capacity) \<and> contents q' = (if ok then contents q @ [x] else contents q)"
    and pop_law: "invar q \<Longrightarrow> pop q = (r, q') \<Longrightarrow>
      invar q' \<and> (case contents q of [] \<Rightarrow> r = None \<and> contents q' = [] | x # xs \<Rightarrow> r = Some x \<and> contents q' = xs)"
begin

lemma push_space: "invar q \<Longrightarrow> length (contents q) < capacity \<Longrightarrow>
    \<exists>q'. push x q = (True, q') \<and> invar q' \<and> contents q' = contents q @ [x]"
  by (cases "push x q") (auto dest: push_law)

lemma push_full: "invar q \<Longrightarrow> \<not> length (contents q) < capacity \<Longrightarrow>
    \<exists>q'. push x q = (False, q') \<and> invar q' \<and> contents q' = contents q"
  by (cases "push x q") (auto dest: push_law)

lemma pop_Nil: "invar q \<Longrightarrow> contents q = [] \<Longrightarrow> \<exists>q'. pop q = (None, q') \<and> invar q' \<and> contents q' = []"
  by (cases "pop q") (auto dest: pop_law)

lemma pop_Cons: "invar q \<Longrightarrow> contents q = x # xs \<Longrightarrow> \<exists>q'. pop q = (Some x, q') \<and> invar q' \<and> contents q' = xs"
  by (cases "pop q") (auto dest: pop_law)

end

section \<open>The ring buffer\<close>

definition used :: "nat \<Rightarrow> nat \<Rightarrow> nat \<Rightarrow> nat" where
  "used N h t = (t + (N + 1) - h) mod (N + 1)"

definition slot :: "nat \<Rightarrow> nat \<Rightarrow> nat \<Rightarrow> nat" where
  "slot N h i = (h + i) mod (N + 1)"

definition ring_contents :: "nat \<Rightarrow> 'a option list \<Rightarrow> nat \<Rightarrow> nat \<Rightarrow> 'a list" where
  "ring_contents N b h t = map (\<lambda>i. the (b ! slot N h i)) [0..<used N h t]"

definition contents :: "nat \<Rightarrow> 'a Spsc \<Rightarrow> 'a list" where
  "contents N q = ring_contents N (buffer q) (head q) (tail q)"

text \<open>The slots from head to tail are full.\<close>

definition ring_full :: "nat \<Rightarrow> 'a option list \<Rightarrow> nat \<Rightarrow> nat \<Rightarrow> bool" where
  "ring_full N b h t \<longleftrightarrow> length b = N + 1 \<and> h \<le> N \<and> t \<le> N \<and> (\<forall>i < used N h t. b ! slot N h i \<noteq> None)"

definition Spsc_invar :: "nat \<Rightarrow> 'a Spsc \<Rightarrow> bool" where
  "Spsc_invar N q = ring_full N (buffer q) (head q) (tail q)"

text \<open>Arithmetic of the indices, by cases on whether the region wraps around.\<close>

lemma used_cases: "h \<le> N \<Longrightarrow> t \<le> N \<Longrightarrow> used N h t = (if h \<le> t then t - h else t + N + 1 - h)"
proof -
  assume "h \<le> N" "t \<le> N"
  show ?thesis
  proof (cases "h \<le> t")
    case True
    then have "t + (N + 1) - h = (t - h) + (N + 1)" by simp
    then have "used N h t = ((t - h) + (N + 1)) mod (N + 1)" by (simp only: used_def)
    also have "\<dots> = t - h" using True \<open>t \<le> N\<close> by (subst mod_add_self2) simp
    finally show ?thesis using True by simp
  next
    case False
    with \<open>h \<le> N\<close> show ?thesis by (simp add: used_def)
  qed
qed

lemma increment_cases: "n \<le> N \<Longrightarrow> increment N n = (if n = N then 0 else n + 1)"
  by (auto simp: increment_def)

lemma slot_cases: "h \<le> N \<Longrightarrow> i \<le> N \<Longrightarrow> slot N h i = (if h + i \<le> N then h + i else h + i - (N + 1))"
  by (auto simp: slot_def le_mod_geq)

lemma used_le: "used N h t \<le> N"
  using mod_less_divisor [of "N + 1" "t + (N + 1) - h"] by (simp add: used_def)

lemma increment_le: "increment N n \<le> N"
  using mod_less_divisor [of "N + 1" "n + 1"] by (simp add: increment_def)

lemma used_0: "h \<le> N \<Longrightarrow> t \<le> N \<Longrightarrow> used N h t = 0 \<longleftrightarrow> h = t"
  by (auto simp: used_cases)

lemma used_full: "h \<le> N \<Longrightarrow> t \<le> N \<Longrightarrow> increment N t = h \<longleftrightarrow> used N h t = N"
  by (auto simp: used_cases increment_cases)

lemma used_push: "h \<le> N \<Longrightarrow> t \<le> N \<Longrightarrow> increment N t \<noteq> h \<Longrightarrow> used N h (increment N t) = used N h t + 1"
  by (auto simp: used_cases increment_cases split: if_splits)

lemma used_pop: "h \<le> N \<Longrightarrow> t \<le> N \<Longrightarrow> h \<noteq> t \<Longrightarrow> used N h t = used N (increment N h) t + 1"
  by (auto simp: used_cases increment_cases split: if_splits)

lemma slot_tail: "h \<le> N \<Longrightarrow> t \<le> N \<Longrightarrow> slot N h (used N h t) = t"
  using used_le [of N h t] by (auto simp: slot_cases used_cases split: if_splits)

lemma slot_neq_tail: "h \<le> N \<Longrightarrow> t \<le> N \<Longrightarrow> i < used N h t \<Longrightarrow> slot N h i \<noteq> t"
  using used_le [of N h t] by (auto simp: slot_cases used_cases split: if_splits)

lemma slot_neq_head: "h \<le> N \<Longrightarrow> i \<le> N \<Longrightarrow> 0 < i \<Longrightarrow> slot N h i \<noteq> h"
  by (auto simp: slot_cases)

lemma slot_Suc: "slot N (increment N h) i = slot N h (i + 1)"
  by (simp add: slot_def increment_def mod_simps add.assoc)

lemma slot_0: "h \<le> N \<Longrightarrow> slot N h 0 = h"
  by (simp add: slot_def)

lemma slot_le: "slot N h i \<le> N"
  using mod_less_divisor [of "N + 1" "h + i"] by (simp add: slot_def)

text \<open>Writing the slot at the tail and publishing it; emptying the slot at the head and releasing it.\<close>

lemma ring_write:
  assumes "ring_full N b h t"
  shows "ring_full N (b[t := x]) h t" and "ring_contents N (b[t := x]) h t = ring_contents N b h t"
proof -
  have "b[t := x] ! slot N h i = b ! slot N h i" if "i < used N h t" for i
    using assms that slot_neq_tail [of h N t i] by (intro nth_list_update_neq) (auto simp: ring_full_def)
  with assms show "ring_full N (b[t := x]) h t" and "ring_contents N (b[t := x]) h t = ring_contents N b h t"
    by (simp_all add: ring_full_def ring_contents_def)
qed

lemma ring_publish:
  assumes "ring_full N b h t" and "b ! t = Some x" and "increment N t \<noteq> h"
  shows "ring_full N b h (increment N t)" and "ring_contents N b h (increment N t) = ring_contents N b h t @ [x]"
  using assms used_push [of h N t] slot_tail [of h N t] increment_le [of N t]
  by (auto simp: ring_full_def ring_contents_def less_Suc_eq)

lemma ring_release:
  assumes "ring_full N b h t" and "h \<noteq> t"
  shows "ring_full N (b[h := None]) (increment N h) t"
    and "ring_contents N b h t = the (b ! h) # ring_contents N (b[h := None]) (increment N h) t"
proof -
  have h: "h \<le> N" "t \<le> N" "length b = N + 1" using assms(1) by (auto simp: ring_full_def)
  note u = used_pop [OF h(1,2) assms(2)]
  have keep: "b[h := None] ! slot N (increment N h) i = b ! slot N h (i + 1)" if "i < used N (increment N h) t" for i
    using slot_neq_head [OF h(1), of "i + 1"] that used_le [of N h t] u by (simp add: slot_Suc)
  show "ring_full N (b[h := None]) (increment N h) t"
    using assms(1) keep u increment_le [of N h] by (auto simp: ring_full_def)
  have "[0..<used N h t] = 0 # map Suc [0..<used N (increment N h) t]"
    by (simp only: u) (simp add: map_Suc_upt upt_conv_Cons)
  then have "ring_contents N b h t = the (b ! h) # map (\<lambda>i. the (b ! slot N h (i + 1))) [0..<used N (increment N h) t]"
    by (simp add: ring_contents_def slot_0 h(1) comp_def)
  also have "map (\<lambda>i. the (b ! slot N h (i + 1))) [0..<used N (increment N h) t]
      = ring_contents N (b[h := None]) (increment N h) t"
    unfolding ring_contents_def by (rule map_cong) (simp_all add: keep)
  finally show "ring_contents N b h t = the (b ! h) # ring_contents N (b[h := None]) (increment N h) t" .
qed

lemma ring_head: "ring_full N b h t \<Longrightarrow> h \<noteq> t \<Longrightarrow> \<exists>x. b ! h = Some x"
  using slot_0 [of h N] used_pop [of h N t] by (force simp: ring_full_def)

section \<open>The operations implement a bounded FIFO queue\<close>

lemma length_contents: "length (contents N q) = used N (head q) (tail q)"
  by (simp add: contents_def ring_contents_def)

lemma Push_correct:
  assumes "Spsc_invar N q" and "Push N x q = (ok, q')"
  shows "Spsc_invar N q' \<and> ok = (length (contents N q) < N)
    \<and> contents N q' = (if ok then contents N q @ [x] else contents N q)"
proof -
  have f: "ring_full N (buffer q) (head q) (tail q)" "head q \<le> N" "tail q \<le> N" "tail q < length (buffer q)"
    using assms(1) by (auto simp: Spsc_invar_def ring_full_def)
  have full: "increment N (tail q) = head q \<longleftrightarrow> \<not> length (contents N q) < N"
    using used_full [OF f(2,3)] used_le [of N "head q" "tail q"] by (simp add: length_contents)
  show ?thesis
  proof (cases "increment N (tail q) = head q")
    case True
    with assms full show ?thesis by (auto simp: Push_def Let_def)
  next
    case False
    note w = ring_write [OF f(1), of "Some x"]
    from ring_publish [OF w(1) _ False] f(4) w(2) have
      "ring_full N ((buffer q)[tail q := Some x]) (head q) (increment N (tail q))"
      "ring_contents N ((buffer q)[tail q := Some x]) (head q) (increment N (tail q)) = contents N q @ [x]"
      by (simp_all add: contents_def)
    with assms(2) False full show ?thesis by (auto simp: Push_def Let_def Spsc_invar_def contents_def)
  qed
qed

lemma Pop_correct:
  assumes "Spsc_invar N q" and "Pop N q = (r, q')"
  shows "Spsc_invar N q' \<and>
    (case contents N q of [] \<Rightarrow> r = None \<and> contents N q' = [] | x # xs \<Rightarrow> r = Some x \<and> contents N q' = xs)"
proof -
  have f: "ring_full N (buffer q) (head q) (tail q)" "head q \<le> N" "tail q \<le> N"
    using assms(1) by (auto simp: Spsc_invar_def ring_full_def)
  show ?thesis
  proof (cases "head q = tail q")
    case True
    then have "contents N q = []" using used_0 [OF f(2,3)] by (simp add: contents_def ring_contents_def)
    with True assms show ?thesis by (auto simp: Pop_def)
  next
    case False
    obtain x where x: "buffer q ! head q = Some x" using ring_head [OF f(1) False] by blast
    from False assms(2) ring_release [OF f(1) False] show ?thesis
      by (auto simp: Pop_def Let_def Spsc_invar_def contents_def x)
  qed
qed

lemma Pop_empty: "Spsc_invar N q \<Longrightarrow> contents N q = [] \<Longrightarrow> Pop N q = (None, q)"
  using used_0 [of "head q" N "tail q"] length_contents [of N q]
  by (simp add: Pop_def Spsc_invar_def ring_full_def)

lemma Spsc_new_correct: "Spsc_invar N (Spsc_new N)" "contents N (Spsc_new N) = []"
  by (simp_all add: Spsc_invar_def Spsc_new_def ring_full_def used_def contents_def ring_contents_def)

interpretation spsc: bounded_fifo "Spsc_invar N" "contents N" "Push N" "Pop N" N for N
  by unfold_locales (rule Push_correct, assumption+, rule Pop_correct, assumption+)

text \<open>Histories of calls, with the answers, on the ring buffer and on a list.\<close>

datatype 'a queue_op = PushOp 'a | PopOp

fun run_queue :: "('a \<Rightarrow> 'q \<Rightarrow> bool \<times> 'q) \<Rightarrow> ('q \<Rightarrow> 'a option \<times> 'q) \<Rightarrow> 'a queue_op list \<Rightarrow> 'q \<Rightarrow> (bool + 'a option) list" where
  "run_queue push pop [] q = []"
| "run_queue push pop (PushOp x # ops) q = (let (ok, q') = push x q in Inl ok # run_queue push pop ops q')"
| "run_queue push pop (PopOp # ops) q = (let (r, q') = pop q in Inr r # run_queue push pop ops q')"

definition spec_push :: "nat \<Rightarrow> 'a \<Rightarrow> 'a list \<Rightarrow> bool \<times> 'a list" where
  "spec_push N x xs = (if length xs < N then (True, xs @ [x]) else (False, xs))"

definition spec_pop :: "'a list \<Rightarrow> 'a option \<times> 'a list" where
  "spec_pop xs = (case xs of [] \<Rightarrow> (None, []) | x # xs \<Rightarrow> (Some x, xs))"

context bounded_fifo
begin

lemma run_queue_refines: "invar q \<Longrightarrow> run_queue push pop ops q = run_queue (spec_push capacity) spec_pop ops (contents q)"
proof (induction ops arbitrary: q)
  case (Cons op ops)
  show ?case
  proof (cases op)
    case (PushOp x)
    obtain ok q' where p: "push x q = (ok, q')" by (rule prod.exhaust)
    with push_law [OF Cons.prems p] Cons.IH [of q'] PushOp show ?thesis by (auto simp: spec_push_def)
  next
    case PopOp
    obtain r q' where p: "pop q = (r, q')" by (rule prod.exhaust)
    with pop_law [OF Cons.prems p] Cons.IH [of q'] PopOp show ?thesis
      by (cases "contents q") (auto simp: spec_pop_def)
  qed
qed simp

end

section \<open>Producer and consumer interleaved\<close>

text \<open>
  The positions inside \<open>Push\<close> and \<open>Pop\<close>: after the load of the own index, after the test of the
  other index, after the access to the slot. \<open>C_Taken\<close> has moved the element out of the slot,
  \<open>C_Cleared\<close> has also reset the slot.
\<close>

datatype 'a producer = P_Idle | P_Loaded 'a nat | P_Space 'a nat | P_Written 'a nat

datatype 'a consumer = C_Idle | C_Loaded nat | C_Nonempty nat | C_Taken nat "'a option" | C_Cleared nat "'a option"

record 'a duo =
  ring :: "'a Spsc"
  prod :: "'a producer"
  cons :: "'a consumer"
  sent :: "'a list"
  received :: "'a option list"

definition duo_init :: "nat \<Rightarrow> 'a duo" where
  "duo_init N = \<lparr>ring = Spsc_new N, prod = P_Idle, cons = C_Idle, sent = [], received = []\<rparr>"

inductive duo_step :: "nat \<Rightarrow> 'a duo \<Rightarrow> 'a duo \<Rightarrow> bool" for N where
  push_call: "prod s = P_Idle \<Longrightarrow> duo_step N s (s\<lparr>prod := P_Loaded x (tail (ring s))\<rparr>)"
| push_full: "prod s = P_Loaded x t \<Longrightarrow> increment N t = head (ring s) \<Longrightarrow> duo_step N s (s\<lparr>prod := P_Idle\<rparr>)"
| push_space: "prod s = P_Loaded x t \<Longrightarrow> increment N t \<noteq> head (ring s) \<Longrightarrow> duo_step N s (s\<lparr>prod := P_Space x t\<rparr>)"
| push_write: "prod s = P_Space x t \<Longrightarrow>
    duo_step N s (s\<lparr>ring := (ring s)\<lparr>buffer := (buffer (ring s))[t := Some x]\<rparr>, prod := P_Written x t\<rparr>)"
| push_publish: "prod s = P_Written x t \<Longrightarrow>
    duo_step N s (s\<lparr>ring := (ring s)\<lparr>tail := increment N t\<rparr>, prod := P_Idle, sent := sent s @ [x]\<rparr>)"
| pop_call: "cons s = C_Idle \<Longrightarrow> duo_step N s (s\<lparr>cons := C_Loaded (head (ring s))\<rparr>)"
| pop_empty: "cons s = C_Loaded h \<Longrightarrow> h = tail (ring s) \<Longrightarrow> duo_step N s (s\<lparr>cons := C_Idle\<rparr>)"
| pop_nonempty: "cons s = C_Loaded h \<Longrightarrow> h \<noteq> tail (ring s) \<Longrightarrow> duo_step N s (s\<lparr>cons := C_Nonempty h\<rparr>)"
| pop_take: "cons s = C_Nonempty h \<Longrightarrow> duo_step N s (s\<lparr>cons := C_Taken h (buffer (ring s) ! h)\<rparr>)"
| pop_clear: "cons s = C_Taken h e \<Longrightarrow>
    duo_step N s (s\<lparr>ring := (ring s)\<lparr>buffer := (buffer (ring s))[h := None]\<rparr>, cons := C_Cleared h e\<rparr>)"
| pop_publish: "cons s = C_Cleared h e \<Longrightarrow>
    duo_step N s (s\<lparr>ring := (ring s)\<lparr>head := increment N h\<rparr>, cons := C_Idle, received := received s @ [e]\<rparr>)"

inductive_cases duo_stepE: "duo_step N s s'"

text \<open>The part of the ring the consumer has not yet emptied.\<close>

definition pending :: "nat \<Rightarrow> 'a duo \<Rightarrow> nat" where
  "pending N s = (case cons s of C_Cleared h e \<Rightarrow> increment N h | _ \<Rightarrow> head (ring s))"

definition in_hand :: "'a duo \<Rightarrow> 'a option list" where
  "in_hand s = (case cons s of C_Cleared h e \<Rightarrow> [e] | _ \<Rightarrow> [])"

definition consumer_ok :: "'a duo \<Rightarrow> bool" where
  "consumer_ok s = (case cons s of
       C_Idle \<Rightarrow> True
     | C_Loaded h \<Rightarrow> h = head (ring s)
     | C_Nonempty h \<Rightarrow> h = head (ring s) \<and> h \<noteq> tail (ring s)
     | C_Taken h e \<Rightarrow> h = head (ring s) \<and> h \<noteq> tail (ring s) \<and> e = buffer (ring s) ! h
     | C_Cleared h e \<Rightarrow> h = head (ring s) \<and> h \<noteq> tail (ring s))"

definition producer_ok :: "nat \<Rightarrow> 'a duo \<Rightarrow> bool" where
  "producer_ok N s = (case prod s of
       P_Idle \<Rightarrow> True
     | P_Loaded x t \<Rightarrow> t = tail (ring s)
     | P_Space x t \<Rightarrow> t = tail (ring s) \<and> increment N t \<noteq> head (ring s)
     | P_Written x t \<Rightarrow> t = tail (ring s) \<and> increment N t \<noteq> head (ring s) \<and> buffer (ring s) ! t = Some x)"

definition duo_invar :: "nat \<Rightarrow> 'a duo \<Rightarrow> bool" where
  "duo_invar N s \<longleftrightarrow> head (ring s) \<le> N
     \<and> ring_full N (buffer (ring s)) (pending N s) (tail (ring s))
     \<and> map Some (sent s) = received s @ in_hand s @
         map Some (ring_contents N (buffer (ring s)) (pending N s) (tail (ring s)))
     \<and> consumer_ok s \<and> producer_ok N s"

lemma increment_inj: "a \<le> N \<Longrightarrow> b \<le> N \<Longrightarrow> increment N a = increment N b \<longleftrightarrow> a = b"
  by (auto simp: increment_cases split: if_splits)

lemmas duo_defs = duo_invar_def pending_def in_hand_def consumer_ok_def producer_ok_def Let_def

lemma duo_init_invar: "duo_invar N (duo_init N)"
  by (simp add: duo_defs duo_init_def Spsc_new_def ring_full_def ring_contents_def used_def)

text \<open>The steps that write shared memory, one lemma each.\<close>

lemma pending_cases: "consumer_ok s \<Longrightarrow> pending N s = head (ring s) \<or> pending N s = increment N (head (ring s)) \<and> head (ring s) \<noteq> tail (ring s)"
  by (auto simp: pending_def consumer_ok_def Let_def split: consumer.splits)

lemma publish_ok:
  assumes "duo_invar N s" and "prod s = P_Written x t"
  shows "increment N t \<noteq> pending N s"
proof -
  have t: "t = tail (ring s)" "increment N t \<noteq> head (ring s)" "t \<le> N" "head (ring s) \<le> N" "consumer_ok s"
    using assms by (auto simp: duo_invar_def producer_ok_def ring_full_def)
  from pending_cases [OF t(5), of N] t(1,2) increment_inj [OF t(3,4)] show ?thesis by auto
qed

lemma step_push_write:
  assumes "duo_invar N s" and "prod s = P_Space x t"
  shows "duo_invar N (s\<lparr>ring := (ring s)\<lparr>buffer := (buffer (ring s))[t := Some x]\<rparr>, prod := P_Written x t\<rparr>)"
proof -
  have t: "t = tail (ring s)" "increment N t \<noteq> head (ring s)" using assms by (auto simp: duo_invar_def producer_ok_def)
  have f: "ring_full N (buffer (ring s)) (pending N s) t" using assms(1) t by (simp add: duo_invar_def)
  then have "t < length (buffer (ring s))" by (auto simp: ring_full_def)
  with assms t ring_write [OF f, of "Some x"] show ?thesis
    by (auto simp: duo_defs split: consumer.splits)
qed

lemma step_push_publish:
  assumes "duo_invar N s" and "prod s = P_Written x t"
  shows "duo_invar N (s\<lparr>ring := (ring s)\<lparr>tail := increment N t\<rparr>, prod := P_Idle, sent := sent s @ [x]\<rparr>)"
proof -
  have t: "t = tail (ring s)" "increment N t \<noteq> head (ring s)" "buffer (ring s) ! t = Some x"
    using assms by (auto simp: duo_invar_def producer_ok_def)
  have f: "ring_full N (buffer (ring s)) (pending N s) t" using assms(1) t by (simp add: duo_invar_def)
  show ?thesis
    using assms t ring_publish [OF f t(3) publish_ok [OF assms]]
    by (auto simp: duo_defs split: consumer.splits)
qed

lemma step_pop_clear:
  assumes "duo_invar N s" and "cons s = C_Taken h e"
  shows "duo_invar N (s\<lparr>ring := (ring s)\<lparr>buffer := (buffer (ring s))[h := None]\<rparr>, cons := C_Cleared h e\<rparr>)"
proof -
  have h: "h = head (ring s)" "h \<noteq> tail (ring s)" "e = buffer (ring s) ! h" "pending N s = h"
    using assms by (auto simp: duo_invar_def consumer_ok_def pending_def)
  have f: "ring_full N (buffer (ring s)) h (tail (ring s))" using assms(1) h by (simp add: duo_invar_def)
  obtain x where x: "buffer (ring s) ! h = Some x" using ring_head [OF f h(2)] by blast
  have "producer_ok N (s\<lparr>ring := (ring s)\<lparr>buffer := (buffer (ring s))[h := None]\<rparr>, cons := C_Cleared h e\<rparr>)"
    using assms(1) h(2) by (auto simp: duo_invar_def producer_ok_def Let_def split: producer.splits)
  with assms h x ring_release [OF f h(2)] show ?thesis
    by (simp add: duo_invar_def pending_def in_hand_def consumer_ok_def)
qed

lemma step_pop_publish:
  assumes "duo_invar N s" and "cons s = C_Cleared h e"
  shows "duo_invar N (s\<lparr>ring := (ring s)\<lparr>head := increment N h\<rparr>, cons := C_Idle, received := received s @ [e]\<rparr>)"
proof -
  have h: "h = head (ring s)" "h \<noteq> tail (ring s)" "h \<le> N" "tail (ring s) \<le> N" "pending N s = increment N h"
    using assms by (auto simp: duo_invar_def consumer_ok_def pending_def ring_full_def)
  have "producer_ok N (s\<lparr>ring := (ring s)\<lparr>head := increment N h\<rparr>, cons := C_Idle, received := received s @ [e]\<rparr>)"
    using assms(1) h(2) increment_inj [OF h(4,3)]
    by (auto simp: duo_invar_def producer_ok_def Let_def split: producer.splits)
  with assms h increment_le [of N h] show ?thesis
    by (simp add: duo_invar_def pending_def in_hand_def consumer_ok_def)
qed

lemma duo_step_invar: "duo_step N s s' \<Longrightarrow> duo_invar N s \<Longrightarrow> duo_invar N s'"
proof (induction rule: duo_step.induct)
  case (push_write s x t)
  then show ?case by (intro step_push_write)
next
  case (push_publish s x t)
  then show ?case by (intro step_push_publish)
next
  case (pop_clear s h e)
  then show ?case by (intro step_pop_clear)
next
  case (pop_publish s h e)
  then show ?case by (intro step_pop_publish)
qed (auto simp: duo_defs split: consumer.splits producer.splits)

lemma duo_reachable_invar: "(duo_step N)\<^sup>*\<^sup>* (duo_init N) s \<Longrightarrow> duo_invar N s"
  by (induction rule: rtranclp_induct) (auto intro: duo_init_invar duo_step_invar)

section \<open>Properties\<close>

text \<open>
  \<^bold>\<open>C24\<close>. Every history of \<open>Push\<close> and \<open>Pop\<close> on a new queue gets the answers of a list of at most
  \<open>N\<close> elements: \<open>Push\<close> fails exactly when \<open>N\<close> elements are queued, \<open>Pop\<close> returns the oldest
  element, or nothing when the queue is empty.
\<close>

theorem spsc_refines_list:
  "run_queue (Push N) (Pop N) ops (Spsc_new N) = run_queue (spec_push N) spec_pop ops []"
  using spsc.run_queue_refines [OF Spsc_new_correct(1), of N ops] by (simp add: Spsc_new_correct)

text \<open>
  \<^bold>\<open>C25\<close>. In every interleaving of the loads and stores of a producer and a consumer: what the
  consumer has received is a prefix of what the producer has published, in order and without
  loss or duplication, at most \<open>N\<close> elements are in between, and the two threads never access
  the same slot at the same time (the producer writes the slot only while the consumer is not
  between its test and its release of that slot).
\<close>

theorem spsc_interleaved:
  assumes "(duo_step N)\<^sup>*\<^sup>* (duo_init N) s"
  shows "received s = map Some (take (length (received s)) (sent s))
    \<and> length (sent s) \<le> length (received s) + N
    \<and> (\<forall>x t h e. prod s = P_Space x t \<and> (cons s = C_Nonempty h \<or> cons s = C_Taken h e) \<longrightarrow> h \<noteq> t)"
proof -
  let ?c = "in_hand s @ map Some (ring_contents N (buffer (ring s)) (pending N s) (tail (ring s)))"
  have i: "duo_invar N s" by (rule duo_reachable_invar [OF assms])
  then have m: "map Some (sent s) = received s @ ?c" by (simp add: duo_invar_def)
  have "map Some (take (length (received s)) (sent s)) = take (length (received s)) (received s @ ?c)"
    by (simp only: take_map [symmetric] m)
  then have prefix: "received s = map Some (take (length (received s)) (sent s))" by simp
  have "length ?c \<le> N"
    using i used_le [of N "head (ring s)" "tail (ring s)"] used_pop [of "head (ring s)" N "tail (ring s)"]
    by (auto simp: duo_defs ring_full_def ring_contents_def split: consumer.splits)
  moreover have "length (sent s) = length (received s) + length ?c" using arg_cong [OF m, of length] by simp
  ultimately show ?thesis
    using prefix i by (auto simp: duo_invar_def consumer_ok_def producer_ok_def)
qed

theorem spsc_interleaved_witness:
  "\<exists>s. (duo_step 1)\<^sup>*\<^sup>* (duo_init 1) s \<and> sent s = [7 :: nat] \<and> prod s = P_Idle \<and> cons s = C_Loaded 0
    \<and> received s = map Some (take (length (received s)) (sent s))"
proof -
  let ?s0 = "duo_init 1 :: nat duo"
  let ?s1 = "?s0\<lparr>prod := P_Loaded 7 0\<rparr>" and ?s2 = "?s0\<lparr>prod := P_Space 7 0\<rparr>"
  let ?s3 = "?s0\<lparr>ring := (ring ?s0)\<lparr>buffer := [Some 7, None]\<rparr>, prod := P_Written 7 0\<rparr>"
  let ?s4 = "?s3\<lparr>ring := (ring ?s3)\<lparr>tail := 1\<rparr>, prod := P_Idle, sent := [7]\<rparr>" and ?s5 = "?s3\<lparr>ring := (ring ?s3)\<lparr>tail := 1\<rparr>, prod := P_Idle, sent := [7], cons := C_Loaded 0\<rparr>"
  have "duo_step 1 ?s0 ?s1" using duo_step.push_call [of ?s0 1 7] by (simp add: duo_init_def Spsc_new_def)
  moreover have "duo_step 1 ?s1 ?s2"
    using duo_step.push_space [of ?s1 7 0 1] by (simp add: duo_init_def Spsc_new_def increment_def)
  moreover have "duo_step 1 ?s2 ?s3"
    using duo_step.push_write [of ?s2 7 0 1] by (simp add: duo_init_def Spsc_new_def)
  moreover have "duo_step 1 ?s3 ?s4"
    using duo_step.push_publish [of ?s3 7 0 1] by (simp add: duo_init_def Spsc_new_def increment_def)
  moreover have "duo_step 1 ?s4 ?s5"
    using duo_step.pop_call [of ?s4 1] by (simp add: duo_init_def Spsc_new_def)
  ultimately have r: "(duo_step 1)\<^sup>*\<^sup>* ?s0 ?s5" by (meson converse_rtranclp_into_rtranclp rtranclp.rtrancl_refl)
  from spsc_interleaved [OF r] r show ?thesis by (intro exI [of _ ?s5]) (simp add: duo_init_def)
qed

end
