(* ===== verification/Resp_Value.thy ===== *)
theory Resp_Value
  imports Prelude
begin

text \<open>
  The RESP protocol values of \<open>v2/src/resp_value/resp_value.{h,cc}\<close> and
  \<open>resp_values.{h,cc}\<close>: the value type, the recursive-descent parser over a string and a
  position, the serialiser and the pretty printer.

  A parser takes the whole input and a position and returns the parsed part with the new
  position (the \<open>size_t& pos\<close> out-parameter), or the exception it throws. The sizes of
  strings stay below \<open>2 ^ 63\<close> (\<open>std::string::max_size\<close>), so the \<open>size_t\<close> sum
  \<open>pos + bulk_string_length + 2\<close> of the bulk-string bounds check does not wrap and is a sum
  of naturals here. The \<open>assert\<close>s on the type prefix restate the caller's \<open>switch\<close>.
\<close>

section \<open>Values\<close>

datatype RespValue =
    RespSimpleString string
  | RespSimpleError string
  | RespInteger int
  | RespBulkString "string option"
  | RespArray "RespValue list"

text \<open>The constructor helpers of \<open>resp_values.cc\<close>.\<close>

definition NullBulkString :: RespValue where "NullBulkString = RespBulkString None"
definition SimpleString :: "string \<Rightarrow> RespValue" where "SimpleString s = RespSimpleString s"
definition BulkString :: "string option \<Rightarrow> RespValue" where "BulkString s = RespBulkString s"
definition Integer :: "int \<Rightarrow> RespValue" where "Integer n = RespInteger n"
definition Error :: "string \<Rightarrow> RespValue" where "Error message = RespSimpleError message"
definition Array :: "RespValue list \<Rightarrow> RespValue" where "Array vs = RespArray vs"

lemmas resp_value_helpers =
  NullBulkString_def SimpleString_def BulkString_def Integer_def Error_def Array_def

section \<open>Serialising\<close>

fun Serialize :: "RespValue \<Rightarrow> string" where
  "Serialize (RespSimpleString val) = ''+'' @ val @ CRLF"
| "Serialize (RespSimpleError message) = ''-'' @ message @ CRLF"
| "Serialize (RespInteger val) = '':'' @ to_string val @ CRLF"
| "Serialize (RespBulkString None) = ''$-1'' @ CRLF"
| "Serialize (RespBulkString (Some str)) = ''$'' @ dec_string (length str) @ CRLF @ str @ CRLF"
| "Serialize (RespArray val) = ''*'' @ dec_string (length val) @ CRLF @ concat (map Serialize val)"

text \<open>\<open>Show\<close> numbers the elements of an array from 1 and separates them by line feeds.\<close>

fun Show :: "RespValue \<Rightarrow> string" and ShowElements :: "nat \<Rightarrow> RespValue list \<Rightarrow> string" where
  "Show (RespSimpleString val) = [CHR 0x22] @ val @ [CHR 0x22]"
| "Show (RespSimpleError message) = ''error: '' @ message"
| "Show (RespInteger val) = to_string val"
| "Show (RespBulkString None) = ''(NIL)''"
| "Show (RespBulkString (Some str)) = [CHR 0x22] @ str @ [CHR 0x22]"
| "Show (RespArray val) = ShowElements 0 val"
| "ShowElements i [] = []"
| "ShowElements i (v # vs) =
     (if i \<noteq> 0 then [LF] else []) @ dec_string (i + 1) @ '') '' @ Show v
       @ ShowElements (i + 1) vs"

section \<open>Parsing\<close>

definition ParseSimpleString :: "string \<Rightarrow> nat \<Rightarrow> (string \<times> nat) result" where
  "ParseSimpleString str pos =
     (case str_find str CRLF (pos + 1) of
        None \<Rightarrow> Inl (out_of_range ''Missing CRLF for simple string'')
      | Some end_pos \<Rightarrow> Inr (substr str (pos + 1) (end_pos - pos - 1), end_pos + 2))"

definition ParseSimpleError :: "string \<Rightarrow> nat \<Rightarrow> (string \<times> nat) result" where
  "ParseSimpleError str pos =
     (case str_find str CRLF (pos + 1) of
        None \<Rightarrow> Inl (out_of_range ''Missing CRLF for simple error'')
      | Some end_pos \<Rightarrow> Inr (substr str (pos + 1) (end_pos - pos - 1), end_pos + 2))"

definition ParseInteger :: "string \<Rightarrow> nat \<Rightarrow> (int \<times> nat) result" where
  "ParseInteger str pos =
     (case str_find str CRLF (pos + 1) of
        None \<Rightarrow> Inl (out_of_range ''Missing CRLF for integer'')
      | Some end_pos \<Rightarrow>
          bindE (stoll (substr str (pos + 1) (end_pos - pos - 1)))
            (\<lambda>integer_value. Inr (integer_value, end_pos + 2)))"

definition ParseBulkString :: "string \<Rightarrow> nat \<Rightarrow> (string option \<times> nat) result" where
  "ParseBulkString str pos =
     (case str_find str CRLF (pos + 1) of
        None \<Rightarrow> Inl (out_of_range ''Missing CRLF after bulk-string length'')
      | Some end_of_length \<Rightarrow>
          bindE (stoll (substr str (pos + 1) (end_of_length - pos - 1)))
            (\<lambda>bulk_string_length.
              let p = end_of_length + 2; n = nat bulk_string_length in
              if bulk_string_length = -1 then Inr (None, p)
              else throw_if (bulk_string_length \<le> -2)
                (invalid_argument ''Bulk string has a negative length and is not null bulk string'')
              (throw_if (bulk_string_length < 0 \<or> p + n + 2 > length str)
                (out_of_range ''Bulk string payload truncated or missing CRLF'')
              (throw_if (str ! (p + n) \<noteq> CR \<or> str ! (p + n + 1) \<noteq> LF)
                (out_of_range ''Bulk string missing terminating CRLF'')
              (Inr (Some (substr str p n), p + n + 2))))))"

text \<open>
  \<open>ParseVariant\<close>, \<open>ParseArray\<close> and the element loop of \<open>ParseArray\<close>
  (\<open>ParseElements\<close>, with the number of elements still to read) call each other.
\<close>

function ParseVariant :: "string \<Rightarrow> nat \<Rightarrow> (RespValue \<times> nat) result"
  and ParseArray :: "string \<Rightarrow> nat \<Rightarrow> (RespValue list \<times> nat) result"
  and ParseElements :: "string \<Rightarrow> nat \<Rightarrow> nat \<Rightarrow> (RespValue list \<times> nat) result" where
  "ParseVariant str pos =
     throw_if (pos \<ge> length str)
       (out_of_range ''Unexpected end of input while parsing RESP value'')
     (if str ! pos = CHR ''+''
      then bindE (ParseSimpleString str pos) (\<lambda>(s, p). Inr (RespSimpleString s, p))
      else if str ! pos = CHR ''-''
      then bindE (ParseSimpleError str pos) (\<lambda>(s, p). Inr (RespSimpleError s, p))
      else if str ! pos = CHR '':''
      then bindE (ParseInteger str pos) (\<lambda>(i, p). Inr (RespInteger i, p))
      else if str ! pos = CHR ''$''
      then bindE (ParseBulkString str pos) (\<lambda>(s, p). Inr (RespBulkString s, p))
      else if str ! pos = CHR ''*''
      then bindE (ParseArray str pos) (\<lambda>(vs, p). Inr (RespArray vs, p))
      else Inl (invalid_argument ''Invalid resp type prefix''))"
| "ParseArray str pos =
     (case str_find str CRLF (pos + 1) of
        None \<Rightarrow> Inl (out_of_range ''Missing CRLF after array length'')
      | Some end_of_length \<Rightarrow>
          bindE (stoll (substr str (pos + 1) (end_of_length - pos - 1)))
            (\<lambda>array_length.
              throw_if (array_length < 0)
                (invalid_argument ''Negative array length not allowed'')
              (ParseElements str (end_of_length + 2) (nat array_length))))"
| "ParseElements str pos n =
     (if n = 0 then Inr ([], pos)
      else throw_if (pos \<ge> length str) (out_of_range ''Array element missing/truncated'')
        (bindE (ParseVariant str pos) (\<lambda>(v, p).
          bindE (ParseElements str p (n - 1)) (\<lambda>(vs, q). Inr (v # vs, q)))))"
  by pat_completeness auto

text \<open>
  The element loop ends because every element consumes input; that is a fact about the
  function itself, so it is proved on the function's domain first.
\<close>

lemma simple_parsers_advance:
  "ParseSimpleString str pos = Inr (s, p) \<Longrightarrow> pos < p \<and> p \<le> length str"
  "ParseSimpleError str pos = Inr (s, p) \<Longrightarrow> pos < p \<and> p \<le> length str"
  "ParseInteger str pos = Inr (i, p) \<Longrightarrow> pos < p \<and> p \<le> length str"
  "ParseBulkString str pos = Inr (b, p) \<Longrightarrow> pos < p \<and> p \<le> length str"
  by (auto simp: ParseSimpleString_def ParseSimpleError_def ParseInteger_def ParseBulkString_def
      bindE_eq_Inr throw_if_eq_Inr Let_def dest: str_find_bounds split: option.splits if_splits)

lemma parse_advances_dom:
  "ParseVariant_ParseArray_ParseElements_dom (Inl (str, pos)) \<Longrightarrow>
     ParseVariant str pos = Inr (v, p) \<Longrightarrow> pos < p \<and> p \<le> length str"
  "ParseVariant_ParseArray_ParseElements_dom (Inr (Inl (str, pos))) \<Longrightarrow>
     ParseArray str pos = Inr (vs, p) \<Longrightarrow> pos < p \<and> p \<le> length str"
  "ParseVariant_ParseArray_ParseElements_dom (Inr (Inr (str, pos, n))) \<Longrightarrow>
     ParseElements str pos n = Inr (vs, p) \<Longrightarrow> pos \<le> length str \<Longrightarrow> pos \<le> p \<and> p \<le> length str"
proof (induction str pos and str pos and str pos n arbitrary: v p and vs p and vs p
    rule: ParseVariant_ParseArray_ParseElements.pinduct)
  case (1 str pos)
  then show ?case
    by (auto simp: ParseVariant.psimps bindE_eq_Inr throw_if_eq_Inr dest: simple_parsers_advance
        split: if_splits)
next
  case (2 str pos)
  then show ?case
    by (fastforce simp: ParseArray.psimps bindE_eq_Inr throw_if_eq_Inr dest: str_find_bounds
        split: option.splits)
next
  case (3 str pos n)
  then show ?case
    by (fastforce simp: ParseElements.psimps bindE_eq_Inr throw_if_eq_Inr split: if_splits)
qed

lemma parse_dom: "All ParseVariant_ParseArray_ParseElements_dom"
  by (relation "measures [\<lambda>x. case x of Inl (str, pos) \<Rightarrow> length str - pos
        | Inr (Inl (str, pos)) \<Rightarrow> length str - pos
        | Inr (Inr (str, pos, n)) \<Rightarrow> length str - pos,
      \<lambda>x. case x of Inl _ \<Rightarrow> 1 | Inr (Inl _) \<Rightarrow> 0 | Inr (Inr _) \<Rightarrow> 2]")
    (auto dest!: str_find_bounds parse_advances_dom(1))

termination ParseVariant
  by (rule parse_dom)

declare ParseVariant.simps [simp del] ParseArray.simps [simp del] ParseElements.simps [simp del]

text \<open>\<open>FromString\<close> parses at the start and also returns the number of characters consumed.\<close>

definition FromString :: "string \<Rightarrow> (RespValue \<times> nat) result" where
  "FromString str = ParseVariant str 0"

section \<open>Progress\<close>

lemma ParseVariant_advances:
  "ParseVariant str pos = Inr (v, p) \<Longrightarrow> pos < p \<and> p \<le> length str"
  by (rule parse_advances_dom(1) [OF parse_dom [rule_format]])

section \<open>More input does not change a decided parse\<close>

text \<open>
  A parse is decided when it returns a value or throws something other than
  \<open>out_of_range\<close>, the exception the queue takes to mean that input is missing.
\<close>

definition decided :: "'a result \<Rightarrow> bool" where
  "decided r \<longleftrightarrow> (case r of Inl e \<Rightarrow> \<not> is_out_of_range e | Inr _ \<Rightarrow> True)"

lemma decided_simps [simp]:
  "decided (Inr x)"
  "decided (Inl (invalid_argument m))"
  "\<not> decided (Inl (out_of_range m))"
  by (simp_all add: decided_def)

lemma decided_bindE: "decided (bindE m f) \<Longrightarrow> decided m"
  by (cases m) (auto simp: decided_def)

lemma decided_throw_if: "decided (throw_if c (out_of_range m) k) \<longleftrightarrow> \<not> c \<and> decided k"
  by (auto simp: throw_if_def)

lemma line_append:
  assumes "str_find s CRLF (pos + 1) = Some e"
  shows "str_find (s @ t) CRLF (pos + 1) = Some e"
    and "substr (s @ t) (pos + 1) (e - pos - 1) = substr s (pos + 1) (e - pos - 1)"
  using str_find_bounds [OF assms] str_find_append [OF assms, of t]
  by (auto intro!: substr_append)

lemma simple_parsers_stable:
  "decided (ParseSimpleString s pos) \<Longrightarrow> ParseSimpleString (s @ t) pos = ParseSimpleString s pos"
  "decided (ParseSimpleError s pos) \<Longrightarrow> ParseSimpleError (s @ t) pos = ParseSimpleError s pos"
  "decided (ParseInteger s pos) \<Longrightarrow> ParseInteger (s @ t) pos = ParseInteger s pos"
  using line_append [of s pos _ t]
  by (cases "str_find s CRLF (pos + 1)";
      simp add: ParseSimpleString_def ParseSimpleError_def ParseInteger_def)+

lemma ParseBulkString_stable:
  assumes "decided (ParseBulkString s pos)"
  shows "ParseBulkString (s @ t) pos = ParseBulkString s pos"
proof (cases "str_find s CRLF (pos + 1)")
  case None
  with assms show ?thesis by (simp add: ParseBulkString_def)
next
  case (Some e)
  note e = str_find_bounds [OF Some] and sub = line_append [OF Some, of t]
  show ?thesis
  proof (cases "stoll (substr s (pos + 1) (e - pos - 1))")
    case (Inl x)
    with Some e sub show ?thesis by (simp add: ParseBulkString_def)
  next
    case (Inr n)
    show ?thesis
    proof (cases "n < 0")
      case True
      with Some e sub Inr show ?thesis by (auto simp: ParseBulkString_def Let_def throw_if_def)
    next
      case False
      with assms Some Inr have len: "e + 2 + nat n + 2 \<le> length s"
        by (auto simp: ParseBulkString_def Let_def decided_throw_if)
      then have "substr (s @ t) (e + 2) (nat n) = substr s (e + 2) (nat n)"
        by (intro substr_append) simp
      with len False Some e sub Inr show ?thesis
        by (simp add: ParseBulkString_def Let_def nth_append)
    qed
  qed
qed

lemma ParseArray_stable:
  assumes elements: "\<And>e n. str_find s CRLF (pos + 1) = Some e \<Longrightarrow> stoll (substr s (pos + 1) (e - pos - 1)) = Inr n \<Longrightarrow> \<not> n < 0 \<Longrightarrow>
      decided (ParseElements s (e + 2) (nat n)) \<Longrightarrow> ParseElements (s @ t) (e + 2) (nat n) = ParseElements s (e + 2) (nat n)"
    and "decided (ParseArray s pos)"
  shows "ParseArray (s @ t) pos = ParseArray s pos"
proof (cases "str_find s CRLF (pos + 1)")
  case None
  with assms(2) show ?thesis by (simp add: ParseArray.simps)
next
  case (Some e)
  note sub = line_append [OF Some, of t]
  show ?thesis
  proof (cases "stoll (substr s (pos + 1) (e - pos - 1))")
    case (Inl x)
    with Some sub show ?thesis by (simp add: ParseArray.simps)
  next
    case (Inr n)
    with assms Some sub show ?thesis by (cases "n < 0") (simp_all add: ParseArray.simps)
  qed
qed

lemma ParseElements_stable:
  assumes variant: "pos < length s \<Longrightarrow> decided (ParseVariant s pos) \<Longrightarrow> ParseVariant (s @ t) pos = ParseVariant s pos"
    and rest: "\<And>v p. pos < length s \<Longrightarrow> ParseVariant s pos = Inr (v, p) \<Longrightarrow> decided (ParseElements s p (n - 1)) \<Longrightarrow>
      ParseElements (s @ t) p (n - 1) = ParseElements s p (n - 1)"
    and n: "n \<noteq> 0" and "decided (ParseElements s pos n)"
  shows "ParseElements (s @ t) pos n = ParseElements s pos n"
proof -
  from n assms(4) have pos: "pos < length s"
    and dec: "decided (bindE (ParseVariant s pos) (\<lambda>(v, p).
      bindE (ParseElements s p (n - 1)) (\<lambda>(vs, q). Inr (v # vs, q))))"
    by (simp_all add: ParseElements.simps [of s pos n] decided_throw_if)
  note var = variant [OF pos decided_bindE [OF dec]]
  have "ParseElements (s @ t) p (n - 1) = ParseElements s p (n - 1)" if "ParseVariant s pos = Inr (v, p)" for v p
    by (rule rest [OF pos that]) (use dec that in \<open>auto dest: decided_bindE\<close>)
  with n pos var show ?thesis
    by (cases "ParseVariant s pos") (auto simp: ParseElements.simps [of s pos n] ParseElements.simps [of "s @ t" pos n])
qed

lemma parse_stable:
  "decided (ParseVariant s pos) \<Longrightarrow> ParseVariant (s @ t) pos = ParseVariant s pos"
  "decided (ParseArray s pos) \<Longrightarrow> ParseArray (s @ t) pos = ParseArray s pos"
  "decided (ParseElements s pos n) \<Longrightarrow> ParseElements (s @ t) pos n = ParseElements s pos n"
proof (induction s pos and s pos and s pos n rule: ParseVariant_ParseArray_ParseElements.induct)
  case (1 s pos)
  then have "pos < length s" by (simp add: ParseVariant.simps decided_throw_if)
  with 1 show ?case
    by (auto simp: ParseVariant.simps [of s pos] ParseVariant.simps [of "s @ t" pos] nth_append
        simple_parsers_stable ParseBulkString_stable dest: decided_bindE split: if_splits)
next
  case (2 s pos)
  show ?case by (rule ParseArray_stable [OF "2.IH" "2.prems"])
next
  case (3 s pos n)
  show ?case
  proof (cases "n = 0")
    case True
    then show ?thesis by (simp add: ParseElements.simps)
  next
    case False
    have "\<not> pos \<ge> length s" if "pos < length s" using that by simp
    then show ?thesis using "3.IH" [OF False] by (intro ParseElements_stable [OF _ _ False "3.prems"]) blast+
  qed
qed

section \<open>Well-formed values and the round trip\<close>

text \<open>
  What a value must satisfy to survive the wire: a simple string or error holds no CRLF, an
  integer is a \<open>long long\<close>, and the sizes the headers announce fit \<open>long long\<close>.
\<close>

fun wf_resp :: "RespValue \<Rightarrow> bool" where
  "wf_resp (RespSimpleString s) = (find_list CRLF s = None)"
| "wf_resp (RespSimpleError s) = (find_list CRLF s = None)"
| "wf_resp (RespInteger i) = in_int64 i"
| "wf_resp (RespBulkString None) = True"
| "wf_resp (RespBulkString (Some s)) = (int (length s) \<le> INT64_MAX)"
| "wf_resp (RespArray vs) = (int (length vs) \<le> INT64_MAX \<and> list_all wf_resp vs)"

lemma line_at:
  assumes "find_list CRLF s = None"
  shows "str_find (pre @ c # s @ CR # LF # rest) CRLF (length pre + 1) = Some (length pre + 1 + length s)"
    and "substr (pre @ c # s @ CR # LF # rest) (length pre + 1) (length s) = s"
proof -
  have "str_find ((pre @ [c]) @ s @ CRLF @ rest) CRLF (length (pre @ [c]) + 0)
      = Some (length pre + 1 + length s)"
    by (simp only: str_find_shift) (use find_list_CRLF_fresh [OF assms, of rest] in \<open>simp add: str_find_def\<close>)
  then show "str_find (pre @ c # s @ CR # LF # rest) CRLF (length pre + 1) = Some (length pre + 1 + length s)"
    by simp
  show "substr (pre @ c # s @ CR # LF # rest) (length pre + 1) (length s) = s"
    using substr_shift [of "pre @ [c]" "s @ CRLF @ rest" 0 "length s"] by (simp add: substr_def)
qed

lemmas text_lines [simp] =
  find_list_CRLF_no_CR [OF CR_notin_to_string] find_list_CRLF_no_CR [OF CR_notin_dec_string]

lemma Serialize_nonempty [simp]: "Serialize v \<noteq> []"
  by (cases v rule: Serialize.cases) auto

lemma bulk_payload_at:
  "(pre @ s @ CR # LF # rest) ! (length pre + length s) = CR"
  "(pre @ s @ CR # LF # rest) ! Suc (length pre + length s) = LF"
  by (simp_all add: nth_append)

lemma ParseBulkString_at:
  assumes "int (length s) \<le> INT64_MAX"
  shows "ParseBulkString (pre @ CHR ''$'' # dec_string (length s) @ CR # LF # s @ CR # LF # rest) (length pre)
    = Inr (Some s, length pre + length (dec_string (length s)) + length s + 5)"
proof -
  let ?h = "dec_string (length s)"
  let ?str = "pre @ CHR ''$'' # ?h @ CR # LF # s @ CR # LF # rest"
  let ?p = "length pre + 1 + length ?h"
  have line: "str_find ?str CRLF (length pre + 1) = Some ?p"
    "substr ?str (length pre + 1) (length ?h) = ?h"
    using line_at [of ?h pre "CHR ''$''" "s @ CR # LF # rest"] by simp_all
  have str: "?str = (pre @ CHR ''$'' # ?h @ CRLF) @ s @ CR # LF # rest"
    and p: "?p + 2 = length (pre @ CHR ''$'' # ?h @ CRLF)" by simp_all
  have "?str ! (?p + 2 + length s) = CR" "?str ! (?p + 2 + length s + 1) = LF"
    using bulk_payload_at [of "pre @ CHR ''$'' # ?h @ CRLF" s rest] unfolding str p by simp_all
  moreover have "substr ?str (?p + 2) (length s) = s"
    using substr_shift [of "pre @ CHR ''$'' # ?h @ CRLF" "s @ CR # LF # rest" 0 "length s"]
    by (simp add: substr_def)
  ultimately show ?thesis
    using line stoll_dec_string [OF assms] by (simp add: ParseBulkString_def Let_def)
qed

lemma ParseElements_at:
  assumes "\<And>v pre rest. v \<in> set vs \<Longrightarrow>
      ParseVariant (pre @ Serialize v @ rest) (length pre) = Inr (v, length pre + length (Serialize v))"
  shows "ParseElements (pre @ concat (map Serialize vs) @ rest) (length pre) (length vs)
    = Inr (vs, length pre + length (concat (map Serialize vs)))"
  using assms
proof (induction vs arbitrary: pre)
  case Nil
  then show ?case by (simp add: ParseElements.simps)
next
  case (Cons v vs)
  let ?tl = "concat (map Serialize vs)"
  have "ParseVariant (pre @ Serialize v @ ?tl @ rest) (length pre)
      = Inr (v, length pre + length (Serialize v))"
    using Cons.prems by simp
  moreover have "ParseElements ((pre @ Serialize v) @ ?tl @ rest) (length (pre @ Serialize v)) (length vs)
      = Inr (vs, length (pre @ Serialize v) + length ?tl)"
    using Cons.prems by (intro Cons.IH) simp
  ultimately show ?case by (simp add: ParseElements.simps [of _ "length pre"])
qed

lemma ParseVariant_Serialize_at:
  "wf_resp v \<Longrightarrow> ParseVariant (pre @ Serialize v @ rest) (length pre)
     = Inr (v, length pre + length (Serialize v))"
proof (induction v arbitrary: pre rest rule: Serialize.induct)
  case (1 s)
  then show ?case using line_at [of s pre "CHR ''+''" rest]
    by (simp add: ParseVariant.simps nth_append ParseSimpleString_def)
next
  case (2 s)
  then show ?case using line_at [of s pre "CHR ''-''" rest]
    by (simp add: ParseVariant.simps nth_append ParseSimpleError_def)
next
  case (3 i)
  then show ?case using line_at [of "to_string i" pre "CHR '':''" rest] stoll_to_string [of i]
    by (simp add: ParseVariant.simps nth_append ParseInteger_def)
next
  case 4
  have "stoll ''-1'' = Inr (-1)" using stoll_to_string [of "-1"]
    by (simp add: to_string_def dec_string.simps digit_char_def int64_defs)
  moreover have "str_find (pre @ ''$-1'' @ CRLF @ rest) CRLF (length pre + 1) = Some (length pre + 3)"
    "substr (pre @ ''$-1'' @ CRLF @ rest) (length pre + 1) 2 = ''-1''"
    using line_at [of "''-1''" pre "CHR ''$''" rest] by (simp_all add: numeral_2_eq_2 numeral_3_eq_3)
  ultimately show ?case
    by (simp add: ParseVariant.simps nth_append ParseBulkString_def Let_def)
next
  case (5 s)
  then show ?case using ParseBulkString_at [of s pre rest]
    by (simp add: ParseVariant.simps nth_append)
next
  case (6 vs)
  let ?h = "dec_string (length vs)"
  let ?hd = "pre @ CHR ''*'' # ?h @ CRLF"
  have "ParseElements (?hd @ concat (map Serialize vs) @ rest) (length ?hd) (length vs)
      = Inr (vs, length ?hd + length (concat (map Serialize vs)))"
    using 6 by (intro ParseElements_at) (auto simp: list_all_iff)
  moreover note line_at [of ?h pre "CHR ''*''" "concat (map Serialize vs) @ rest"]
    stoll_dec_string [of "length vs"]
  ultimately show ?case using 6
    by (simp add: ParseVariant.simps nth_append ParseArray.simps)
qed

section \<open>Everything parsed is well formed\<close>

lemma line_no_CRLF:
  assumes "str_find s CRLF (pos + 1) = Some e"
  shows "find_list CRLF (substr s (pos + 1) (e - pos - 1)) = None"
proof -
  from assms obtain i where "find_list CRLF (drop (pos + 1) s) = Some i" "e = pos + 1 + i"
    by (auto simp: str_find_def split: if_splits)
  then show ?thesis using find_list_before [of CRLF "drop (pos + 1) s" i] by (simp add: substr_def)
qed

lemma simple_parsers_wf:
  "ParseSimpleString str pos = Inr (s, p) \<Longrightarrow> wf_resp (RespSimpleString s)"
  "ParseSimpleError str pos = Inr (s, p) \<Longrightarrow> wf_resp (RespSimpleError s)"
  "ParseInteger str pos = Inr (i, p) \<Longrightarrow> wf_resp (RespInteger i)"
  using line_no_CRLF [of str pos]
  by (cases "str_find str CRLF (pos + 1)";
      auto simp: ParseSimpleString_def ParseSimpleError_def ParseInteger_def bindE_eq_Inr
        stoll_in_int64)+

lemma ParseBulkString_wf:
  assumes "ParseBulkString str pos = Inr (b, p)"
  shows "wf_resp (RespBulkString b)"
proof -
  from assms obtain e n where n: "stoll (substr str (pos + 1) (e - pos - 1)) = Inr n"
    and b: "b = None \<or> b = Some (substr str (e + 2) (nat n))"
    by (auto simp: ParseBulkString_def bindE_eq_Inr throw_if_eq_Inr Let_def
        split: option.splits if_splits)
  from b show ?thesis using stoll_in_int64 [OF n] by (auto simp: substr_def int64_defs)
qed

lemma parse_wf:
  "ParseVariant str pos = Inr (v, p) \<Longrightarrow> wf_resp v"
  "ParseArray str pos = Inr (vs, p) \<Longrightarrow> wf_resp (RespArray vs)"
  "ParseElements str pos n = Inr (vs, p) \<Longrightarrow> length vs = n \<and> list_all wf_resp vs"
proof (induction str pos and str pos and str pos n arbitrary: v p and vs p and vs p
    rule: ParseVariant_ParseArray_ParseElements.induct)
  case (1 str pos)
  then show ?case
    by (auto simp: ParseVariant.simps [of str pos] bindE_eq_Inr throw_if_eq_Inr
        simp del: wf_resp.simps intro: simple_parsers_wf ParseBulkString_wf split: if_splits)
next
  case (2 str pos)
  then obtain e n where "str_find str CRLF (pos + 1) = Some e"
    and n: "stoll (substr str (pos + 1) (e - pos - 1)) = Inr n" "\<not> n < 0"
    and elems: "ParseElements str (e + 2) (nat n) = Inr (vs, p)"
    by (auto simp: ParseArray.simps [of str pos] bindE_eq_Inr throw_if_eq_Inr split: option.splits)
  then have "length vs = nat n \<and> list_all wf_resp vs" using 2 by simp
  with stoll_in_int64 [OF n(1)] show ?case by (auto simp: int64_defs)
next
  case (3 str pos n)
  then show ?case
    by (fastforce simp: ParseElements.simps [of str pos n] bindE_eq_Inr throw_if_eq_Inr
        split: if_splits)
qed

section \<open>Streams of values\<close>

lemma FromString_Serialize: "wf_resp v \<Longrightarrow> FromString (Serialize v @ rest) = Inr (v, length (Serialize v))"
  using ParseVariant_Serialize_at [of v "[]" rest] by (simp add: FromString_def)

lemma FromString_stable: "decided (FromString s) \<Longrightarrow> FromString (s @ t) = FromString s"
  by (simp add: FromString_def parse_stable)

lemma FromString_bounds: "FromString s = Inr (v, n) \<Longrightarrow> 0 < n \<and> n \<le> length s"
  unfolding FromString_def by (drule ParseVariant_advances) simp

lemma FromString_wf: "FromString s = Inr (v, n) \<Longrightarrow> wf_resp v"
  unfolding FromString_def by (rule parse_wf)

lemma FromString_strict_prefix:
  assumes "wf_resp v" and "Serialize v = s @ t" and "t \<noteq> []"
  obtains m where "FromString s = Inl (out_of_range m)"
proof -
  have full: "FromString (s @ t) = Inr (v, length (s @ t))"
    using FromString_Serialize [OF assms(1), of "[]"] assms(2) by simp
  have "\<not> decided (FromString s)"
  proof
    assume "decided (FromString s)"
    then have "FromString s = Inr (v, length (s @ t))" using FromString_stable [of s t] full by simp
    then show False using FromString_bounds assms(3) by fastforce
  qed
  then obtain e where "FromString s = Inl e" "is_out_of_range e"
    by (auto simp: decided_def split: sum.splits)
  then show ?thesis using that by (cases e) auto
qed

lemma Serialize_stream_inject:
  assumes "list_all wf_resp vs" and "list_all wf_resp ws"
    and "concat (map Serialize vs) = concat (map Serialize ws)"
  shows "vs = ws"
  using assms
proof (induction vs arbitrary: ws)
  case Nil
  then show ?case by (cases ws) simp_all
next
  case (Cons v vs)
  obtain w ws' where ws: "ws = w # ws'" using Cons.prems(3) by (cases ws) simp_all
  with Cons.prems have eq: "Serialize v @ concat (map Serialize vs) = Serialize w @ concat (map Serialize ws')"
    by simp
  have "wf_resp v" "wf_resp w" using Cons.prems ws by simp_all
  from FromString_Serialize [OF this(1), of "concat (map Serialize vs)"]
    FromString_Serialize [OF this(2), of "concat (map Serialize ws')"]
  have "v = w" unfolding eq by simp
  with eq have "concat (map Serialize vs) = concat (map Serialize ws')" by simp
  then have "vs = ws'" using Cons.prems ws by (intro Cons.IH) simp_all
  with \<open>v = w\<close> ws show ?case by simp
qed

section \<open>The exceptions of the parser\<close>

definition documented :: "'a result \<Rightarrow> bool" where
  "documented r \<longleftrightarrow> (\<forall>m. r \<noteq> Inl (runtime_error m))"

lemma documented_intros:
  "documented (Inr x)" "documented (Inl (out_of_range m))" "documented (Inl (invalid_argument m))"
  "documented m' \<Longrightarrow> (\<And>x. m' = Inr x \<Longrightarrow> documented (f x)) \<Longrightarrow> documented (bindE m' f)"
  "documented (Inl e) \<Longrightarrow> (\<not> c \<Longrightarrow> documented k) \<Longrightarrow> documented (throw_if c e k)"
  "documented (stoll s)"
  by (auto simp: documented_def throw_if_def stoll_def Let_def bindE_def split: prod.splits if_splits sum.splits)

lemma simple_parsers_documented:
  "documented (ParseSimpleString str pos)" "documented (ParseSimpleError str pos)"
  "documented (ParseInteger str pos)" "documented (ParseBulkString str pos)"
  unfolding ParseSimpleString_def ParseSimpleError_def ParseInteger_def ParseBulkString_def Let_def
  by (auto intro!: documented_intros split: option.split)

lemma parse_documented:
  "documented (ParseVariant str pos)" "documented (ParseArray str pos)" "documented (ParseElements str pos n)"
proof (induction str pos and str pos and str pos n rule: ParseVariant_ParseArray_ParseElements.induct)
  case (1 str pos)
  then show ?case
    unfolding ParseVariant.simps [of str pos]
    by (auto intro!: documented_intros simple_parsers_documented split: prod.split)
next
  case (2 str pos)
  then show ?case
    unfolding ParseArray.simps [of str pos] by (auto intro!: documented_intros split: option.split)
next
  case (3 str pos n)
  then show ?case
    unfolding ParseElements.simps [of str pos n] by (auto intro!: documented_intros split: prod.split)
qed

section \<open>Properties\<close>

text \<open>
  \<^bold>\<open>C6\<close>. Round trip: parsing the serialised form of a well-formed value, whatever follows
  it, gives the value back and consumes exactly its bytes.
\<close>

theorem resp_round_trip:
  assumes "wf_resp v"
  shows "FromString (Serialize v @ rest) = Inr (v, length (Serialize v))"
  using assms by (rule FromString_Serialize)

definition sample_request :: RespValue where
  "sample_request = RespArray [RespBulkString (Some ''SET''), RespInteger (-7), RespBulkString None,
     RespArray [], RespSimpleString ''OK'', RespSimpleError ''ERR'']"

lemma wf_sample_request: "wf_resp sample_request"
  by (simp add: sample_request_def int64_defs)

theorem resp_round_trip_witness:
  "wf_resp sample_request \<and>
   FromString (Serialize sample_request @ ''+P'') = Inr (sample_request, length (Serialize sample_request))"
  using resp_round_trip [OF wf_sample_request, of "''+P''"] wf_sample_request by blast

text \<open>
  \<^bold>\<open>C7\<close>. A result that does not ask for more input (a value, or a framing error) is final:
  no bytes that arrive later change it.
\<close>

theorem resp_decided_stable:
  assumes "decided (FromString s)"
  shows "FromString (s @ t) = FromString s"
  using assms by (rule FromString_stable)

theorem resp_decided_stable_witness:
  "decided (FromString (Serialize sample_request)) \<and>
   FromString (Serialize sample_request @ ''$1'') = FromString (Serialize sample_request)"
proof -
  have "decided (FromString (Serialize sample_request))"
    using FromString_Serialize [OF wf_sample_request, of "[]"] by simp
  with resp_decided_stable [OF this, of "''$1''"] show ?thesis by blast
qed

text \<open>
  A value cut short anywhere is reported as incomplete input (\<open>out_of_range\<close>),
  never as a value and never as a framing error.
\<close>

lemma resp_prefix_incomplete:
  assumes "wf_resp v" and "Serialize v = s @ t" and "t \<noteq> []"
  shows "\<exists>m. FromString s = Inl (out_of_range m)"
  using FromString_strict_prefix [OF assms] by blast

text \<open>
  \<^bold>\<open>C8\<close>. Whatever the parser accepts is a well-formed value, read from a non-empty prefix
  of the input, and the value's own serialisation parses back to it.
\<close>

theorem resp_parse_sound:
  assumes "FromString s = Inr (v, n)"
  shows "0 < n \<and> n \<le> length s \<and> wf_resp v \<and>
    FromString (Serialize v) = Inr (v, length (Serialize v))"
  using FromString_bounds [OF assms] FromString_wf [OF assms]
    FromString_Serialize [OF FromString_wf [OF assms], of "[]"] by simp

theorem resp_parse_sound_witness:
  "FromString (Serialize sample_request) = Inr (sample_request, length (Serialize sample_request)) \<and>
   wf_resp sample_request"
proof -
  have "FromString (Serialize sample_request) = Inr (sample_request, length (Serialize sample_request))"
    using FromString_Serialize [OF wf_sample_request, of "[]"] by simp
  with resp_parse_sound [OF this] show ?thesis by blast
qed

text \<open>
  A pipelined stream of well-formed values can be read in one way only.
\<close>

lemma resp_stream_unique:
  assumes "list_all wf_resp vs" and "list_all wf_resp ws"
    and "concat (map Serialize vs) = concat (map Serialize ws)"
  shows "vs = ws"
  using assms by (rule Serialize_stream_inject)

end
