(* ===== verification/Standard_Map.thy ===== *)
theory Standard_Map
  imports Map_Interface
begin

text \<open>
  \<open>StandardMap\<close> of \<open>v2/src/store/map/standard_map.h\<close>, the map the store uses. Its member is a
  \<open>std::unordered_map\<close>, modelled by an association list with distinct keys whose order stands
  for the iteration order of the container. That order is unspecified in C++; every statement
  about all such lists is a statement about all orders.
\<close>

type_synonym ('k, 'v) StandardMap = "('k \<times> 'v) list"

definition StandardMap_LookUp :: "('k, 'v) StandardMap \<Rightarrow> 'k \<Rightarrow> 'v option" where
  "StandardMap_LookUp data key = map_of data key"

definition StandardMap_Insert :: "'k \<Rightarrow> 'v \<Rightarrow> ('k, 'v) StandardMap \<Rightarrow> ('k, 'v) StandardMap" where
  "StandardMap_Insert key value data = AList.update key value data"

definition StandardMap_Remove :: "'k \<Rightarrow> ('k, 'v) StandardMap \<Rightarrow> ('k, 'v) StandardMap" where
  "StandardMap_Remove key data = AList.delete key data"

text \<open>A write through the reference that \<open>LookUp\<close> returns.\<close>

definition StandardMap_Assign :: "('v \<Rightarrow> 'v) \<Rightarrow> 'k \<Rightarrow> ('k, 'v) StandardMap \<Rightarrow> ('k, 'v) StandardMap" where
  "StandardMap_Assign f key data = AList.map_entry key f data"

definition StandardMap_ForEach ::
    "('k \<Rightarrow> 'v \<Rightarrow> 's \<Rightarrow> 'v \<times> 's) \<Rightarrow> ('k, 'v) StandardMap \<Rightarrow> 's \<Rightarrow> ('k, 'v) StandardMap \<times> 's" where
  "StandardMap_ForEach action data s = for_each action data s"

definition StandardMap_invar :: "('k, 'v) StandardMap \<Rightarrow> bool" where
  "StandardMap_invar data = distinct (map fst data)"

lemmas StandardMap_defs = StandardMap_LookUp_def StandardMap_Insert_def StandardMap_Remove_def
  StandardMap_Assign_def StandardMap_ForEach_def StandardMap_invar_def

interpretation std: dictionary StandardMap_invar StandardMap_LookUp StandardMap_Insert
  StandardMap_Assign "\<lambda>data. data" StandardMap_ForEach StandardMap_Remove
proof
  fix m m' :: "('k, 'v) StandardMap" and k v f and action :: "'k \<Rightarrow> 'v \<Rightarrow> 's \<Rightarrow> 'v \<times> 's" and s s'
  assume m: "StandardMap_invar m"
  show "StandardMap_invar (fst (StandardMap_ForEach action m s))"
    using m for_each_keys [of action m s] by (auto simp: StandardMap_defs) (metis prod.collapse)
qed (auto simp: StandardMap_defs fun_eq_iff AList.update_conv' AList.delete_conv' map_of_map_entry
    AList.distinct_update AList.distinct_delete distinct_map_entry
    split: option.splits)

text \<open>
  A \<open>StandardMap\<close> answers every history of \<open>LookUp\<close>, \<open>Insert\<close>, \<open>Remove\<close> and writes
  through references as the finite map of the specification does, its contents are that map,
  and iterating over it meets each key once.
\<close>

lemma standard_map_refines:
  "let (answers, m) = run_ops StandardMap_LookUp StandardMap_Insert StandardMap_Remove StandardMap_Assign ops [];
       (spec_answers, spec) = run_spec ops Map.empty;
       visited = snd (StandardMap_ForEach (\<lambda>k v seen. (v, seen @ [(k, v)])) m [])
   in answers = spec_answers \<and> StandardMap_LookUp m = spec
      \<and> distinct (map fst visited) \<and> map_of visited = spec"
proof -
  obtain as m where r: "run_ops StandardMap_LookUp StandardMap_Insert StandardMap_Remove StandardMap_Assign ops []
      = (as, m)" by (rule prod.exhaust)
  have "StandardMap_invar []" "StandardMap_LookUp [] = Map.empty" by (auto simp: StandardMap_defs)
  note h = std.run_ops_refines [OF this(1) r, unfolded this(2)]
  have "snd (StandardMap_ForEach (\<lambda>k v seen. (v, seen @ [(k, v)])) m []) = m"
    by (simp add: StandardMap_ForEach_def for_each_collect)
  with h r std.entries_distinct [of m] std.entries_lookup [of m] show ?thesis by simp
qed

end
