(* ===== verification/Json_Text.thy ===== *)
theory Json_Text
  imports Prelude
begin

text \<open>
  The JSON text helpers of \<open>v2/src/store/serialise.{h,cc}\<close>: writing a string literal,
  skipping white space, and reading string and integer literals at a position. A reader returns
  the value and the new position, or throws \<open>invalid_argument\<close>; the messages name double
  quotes and backslashes in words.
\<close>

abbreviation DQ :: char where "DQ \<equiv> CHR 0x22"
abbreviation BSL :: char where "BSL \<equiv> CHR 0x5C"

section \<open>Writing\<close>

definition kHex :: "nat \<Rightarrow> char" where "kHex n = ''0123456789abcdef'' ! n"

text \<open>The body of the loop of \<open>AppendJsonString\<close>: what one character contributes.\<close>

definition EscapeJsonChar :: "char \<Rightarrow> string" where
  "EscapeJsonChar character =
     (if character = DQ then [BSL, DQ]
      else if character = BSL then [BSL, BSL]
      else if character = CHR 0x08 then [BSL, CHR ''b'']
      else if character = CHR 0x0C then [BSL, CHR ''f'']
      else if character = CHR 0x0A then [BSL, CHR ''n'']
      else if character = CHR 0x0D then [BSL, CHR ''r'']
      else if character = CHR 0x09 then [BSL, CHR ''t'']
      else if (of_char character :: nat) < 0x20
      then [BSL, CHR ''u'', CHR ''0'', CHR ''0'', kHex (of_char character div 16 mod 16),
            kHex (of_char character mod 16)]
      else [character])"

definition AppendJsonString :: "string \<Rightarrow> string \<Rightarrow> string" where
  "AppendJsonString value out = out @ [DQ] @ concat (map EscapeJsonChar value) @ [DQ]"

section \<open>Reading\<close>

definition is_json_space :: "char \<Rightarrow> bool" where
  "is_json_space c \<longleftrightarrow> c \<in> set [CHR '' '', CHR 0x09, CHR 0x0A, CHR 0x0D]"

function SkipWhitespace :: "string \<Rightarrow> nat \<Rightarrow> nat" where
  "SkipWhitespace data pos =
     (if pos < length data \<and> is_json_space (data ! pos) then SkipWhitespace data (pos + 1) else pos)"
  by pat_completeness auto
termination
  by (relation "measure (\<lambda>(data, pos). length data - pos)") auto

declare SkipWhitespace.simps [simp del]

definition HexValue :: "char \<Rightarrow> int" where
  "HexValue chr =
     (let n = (of_char chr :: nat) in
      if 48 \<le> n \<and> n \<le> 57 then int n - 48
      else if 97 \<le> n \<and> n \<le> 102 then int n - 97 + 10
      else if 65 \<le> n \<and> n \<le> 70 then int n - 65 + 10
      else -1)"

text \<open>
  The loop over the four digits of a \<open>\u\<close> escape; \<open>(code << 4) | nibble\<close> is a sum because
  the nibble is below 16.
\<close>

fun ParseHexDigits :: "string \<Rightarrow> nat \<Rightarrow> nat \<Rightarrow> int \<Rightarrow> (int \<times> nat) result" where
  "ParseHexDigits data pos 0 code = Inr (code, pos)"
| "ParseHexDigits data pos (Suc n) code =
     (let nibble = HexValue (data ! pos) in
      throw_if (nibble < 0) (invalid_argument (''invalid '' @ [BSL] @ ''u escape''))
        (ParseHexDigits data (pos + 1) n (16 * code + nibble)))"

lemma ParseHexDigits_pos: "ParseHexDigits data pos n code = Inr (c, p) \<Longrightarrow> p = pos + n"
  by (induction n arbitrary: pos code) (fastforce simp: Let_def throw_if_eq_Inr)+

text \<open>The escapes that stand for one character.\<close>

definition SimpleEscape :: "char \<Rightarrow> char option" where
  "SimpleEscape escape =
     (if escape = DQ then Some DQ
      else if escape = BSL then Some BSL
      else if escape = CHR ''/'' then Some (CHR ''/'')
      else if escape = CHR ''b'' then Some (CHR 0x08)
      else if escape = CHR ''f'' then Some (CHR 0x0C)
      else if escape = CHR ''n'' then Some (CHR 0x0A)
      else if escape = CHR ''r'' then Some (CHR 0x0D)
      else if escape = CHR ''t'' then Some (CHR 0x09)
      else None)"

text \<open>The \<open>while\<close> loop of \<open>ParseJsonString\<close>, after the opening quote.\<close>

function ParseJsonChars :: "string \<Rightarrow> nat \<Rightarrow> string \<Rightarrow> (string \<times> nat) result" where
  "ParseJsonChars data pos out =
     (if pos < length data then
        if data ! pos = DQ then Inr (out, pos + 1)
        else if data ! pos \<noteq> BSL then ParseJsonChars data (pos + 1) (out @ [data ! pos])
        else throw_if (pos + 1 \<ge> length data) (invalid_argument ''dangling escape'')
          (case SimpleEscape (data ! (pos + 1)) of
             Some c \<Rightarrow> ParseJsonChars data (pos + 2) (out @ [c])
           | None \<Rightarrow>
               if data ! (pos + 1) = CHR ''u'' then
                 throw_if (pos + 2 + 4 > length data) (invalid_argument (''truncated '' @ [BSL] @ ''u escape''))
                   (bindE (ParseHexDigits data (pos + 2) 4 0) (\<lambda>(code, p).
                      throw_if (code > 0xff) (invalid_argument (''unsupported '' @ [BSL] @ ''u escape''))
                        (ParseJsonChars data p (out @ [char_of (nat code)]))))
               else Inl (invalid_argument ''invalid escape''))
      else Inl (invalid_argument ''unterminated string''))"
  by pat_completeness auto
termination
  by (relation "measure (\<lambda>(data, pos, out). length data - pos)") (auto dest: ParseHexDigits_pos)

declare ParseJsonChars.simps [simp del]

definition ParseJsonString :: "string \<Rightarrow> nat \<Rightarrow> (string \<times> nat) result" where
  "ParseJsonString data pos =
     throw_if (pos \<ge> length data \<or> data ! pos \<noteq> DQ)
       (invalid_argument ''expected '\"' to open string'')
       (ParseJsonChars data (pos + 1) [])"

definition ParseJsonInteger :: "string \<Rightarrow> nat \<Rightarrow> (int \<times> nat) result" where
  "ParseJsonInteger data pos =
     (case from_chars (drop pos data) of
        Inl _ \<Rightarrow> Inl (invalid_argument ''expected an integer'')
      | Inr (value, n) \<Rightarrow>
          throw_if (n = 0) (invalid_argument ''expected an integer'') (Inr (value, pos + n)))"

section \<open>Progress and errors\<close>

lemma ParseJsonChars_bounds: "ParseJsonChars data pos out = Inr (s, p) \<Longrightarrow> pos < p \<and> p \<le> length data"
proof (induction data pos out rule: ParseJsonChars.induct)
  case (1 data pos out)
  then show ?case
    by (subst (asm) (2) ParseJsonChars.simps)
      (fastforce simp: throw_if_eq_Inr bindE_eq_Inr dest: ParseHexDigits_pos split: if_splits option.splits)
qed

lemma ParseJsonString_bounds: "ParseJsonString data pos = Inr (s, p) \<Longrightarrow> pos < p \<and> p \<le> length data"
  by (auto simp: ParseJsonString_def throw_if_eq_Inr dest: ParseJsonChars_bounds)

lemma ParseHexDigits_error: "ParseHexDigits data pos n code = Inl e \<Longrightarrow> \<exists>m. e = invalid_argument m"
  by (induction n arbitrary: pos code) (auto simp: Let_def throw_if_def split: if_splits)

lemma ParseJsonChars_error: "ParseJsonChars data pos out = Inl e \<Longrightarrow> \<exists>m. e = invalid_argument m"
proof (induction data pos out rule: ParseJsonChars.induct)
  case (1 data pos out)
  then show ?case
    by (subst (asm) (2) ParseJsonChars.simps)
      (auto simp: throw_if_def bindE_eq_Inl dest: ParseHexDigits_error split: if_splits option.splits)
qed

lemma ParseJsonString_error: "ParseJsonString data pos = Inl e \<Longrightarrow> \<exists>m. e = invalid_argument m"
  by (auto simp: ParseJsonString_def throw_if_def dest: ParseJsonChars_error split: if_splits)

lemma ParseJsonInteger_error: "ParseJsonInteger data pos = Inl e \<Longrightarrow> \<exists>m. e = invalid_argument m"
  by (auto simp: ParseJsonInteger_def throw_if_def split: sum.splits if_splits)

section \<open>The reader inverts the writer\<close>

lemma SkipWhitespace_none [json_simps]:
  "\<not> (pos < length data \<and> is_json_space (data ! pos)) \<Longrightarrow> SkipWhitespace data pos = pos"
  by (simp add: SkipWhitespace.simps)

lemma SkipWhitespace_mono: "pos \<le> SkipWhitespace data pos"
  by (induction data pos rule: SkipWhitespace.induct)
    (metis SkipWhitespace.simps Suc_eq_plus1 Suc_leD order_refl)

lemma kHex_props:
  assumes "n < 16"
  shows "HexValue (kHex n) = int n" and "32 \<le> (of_char (kHex n) :: nat)"
proof -
  have "list_all (\<lambda>n. HexValue (kHex n) = int n \<and> 32 \<le> (of_char (kHex n) :: nat)) [0..<16]"
    by (simp add: HexValue_def kHex_def upt_rec)
  with assms show "HexValue (kHex n) = int n" and "32 \<le> (of_char (kHex n) :: nat)"
    by (simp_all add: list_all_iff)
qed

lemma HexValue_zero: "HexValue (CHR ''0'') = 0"
  by (simp add: HexValue_def)

lemma ParseHexDigits_nths:
  assumes "HexValue a = x" and "HexValue b = y" and "0 \<le> x" and "0 \<le> y"
    and "d ! p = CHR ''0''" and "d ! Suc p = CHR ''0''" and "d ! Suc (Suc p) = a"
    and "d ! Suc (Suc (Suc p)) = b"
  shows "ParseHexDigits d p (Suc (Suc (Suc (Suc 0)))) 0 = Inr (16 * x + y, p + 4)"
  using assms by (simp add: HexValue_zero)

lemma ParseHexDigits_low_byte:
  assumes "HexValue a = x" and "HexValue b = y" and "0 \<le> x" and "0 \<le> y"
  shows "ParseHexDigits (pre @ CHR ''0'' # CHR ''0'' # a # b # rest) (length pre) 4 0
    = Inr (16 * x + y, length pre + 4)"
proof -
  have four: "Suc (Suc (Suc (Suc 0))) = (4 :: nat)" by simp
  show ?thesis
    by (rule ParseHexDigits_nths [OF assms nth_after, unfolded four])
qed

lemma ParseHexDigits_control:
  assumes "n < 32"
  shows "ParseHexDigits (pre @ CHR ''0'' # CHR ''0'' # kHex (n div 16 mod 16) # kHex (n mod 16) # rest)
    (length pre) 4 0 = Inr (int n, length pre + 4)"
proof -
  have "n div 16 mod 16 = n div 16" using assms by simp
  then have "16 * (n div 16 mod 16) + n mod 16 = n" using mult_div_mod_eq [of 16 n] by simp
  then have sum: "16 * int (n div 16 mod 16) + int (n mod 16) = int n"
    by (metis of_nat_add of_nat_mult of_nat_numeral)
  have digits: "HexValue (kHex (n div 16 mod 16)) = int (n div 16 mod 16)"
    "HexValue (kHex (n mod 16)) = int (n mod 16)"
    by (rule kHex_props(1), simp)+
  show ?thesis
    using ParseHexDigits_low_byte [OF digits of_nat_0_le_iff of_nat_0_le_iff] unfolding sum .
qed

lemma SimpleEscape_u: "SimpleEscape (CHR ''u'') = None"
  by (simp add: SimpleEscape_def)

lemma ParseJsonChars_control:
  assumes "n < 32"
  shows "ParseJsonChars (pre @ [BSL, CHR ''u'', CHR ''0'', CHR ''0'', kHex (n div 16 mod 16), kHex (n mod 16)]
      @ rest) (length pre) out
    = ParseJsonChars (pre @ [BSL, CHR ''u'', CHR ''0'', CHR ''0'', kHex (n div 16 mod 16), kHex (n mod 16)]
      @ rest) (length pre + 6) (out @ [char_of n])"
  using assms ParseHexDigits_control [OF assms, of "pre @ [BSL, CHR ''u'']" rest]
  by (subst ParseJsonChars.simps) (simp add: nth_append SimpleEscape_u add.commute)

lemma ParseJsonChars_EscapeJsonChar:
  "ParseJsonChars (pre @ EscapeJsonChar c @ rest) (length pre) out
     = ParseJsonChars (pre @ EscapeJsonChar c @ rest) (length pre + length (EscapeJsonChar c)) (out @ [c])"
proof (cases "c \<in> set [DQ, BSL, CHR 0x08, CHR 0x0C, CHR 0x0A, CHR 0x0D, CHR 0x09]")
  case True
  then show ?thesis
    by (subst ParseJsonChars.simps) (auto simp: EscapeJsonChar_def SimpleEscape_def nth_append)
next
  case False
  show ?thesis
  proof (cases "(of_char c :: nat) < 32")
    case True
    with False have esc: "EscapeJsonChar c = [BSL, CHR ''u'', CHR ''0'', CHR ''0'',
        kHex (of_char c div 16 mod 16), kHex (of_char c mod 16)]" by (simp add: EscapeJsonChar_def)
    then have six: "length (EscapeJsonChar c) = 6" by simp
    show ?thesis
      unfolding six unfolding esc using ParseJsonChars_control [OF True, of pre rest out] by simp
  next
    case False': False
    with False have "EscapeJsonChar c = [c]" by (simp add: EscapeJsonChar_def)
    with False show ?thesis by (subst ParseJsonChars.simps) (simp add: nth_append)
  qed
qed

lemma ParseJsonChars_escaped:
  "ParseJsonChars (pre @ concat (map EscapeJsonChar value) @ DQ # rest) (length pre) out
     = Inr (out @ value, length pre + length (concat (map EscapeJsonChar value)) + 1)"
proof (induction "value" arbitrary: pre out)
  case Nil
  then show ?case by (subst ParseJsonChars.simps) (simp add: nth_append)
next
  case (Cons c cs)
  have "ParseJsonChars (pre @ EscapeJsonChar c @ concat (map EscapeJsonChar cs) @ DQ # rest) (length pre) out
    = ParseJsonChars ((pre @ EscapeJsonChar c) @ concat (map EscapeJsonChar cs) @ DQ # rest)
        (length (pre @ EscapeJsonChar c)) (out @ [c])"
    using ParseJsonChars_EscapeJsonChar [of pre c "concat (map EscapeJsonChar cs) @ DQ # rest" out]
    by simp
  also have "\<dots> = Inr (out @ c # cs, length (pre @ EscapeJsonChar c) + length (concat (map EscapeJsonChar cs)) + 1)"
    by (subst Cons.IH) simp
  finally show ?case by simp
qed

lemma ParseJsonString_at [json_simps]:
  "ParseJsonString (pre @ AppendJsonString value rest0 @ rest) (length pre + length rest0)
     = Inr (value, length pre + length (AppendJsonString value rest0))"
  using ParseJsonChars_escaped [of "pre @ rest0 @ [DQ]" "value" rest "[]"]
  by (simp add: ParseJsonString_def AppendJsonString_def nth_append)

lemma ParseJsonInteger_at:
  assumes "in_int64 i" and "takeWhile is_digit rest = []"
  shows "ParseJsonInteger (pre @ to_string i @ rest) (length pre) = Inr (i, length pre + length (to_string i))"
  using from_chars_to_string [OF assms] by (simp add: ParseJsonInteger_def to_string_def)

lemma EscapeJsonChar_printable: "c \<in> set (EscapeJsonChar d) \<Longrightarrow> 32 \<le> (of_char c :: nat)"
  using kHex_props(2) [of "of_char d div 16 mod 16"] kHex_props(2) [of "of_char d mod 16"]
  by (auto simp: EscapeJsonChar_def split: if_splits)

subsection \<open>Properties\<close>

text \<open>Writing a string as a JSON literal and reading it back: whatever bytes the
  string has (quotes, backslashes, control bytes and bytes above 127 included), and whatever
  precedes and follows the literal, \<open>ParseJsonString\<close> started at the literal returns exactly
  the string and stops right behind the closing quote.\<close>

lemma json_string_round_trip:
  "ParseJsonString (AppendJsonString value out @ rest) (length out)
     = Inr (value, length (AppendJsonString value out))"
  using ParseJsonString_at [of "[]" "value" out rest] by simp

text \<open>A JSON literal is safe to write on one line: every byte that
  \<open>AppendJsonString\<close> appends is at least 0x20, so control bytes (newlines too) only occur
  escaped.\<close>

lemma json_string_no_control_bytes:
  assumes "AppendJsonString value out = out @ literal" and "c \<in> set literal"
  shows "32 \<le> (of_char c :: nat)"
  using assms by (auto simp: AppendJsonString_def dest: EscapeJsonChar_printable)

end
