(* ===== verification/Store.thy ===== *)
theory Store
  imports Standard_Map Json_Text
begin

text \<open>
  The key/value store of \<open>v2/src/store/store.{h,cc}\<close>: a \<open>StandardMap\<close> from keys to entries,
  an entry being an optional value and an expiry time in milliseconds (\<open>NO_EXPIRY\<close> for none).
  Expired entries are not removed; the operations test the expiry. \<open>time_->NowMs()\<close>, the
  injected clock, is the argument \<open>now\<close>. \<open>Ttl\<close> subtracts two \<open>int64_t\<close> values; where that
  overflows, its behaviour is undefined and the model returns the fault \<open>signed_overflow\<close>.
\<close>

record Entry =
  entry_expiry :: int
  entry_value :: "string option"

type_synonym Store = "(string, Entry) StandardMap"

definition NO_EXPIRY :: int where "NO_EXPIRY = -1"

datatype ExpireOption = NX | XX | GT | LT | NA

definition ToExpireOption :: "string \<Rightarrow> ExpireOption option" where
  "ToExpireOption option =
     (if option = ''NX'' then Some NX
      else if option = ''XX'' then Some XX
      else if option = ''GT'' then Some GT
      else if option = ''LT'' then Some LT
      else None)"

section \<open>Operations\<close>

definition Store_Get :: "int \<Rightarrow> Store \<Rightarrow> string \<Rightarrow> string option" where
  "Store_Get now data key =
     (case StandardMap_LookUp data key of
        None \<Rightarrow> None
      | Some entry \<Rightarrow>
          if entry_expiry entry \<noteq> NO_EXPIRY \<and> entry_expiry entry < now then None
          else entry_value entry)"

definition Store_Set :: "string \<Rightarrow> string option \<Rightarrow> Store \<Rightarrow> Store" where
  "Store_Set key value data =
     StandardMap_Insert key \<lparr>entry_expiry = NO_EXPIRY, entry_value = value\<rparr> data"

definition Store_Del :: "string \<Rightarrow> Store \<Rightarrow> Store" where
  "Store_Del key data = StandardMap_Remove key data"

text \<open>The \<open>switch\<close> of \<open>ExpireAt\<close>: whether the option forbids the change.\<close>

fun ExpireRefused :: "ExpireOption \<Rightarrow> int \<Rightarrow> int \<Rightarrow> bool" where
  "ExpireRefused NX expiry timestamp_ms = (expiry \<noteq> NO_EXPIRY)"
| "ExpireRefused XX expiry timestamp_ms = (expiry = NO_EXPIRY)"
| "ExpireRefused GT expiry timestamp_ms = (expiry = NO_EXPIRY \<or> expiry \<ge> timestamp_ms)"
| "ExpireRefused LT expiry timestamp_ms = (expiry \<noteq> NO_EXPIRY \<and> expiry \<le> timestamp_ms)"
| "ExpireRefused NA expiry timestamp_ms = False"

definition Store_ExpireAt :: "string \<Rightarrow> int \<Rightarrow> ExpireOption \<Rightarrow> Store \<Rightarrow> bool \<times> Store" where
  "Store_ExpireAt key timestamp_ms option data =
     (case StandardMap_LookUp data key of
        None \<Rightarrow> (False, data)
      | Some entry \<Rightarrow>
          if ExpireRefused option (entry_expiry entry) timestamp_ms then (False, data)
          else (True, StandardMap_Assign (\<lambda>entry. entry\<lparr>entry_expiry := timestamp_ms\<rparr>) key data))"

definition Store_Ttl :: "int \<Rightarrow> Store \<Rightarrow> string \<Rightarrow> fault + int" where
  "Store_Ttl now data key =
     (case StandardMap_LookUp data key of
        None \<Rightarrow> Inr (-2)
      | Some entry \<Rightarrow>
          if entry_expiry entry = NO_EXPIRY then Inr (-1)
          else let remaining_ms = entry_expiry entry - now in
            throw_if (\<not> in_int64 remaining_ms) signed_overflow
              (if remaining_ms \<le> 0 then Inr (-2) else Inr remaining_ms))"

definition Store_Persist :: "int \<Rightarrow> string \<Rightarrow> Store \<Rightarrow> bool \<times> Store" where
  "Store_Persist now key data =
     (case StandardMap_LookUp data key of
        None \<Rightarrow> (False, data)
      | Some entry \<Rightarrow>
          if entry_expiry entry = NO_EXPIRY then (False, data)
          else if entry_expiry entry < now then (False, data)
          else (True, StandardMap_Assign (\<lambda>entry. entry\<lparr>entry_expiry := NO_EXPIRY\<rparr>) key data))"

section \<open>JSON\<close>

text \<open>
  The lambda that \<open>SerialiseToJson\<close> passes to \<open>ForEach\<close>; its captured state is the output and
  the flag \<open>first\<close>.
\<close>

definition AppendEntryJson :: "string \<Rightarrow> Entry \<Rightarrow> string \<times> bool \<Rightarrow> string \<times> bool" where
  "AppendEntryJson key entry state =
     (case state of (out, first) \<Rightarrow>
       let out1 = AppendJsonString key (if first then out else out @ '','') @ '':{\"value\":'';
           out2 = (case entry_value entry of
                     Some v \<Rightarrow> AppendJsonString v out1
                   | None \<Rightarrow> out1 @ ''null'')
       in (out2 @ '',\"expiry\":'' @ to_string (entry_expiry entry) @ ''}'', False))"

definition SerialiseToJson :: "Store \<Rightarrow> string" where
  "SerialiseToJson data =
     (let (_, (out, first)) =
        StandardMap_ForEach (\<lambda>key entry state. (entry, AppendEntryJson key entry state)) data (''{'', True)
      in out @ ''}'')"

text \<open>The recurring \<open>if (pos >= size || data[pos] != c) throw ...; pos++\<close>.\<close>

definition ExpectChar :: "string \<Rightarrow> nat \<Rightarrow> char \<Rightarrow> string \<Rightarrow> nat result" where
  "ExpectChar json_data pos c message =
     throw_if (pos \<ge> length json_data \<or> json_data ! pos \<noteq> c) (invalid_argument message) (Inr (pos + 1))"

text \<open>\<open>value\<close>: the literal \<open>null\<close> or a string. \<open>std::string::compare\<close> throws behind the end.\<close>

definition ParseNullableString :: "string \<Rightarrow> nat \<Rightarrow> (string option \<times> nat) result" where
  "ParseNullableString json_data pos =
     throw_if (pos > length json_data) (out_of_range ''compare'')
       (if substr json_data pos 4 = ''null'' then Inr (None, pos + 4)
        else bindE (ParseJsonString json_data pos) (\<lambda>(s, p). Inr (Some s, p)))"

definition ParseEntryJson :: "string \<Rightarrow> nat \<Rightarrow> (Entry \<times> nat) result" where
  "ParseEntryJson json_data pos =
     bindE (ExpectChar json_data pos (CHR ''{'') ''expected '{' to open entry'') (\<lambda>pos.
     bindE (ParseJsonString json_data (SkipWhitespace json_data pos)) (\<lambda>(name, pos).
     throw_if (name \<noteq> ''value'') (invalid_argument ''expected \"value\" field'') (
     bindE (ExpectChar json_data (SkipWhitespace json_data pos) (CHR '':'') ''expected ':' after \"value\"'') (\<lambda>pos.
     bindE (ParseNullableString json_data (SkipWhitespace json_data pos)) (\<lambda>(value, pos).
     bindE (ExpectChar json_data (SkipWhitespace json_data pos) (CHR '','') ''expected ',' after \"value\"'') (\<lambda>pos.
     bindE (ParseJsonString json_data (SkipWhitespace json_data pos)) (\<lambda>(name, pos).
     throw_if (name \<noteq> ''expiry'') (invalid_argument ''expected \"expiry\" field'') (
     bindE (ExpectChar json_data (SkipWhitespace json_data pos) (CHR '':'') ''expected ':' after \"expiry\"'') (\<lambda>pos.
     bindE (ParseJsonInteger json_data (SkipWhitespace json_data pos)) (\<lambda>(expiry, pos).
     bindE (ExpectChar json_data (SkipWhitespace json_data pos) (CHR ''}'') ''expected '}' to close entry'') (\<lambda>pos.
     Inr (\<lparr>entry_expiry = expiry, entry_value = value\<rparr>, pos))))))))))))"

section \<open>Progress and errors of the reader\<close>

lemma SkipWhitespace_le: "pos \<le> length data \<Longrightarrow> SkipWhitespace data pos \<le> length data"
  by (induction data pos rule: SkipWhitespace.induct) (subst SkipWhitespace.simps, simp)

lemma ExpectChar_bounds:
  "ExpectChar json_data (SkipWhitespace json_data pos) c message = Inr p \<Longrightarrow> pos < p \<and> p \<le> length json_data"
  using SkipWhitespace_mono [of pos json_data] by (auto simp: ExpectChar_def throw_if_eq_Inr)

lemma ParseJsonString_ws_bounds:
  "ParseJsonString json_data (SkipWhitespace json_data pos) = Inr (s, p) \<Longrightarrow> pos < p \<and> p \<le> length json_data"
  using SkipWhitespace_mono [of pos json_data] by (auto dest: ParseJsonString_bounds)

lemma ParseNullableString_bounds:
  "ParseNullableString json_data (SkipWhitespace json_data pos) = Inr (v, p) \<Longrightarrow> pos \<le> p"
  using SkipWhitespace_mono [of pos json_data]
  by (auto simp: ParseNullableString_def throw_if_eq_Inr bindE_eq_Inr dest: ParseJsonString_bounds split: if_splits)

lemma ParseJsonInteger_bounds:
  "ParseJsonInteger json_data (SkipWhitespace json_data pos) = Inr (i, p) \<Longrightarrow> pos \<le> p"
  using SkipWhitespace_mono [of pos json_data]
  by (auto simp: ParseJsonInteger_def throw_if_eq_Inr split: sum.splits)

lemmas json_bounds = ExpectChar_bounds ParseJsonString_ws_bounds ParseNullableString_bounds ParseJsonInteger_bounds

lemma ParseEntryJson_bounds:
  "ParseEntryJson json_data pos = Inr (entry, p) \<Longrightarrow> pos < p \<and> p \<le> length json_data"
  by (auto simp: ParseEntryJson_def bindE_eq_Inr throw_if_eq_Inr ExpectChar_def [of _ pos] dest!: json_bounds)

text \<open>The only exception a reader throws is \<open>invalid_argument\<close>.\<close>

definition invalid_only :: "'a result \<Rightarrow> bool" where
  "invalid_only r \<longleftrightarrow> (\<forall>e. r = Inl e \<longrightarrow> (\<exists>m. e = invalid_argument m))"

lemma invalid_only_intros:
  "invalid_only (Inr x)"
  "invalid_only m \<Longrightarrow> (\<And>x. m = Inr x \<Longrightarrow> invalid_only (f x)) \<Longrightarrow> invalid_only (bindE m f)"
  "(\<not> c \<Longrightarrow> invalid_only k) \<Longrightarrow> invalid_only (throw_if c (invalid_argument s) k)"
  "(\<And>a b. y = (a, b) \<Longrightarrow> invalid_only (g a b)) \<Longrightarrow> invalid_only (case y of (a, b) \<Rightarrow> g a b)"
  by (auto simp: invalid_only_def bindE_eq_Inl throw_if_def split: if_splits prod.splits)

lemma invalid_only_ExpectChar: "invalid_only (ExpectChar json_data pos c message)"
  by (simp add: invalid_only_def ExpectChar_def throw_if_def)

lemma invalid_only_string: "invalid_only (ParseJsonString json_data pos)"
  by (simp add: invalid_only_def ParseJsonString_error)

lemma invalid_only_integer: "invalid_only (ParseJsonInteger json_data pos)"
  by (simp add: invalid_only_def ParseJsonInteger_error)

lemma invalid_only_nullable:
  "pos \<le> length json_data \<Longrightarrow> invalid_only (ParseNullableString json_data (SkipWhitespace json_data pos))"
  using SkipWhitespace_le [of pos json_data]
  by (simp add: ParseNullableString_def invalid_only_intros invalid_only_string split_beta)

lemmas invalid_only_pieces = invalid_only_ExpectChar invalid_only_string invalid_only_integer invalid_only_nullable

lemma ParseEntryJson_error: "invalid_only (ParseEntryJson json_data pos)"
  unfolding ParseEntryJson_def by (intro invalid_only_intros invalid_only_pieces) (auto dest: ExpectChar_bounds)

section \<open>Loading\<close>

text \<open>
  The \<open>while (true)\<close> loop of \<open>DeserialiseFromJson\<close>. Entries are inserted as they are read, so
  they stay in the store when a later part of the text is malformed.
\<close>

definition ParseMember :: "string \<Rightarrow> nat \<Rightarrow> (string \<times> Entry \<times> nat) result" where
  "ParseMember json_data pos =
     bindE (ParseJsonString json_data (SkipWhitespace json_data pos)) (\<lambda>(key, pos).
     bindE (ExpectChar json_data (SkipWhitespace json_data pos) (CHR '':'') ''expected ':' after key'') (\<lambda>pos.
     bindE (ParseEntryJson json_data (SkipWhitespace json_data pos)) (\<lambda>(entry, pos).
     Inr (key, entry, SkipWhitespace json_data pos))))"

lemma ParseMember_bounds:
  "ParseMember json_data pos = Inr (key, entry, p) \<Longrightarrow> pos < p \<and> p \<le> length json_data"
proof -
  assume "ParseMember json_data pos = Inr (key, entry, p)"
  then obtain p1 p2 p3 where
    "ParseJsonString json_data (SkipWhitespace json_data pos) = Inr (key, p1)"
    "ExpectChar json_data (SkipWhitespace json_data p1) (CHR '':'') ''expected ':' after key'' = Inr p2"
    "ParseEntryJson json_data (SkipWhitespace json_data p2) = Inr (entry, p3)"
    "p = SkipWhitespace json_data p3"
    by (auto simp: ParseMember_def bindE_eq_Inr)
  then show ?thesis
    using SkipWhitespace_mono [of p2 json_data] SkipWhitespace_mono [of p3 json_data]
      SkipWhitespace_le [of p3 json_data]
    by (auto dest!: json_bounds ParseEntryJson_bounds)
qed

function DeserialiseEntries :: "string \<Rightarrow> nat \<Rightarrow> Store \<Rightarrow> nat result \<times> Store" where
  "DeserialiseEntries json_data pos data =
     (case ParseMember json_data pos of
        Inl e \<Rightarrow> (Inl e, data)
      | Inr (key, entry, pos') \<Rightarrow>
          let data' = StandardMap_Insert key entry data in
          if pos' \<ge> length json_data then (Inl (invalid_argument ''unterminated object''), data')
          else if json_data ! pos' = CHR '','' then DeserialiseEntries json_data (pos' + 1) data'
          else if json_data ! pos' = CHR ''}'' then (Inr (pos' + 1), data')
          else (Inl (invalid_argument (''expected ',' or '}'' @ [CHR 0x27])), data'))"
  by pat_completeness auto
termination
  by (relation "measure (\<lambda>(json_data, pos, data). length json_data - pos)") (auto dest!: ParseMember_bounds)

declare DeserialiseEntries.simps [simp del]

definition DeserialiseFromJson :: "string \<Rightarrow> Store \<Rightarrow> unit result \<times> Store" where
  "DeserialiseFromJson json_data data =
     (case ExpectChar json_data (SkipWhitespace json_data 0) (CHR ''{'') ''json data did not begin with \"{\"'' of
        Inl e \<Rightarrow> (Inl e, data)
      | Inr pos \<Rightarrow>
          let pos1 = SkipWhitespace json_data pos;
              (result, data') = (if pos1 < length json_data \<and> json_data ! pos1 = CHR ''}''
                then (Inr (pos1 + 1), data) else DeserialiseEntries json_data pos1 data)
          in (bindE result (\<lambda>pos.
                throw_if (SkipWhitespace json_data pos \<noteq> length json_data)
                  (invalid_argument ''trailing data after json object'') (Inr ())), data'))"

section \<open>Reading what was written\<close>

text \<open>\<open>cursor json pos s\<close>: at position \<open>pos\<close> the rest of the text is \<open>s\<close>.\<close>

definition cursor :: "string \<Rightarrow> nat \<Rightarrow> string \<Rightarrow> bool" where
  "cursor json pos s \<longleftrightarrow> (\<exists>pre. json = pre @ s \<and> pos = length pre)"

lemma cursor_start: "cursor json 0 json"
  by (simp add: cursor_def)

lemma cursor_end: "cursor json pos [] \<longleftrightarrow> pos = length json"
  by (auto simp: cursor_def)

lemma cursor_here:
  assumes "cursor json pos (c # s)"
  shows "pos < length json" and "json ! pos = c" and "cursor json (pos + 1) s"
    and "\<not> is_json_space c \<Longrightarrow> SkipWhitespace json pos = pos"
    and "ExpectChar json pos c message = Inr (pos + 1)"
proof -
  obtain pre where pre: "json = pre @ c # s" "pos = length pre" using assms by (auto simp: cursor_def)
  then show "pos < length json" and "json ! pos = c" and "ExpectChar json pos c message = Inr (pos + 1)"
    by (simp_all add: ExpectChar_def)
  show "cursor json (pos + 1) s" unfolding cursor_def by (rule exI [of _ "pre @ [c]"]) (simp add: pre)
  show "\<not> is_json_space c \<Longrightarrow> SkipWhitespace json pos = pos"
    by (rule SkipWhitespace_none) (simp add: pre)
qed

lemma cursor_string:
  assumes "cursor json pos (AppendJsonString v [] @ s)"
  obtains p where "ParseJsonString json pos = Inr (v, p)" and "SkipWhitespace json pos = pos"
    and "ParseNullableString json pos = Inr (Some v, p)" and "cursor json p s"
proof -
  obtain pre where pre: "json = pre @ AppendJsonString v [] @ s" "pos = length pre"
    using assms by (auto simp: cursor_def)
  let ?p = "pos + length (AppendJsonString v [])"
  have "ParseJsonString json pos = Inr (v, ?p)"
    using ParseJsonString_at [of pre v "[]" s] by (simp add: pre)
  moreover have "cursor json ?p s"
    unfolding cursor_def by (rule exI [of _ "pre @ AppendJsonString v []"]) (simp add: pre)
  moreover have "json = pre @ DQ # concat (map EscapeJsonChar v) @ [DQ] @ s"
    by (simp add: pre AppendJsonString_def)
  then have "SkipWhitespace json pos = pos" and "substr json pos 4 \<noteq> ''null''" and "pos \<le> length json"
    by (simp_all add: pre(2) SkipWhitespace_none is_json_space_def substr_def)
  ultimately show thesis by (intro that [of ?p]) (simp_all add: ParseNullableString_def)
qed

lemma cursor_null:
  assumes "cursor json pos (''null'' @ s)"
  shows "ParseNullableString json pos = Inr (None, pos + 4)" and "cursor json (pos + 4) s"
    and "SkipWhitespace json pos = pos"
proof -
  obtain pre where pre: "json = pre @ ''null'' @ s" "pos = length pre" using assms by (auto simp: cursor_def)
  then show "ParseNullableString json pos = Inr (None, pos + 4)"
    by (simp add: ParseNullableString_def substr_def)
  show "cursor json (pos + 4) s" unfolding cursor_def by (rule exI [of _ "pre @ ''null''"]) (simp add: pre)
  show "SkipWhitespace json pos = pos" by (rule SkipWhitespace_none) (simp add: pre is_json_space_def)
qed

lemma to_string_no_space: "c \<in> set (to_string i) \<Longrightarrow> \<not> is_json_space c"
proof -
  assume "c \<in> set (to_string i)"
  then have "c = CHR ''-'' \<or> is_digit c"
    using dec_string_is_digit by (auto simp: to_string_def list_all_iff split: if_splits)
  then show ?thesis by (auto simp: is_json_space_def is_digit_def)
qed

lemma cursor_integer:
  assumes "cursor json pos (to_string i @ s)" and "in_int64 i" and "takeWhile is_digit s = []"
  obtains p where "ParseJsonInteger json pos = Inr (i, p)" and "SkipWhitespace json pos = pos" and "cursor json p s"
proof -
  obtain pre where pre: "json = pre @ to_string i @ s" "pos = length pre" using assms(1) by (auto simp: cursor_def)
  obtain c cs where c: "to_string i = c # cs" by (cases "to_string i") (auto simp: to_string_def split: if_splits)
  have "\<not> is_json_space c" using to_string_no_space [of c i] c by simp
  then have "SkipWhitespace json pos = pos" by (intro SkipWhitespace_none) (simp add: pre c)
  moreover have "cursor json (pos + length (to_string i)) s"
    unfolding cursor_def by (rule exI [of _ "pre @ to_string i"]) (simp add: pre)
  ultimately show thesis
    using ParseJsonInteger_at [OF assms(2,3), of pre] by (intro that) (simp_all add: pre)
qed

text \<open>The text of an entry and of a member of the object, as \<open>AppendEntryJson\<close> writes them.\<close>

definition entry_text :: "Entry \<Rightarrow> string" where
  "entry_text entry = ''{\"value\":'' @
     (case entry_value entry of Some v \<Rightarrow> AppendJsonString v [] | None \<Rightarrow> ''null'') @
     '',\"expiry\":'' @ to_string (entry_expiry entry) @ ''}''"

definition member_text :: "string \<times> Entry \<Rightarrow> string" where
  "member_text = (\<lambda>(key, entry). AppendJsonString key [] @ '':'' @ entry_text entry)"

fun members_text :: "(string \<times> Entry) list \<Rightarrow> string" where
  "members_text [] = []"
| "members_text [e] = member_text e"
| "members_text (e # es) = member_text e @ '','' @ members_text es"

lemma AppendEntryJson_text:
  "AppendEntryJson key entry (out, first) = (out @ (if first then [] else '','') @ member_text (key, entry), False)"
  by (simp add: AppendEntryJson_def member_text_def entry_text_def AppendJsonString_def Let_def
      split: option.split)

lemma fold_AppendEntryJson:
  "fold (\<lambda>(key, entry). AppendEntryJson key entry) es (out, False)
     = (out @ concat (map (\<lambda>e. '','' @ member_text e) es), False)"
  by (induction es arbitrary: out) (auto simp: AppendEntryJson_text)

lemma members_text_concat: "members_text (e # es) = member_text e @ concat (map (\<lambda>e. '','' @ member_text e) es)"
  by (induction es arbitrary: e) auto

lemma SerialiseToJson_text: "SerialiseToJson data = ''{'' @ members_text data @ ''}''"
proof (cases data)
  case (Cons e es)
  obtain key entry where e: "e = (key, entry)" by (cases e)
  show ?thesis
    unfolding Cons members_text_concat e
    by (simp add: SerialiseToJson_def StandardMap_ForEach_def for_each_read_only AppendEntryJson_text
        fold_AppendEntryJson)
qed (simp add: SerialiseToJson_def StandardMap_ForEach_def)

lemma field_name_text: "AppendJsonString ''value'' [] = ''\"value\"''" "AppendJsonString ''expiry'' [] = ''\"expiry\"''"
  by (simp_all add: AppendJsonString_def EscapeJsonChar_def)

lemma cursor_entry:
  assumes "cursor json pos (entry_text entry @ s)" and "in_int64 (entry_expiry entry)"
  obtains p where "ParseEntryJson json pos = Inr (entry, p)" and "SkipWhitespace json pos = pos" and "cursor json p s"
proof -
  note space = is_json_space_def
  let ?v = "case entry_value entry of Some v \<Rightarrow> AppendJsonString v [] | None \<Rightarrow> ''null''"
  have "cursor json pos (CHR ''{'' # AppendJsonString ''value'' [] @ CHR '':'' # ?v @ CHR '','' #
      AppendJsonString ''expiry'' [] @ CHR '':'' # to_string (entry_expiry entry) @ CHR ''}'' # s)"
    using assms(1) by (simp add: entry_text_def field_name_text)
  note h0 = cursor_here [OF this]
  obtain p1 where h1: "ParseJsonString json (pos + 1) = Inr (''value'', p1)" "SkipWhitespace json (pos + 1) = pos + 1"
    "cursor json p1 (CHR '':'' # ?v @ CHR '','' # AppendJsonString ''expiry'' [] @ CHR '':'' #
      to_string (entry_expiry entry) @ CHR ''}'' # s)" by (rule cursor_string [OF h0(3)])
  note h2 = cursor_here [OF h1(3)]
  obtain p3 where h3: "ParseNullableString json (p1 + 1) = Inr (entry_value entry, p3)"
    "SkipWhitespace json (p1 + 1) = p1 + 1" "cursor json p3 (CHR '','' # AppendJsonString ''expiry'' [] @ CHR '':'' #
      to_string (entry_expiry entry) @ CHR ''}'' # s)"
  proof (cases "entry_value entry")
    case None
    with h2(3) cursor_null [of json "p1 + 1"] that [of "p1 + 1 + 4"] show thesis by simp
  next
    case (Some v)
    with h2(3) have "cursor json (p1 + 1) (AppendJsonString v [] @ CHR '','' # AppendJsonString ''expiry'' [] @
      CHR '':'' # to_string (entry_expiry entry) @ CHR ''}'' # s)" by simp
    then show thesis by (rule cursor_string) (use Some that in simp)
  qed
  note h4 = cursor_here [OF h3(3)]
  obtain p5 where h5: "ParseJsonString json (p3 + 1) = Inr (''expiry'', p5)" "SkipWhitespace json (p3 + 1) = p3 + 1"
    "cursor json p5 (CHR '':'' # to_string (entry_expiry entry) @ CHR ''}'' # s)"
    by (rule cursor_string [OF h4(3)])
  note h6 = cursor_here [OF h5(3)]
  obtain p7 where h7: "ParseJsonInteger json (p5 + 1) = Inr (entry_expiry entry, p7)"
    "SkipWhitespace json (p5 + 1) = p5 + 1" "cursor json p7 (CHR ''}'' # s)"
    by (rule cursor_integer [OF h6(3) assms(2)]) (simp add: is_digit_def)
  note h8 = cursor_here [OF h7(3)]
  have "ParseEntryJson json pos = Inr (entry, p7 + 1)"
    by (simp add: ParseEntryJson_def space h0(5) h1 h2(4,5) h3 h4(4,5) h5 h6(4,5) h7 h8(4,5) del: One_nat_def add_Suc_right)
  with h8(3) h0(4) show thesis by (intro that) (simp_all add: space)
qed

lemma cursor_member:
  assumes "cursor json pos (member_text (key, entry) @ c # s)" and "in_int64 (entry_expiry entry)"
    and "\<not> is_json_space c"
  obtains p where "ParseMember json pos = Inr (key, entry, p)" and "cursor json p (c # s)"
proof -
  have "cursor json pos (AppendJsonString key [] @ CHR '':'' # entry_text entry @ c # s)"
    using assms(1) by (simp add: member_text_def)
  then obtain p1 where h1: "ParseJsonString json pos = Inr (key, p1)" "SkipWhitespace json pos = pos"
    "cursor json p1 (CHR '':'' # entry_text entry @ c # s)" by (rule cursor_string)
  note h2 = cursor_here [OF h1(3)]
  obtain p3 where h3: "ParseEntryJson json (p1 + 1) = Inr (entry, p3)" "SkipWhitespace json (p1 + 1) = p1 + 1"
    "cursor json p3 (c # s)" by (rule cursor_entry [OF h2(3) assms(2)])
  note h4 = cursor_here [OF h3(3)]
  have "ParseMember json pos = Inr (key, entry, p3)"
    using assms(3) by (simp add: ParseMember_def is_json_space_def [of "CHR '':''"] h1 h2(4,5) h3 h4(4)
        del: One_nat_def add_Suc_right)
  with h3(3) show thesis by (intro that)
qed

lemma DeserialiseEntries_members:
  assumes "es \<noteq> []" and "\<forall>(key, entry) \<in> set es. in_int64 (entry_expiry entry)"
    and "cursor json pos (members_text es @ CHR ''}'' # s)"
  obtains p where "DeserialiseEntries json pos data
      = (Inr p, fold (\<lambda>(key, entry). StandardMap_Insert key entry) es data)" and "cursor json p s"
  using assms
proof (induction es arbitrary: pos data thesis rule: members_text.induct)
  case (2 e)
  obtain key entry where e: "e = (key, entry)" by (cases e)
  have "cursor json pos (member_text (key, entry) @ CHR ''}'' # s)" using "2.prems"(4) by (simp add: e)
  then obtain p where p: "ParseMember json pos = Inr (key, entry, p)" "cursor json p (CHR ''}'' # s)"
    by (rule cursor_member) (use "2.prems"(3) e in \<open>auto simp: is_json_space_def\<close>)
  with "2.prems"(1) [of "p + 1"] cursor_here [OF p(2)] show ?case
    by (simp add: DeserialiseEntries.simps e)
next
  case (3 e e' es)
  obtain key entry where e: "e = (key, entry)" by (cases e)
  have "cursor json pos (member_text (key, entry) @ CHR '','' # members_text (e' # es) @ CHR ''}'' # s)"
    using "3.prems"(4) by (simp add: e)
  then obtain p where p: "ParseMember json pos = Inr (key, entry, p)"
    "cursor json p (CHR '','' # members_text (e' # es) @ CHR ''}'' # s)"
    by (rule cursor_member) (use "3.prems"(3) e in \<open>auto simp: is_json_space_def\<close>)
  note h = cursor_here [OF p(2)]
  obtain q where q: "DeserialiseEntries json (p + 1) (StandardMap_Insert key entry data)
      = (Inr q, fold (\<lambda>(key, entry). StandardMap_Insert key entry) (e' # es) (StandardMap_Insert key entry data))"
    "cursor json q s"
    by (rule "3.IH" [OF _ _ _ h(3)]) (use "3.prems"(3) in auto)
  have "DeserialiseEntries json pos data = DeserialiseEntries json (p + 1) (StandardMap_Insert key entry data)"
    using h(1,2) p(1) by (subst DeserialiseEntries.simps) simp
  with q show ?case using "3.prems"(1) [of q] by (simp add: e)
qed simp

lemma DeserialiseFromJson_Serialise:
  assumes "\<forall>(key, entry) \<in> set es. in_int64 (entry_expiry entry)"
  shows "DeserialiseFromJson (SerialiseToJson es) data
    = (Inr (), fold (\<lambda>(key, entry). StandardMap_Insert key entry) es data)"
proof -
  let ?json = "SerialiseToJson es"
  have "cursor ?json 0 (CHR ''{'' # members_text es @ [CHR ''}''])"
    using cursor_start [of ?json] by (simp add: SerialiseToJson_text)
  note h = cursor_here [OF this]
  show ?thesis
  proof (cases "es = []")
    case True
    then show ?thesis
      by (simp add: DeserialiseFromJson_def SerialiseToJson_text SkipWhitespace.simps is_json_space_def ExpectChar_def)
  next
    case False
    then obtain p where p: "DeserialiseEntries ?json (0 + 1) data
        = (Inr p, fold (\<lambda>(key, entry). StandardMap_Insert key entry) es data)" "cursor ?json p []"
      by (rule DeserialiseEntries_members [OF _ assms h(3)])
    obtain key entry es' where es: "es = (key, entry) # es'" using False by (metis list.exhaust prod.exhaust)
    have "cursor ?json 1 (DQ # concat (map EscapeJsonChar key) @ DQ # '':'' @ entry_text entry @
        concat (map (\<lambda>e. '','' @ member_text e) es') @ ''}'')"
      using h(3) by (simp only: es members_text_concat member_text_def) (simp add: AppendJsonString_def)
    note h1 = cursor_here [OF this]
    have "SkipWhitespace ?json p = length ?json"
      using p(2) SkipWhitespace_none [of p ?json] by (simp add: cursor_end)
    with p h(4,5) h1(2,4) show ?thesis by (simp add: DeserialiseFromJson_def is_json_space_def)
  qed
qed

section \<open>What a client of the store sees\<close>

text \<open>
  The abstract store at a time \<open>now\<close>: the keys that are not expired, each with its value and
  the time it expires at (\<open>None\<close>: never).
\<close>

type_synonym view = "string \<rightharpoonup> string option \<times> int option"

definition live :: "int \<Rightarrow> Entry \<Rightarrow> bool" where
  "live now entry \<longleftrightarrow> entry_expiry entry = NO_EXPIRY \<or> now \<le> entry_expiry entry"

definition deadline :: "Entry \<Rightarrow> int option" where
  "deadline entry = (if entry_expiry entry = NO_EXPIRY then None else Some (entry_expiry entry))"

definition Store_view :: "int \<Rightarrow> Store \<Rightarrow> view" where
  "Store_view now data key =
     (case StandardMap_LookUp data key of
        None \<Rightarrow> None
      | Some entry \<Rightarrow> if live now entry then Some (entry_value entry, deadline entry) else None)"

text \<open>Which deadlines an option lets a new one replace; no deadline is infinity.\<close>

fun allows :: "ExpireOption \<Rightarrow> int option \<Rightarrow> int \<Rightarrow> bool" where
  "allows NX current timestamp = (current = None)"
| "allows XX current timestamp = (current \<noteq> None)"
| "allows GT current timestamp = (case current of None \<Rightarrow> False | Some c \<Rightarrow> c < timestamp)"
| "allows LT current timestamp = (case current of None \<Rightarrow> True | Some c \<Rightarrow> timestamp < c)"
| "allows NA current timestamp = True"

definition Store_invar :: "Store \<Rightarrow> bool" where
  "Store_invar data \<longleftrightarrow> StandardMap_invar data \<and>
     (\<forall>key entry. StandardMap_LookUp data key = Some entry \<longrightarrow> in_int64 (entry_expiry entry))"

lemmas Store_ops = Store_Get_def Store_Set_def Store_Del_def Store_ExpireAt_def Store_Ttl_def Store_Persist_def

lemma ExpireRefused_allows: "ExpireRefused option (entry_expiry entry) ts = (\<not> allows option (deadline entry) ts)"
  by (cases "option") (auto simp: deadline_def)

lemma int64_NO_EXPIRY: "in_int64 NO_EXPIRY"
  by (simp add: NO_EXPIRY_def int64_defs)

lemma Store_ops_invar:
  assumes "Store_invar data"
  shows "Store_invar (Store_Set key v data)" and "Store_invar (Store_Del key data)"
    and "in_int64 ts \<Longrightarrow> Store_invar (snd (Store_ExpireAt key ts option data))"
    and "Store_invar (snd (Store_Persist now key data))"
  using assms int64_NO_EXPIRY
  by (auto simp: Store_invar_def Store_ops std.insert_invar std.remove_invar std.assign_invar
      std.lookup_insert std.lookup_remove std.lookup_assign split: option.splits if_splits)

lemma ParseJsonInteger_in_int64: "ParseJsonInteger json pos = Inr (i, p) \<Longrightarrow> in_int64 i"
  by (auto simp: ParseJsonInteger_def throw_if_eq_Inr dest: from_chars_in_int64 split: sum.splits)

lemma DeserialiseEntries_invar:
  "Store_invar data \<Longrightarrow> Store_invar (snd (DeserialiseEntries json pos data))"
proof (induction json pos data rule: DeserialiseEntries.induct)
  case (1 json pos data)
  show ?case
  proof (cases "ParseMember json pos")
    case (Inl e)
    with 1 show ?thesis by (subst DeserialiseEntries.simps) simp
  next
    case (Inr r)
    obtain key entry p where r: "r = (key, entry, p)" by (cases r)
    have "in_int64 (entry_expiry entry)"
      using Inr r
      by (auto simp: ParseMember_def ParseEntryJson_def bindE_eq_Inr throw_if_eq_Inr
          dest: ParseJsonInteger_in_int64)
    then have "Store_invar (StandardMap_Insert key entry data)"
      using "1.prems" by (simp add: Store_invar_def std.insert_invar std.lookup_insert)
    with Inr r 1 show ?thesis by (subst DeserialiseEntries.simps) (simp add: Let_def)
  qed
qed

lemma DeserialiseFromJson_invar: "Store_invar data \<Longrightarrow> Store_invar (snd (DeserialiseFromJson json data))"
  using DeserialiseEntries_invar by (auto simp: DeserialiseFromJson_def split_beta Let_def split: sum.split)

lemma Store_Ttl_view:
  assumes "in_int64 (deadline_of - now)" and "Store_view now data key = Some (v, Some deadline_of)"
  shows "Store_Ttl now data key = Inr (if deadline_of = now then -2 else deadline_of - now)"
  using assms by (auto simp: Store_Ttl_def Store_view_def live_def deadline_def split: option.splits if_splits)

section \<open>Properties\<close>

definition sample_store :: Store where
  "sample_store = [(''a'', \<lparr>entry_expiry = 50, entry_value = Some ''x''\<rparr>),
     (''b'', \<lparr>entry_expiry = NO_EXPIRY, entry_value = None\<rparr>)]"

lemmas sample_simps = sample_store_def StandardMap_LookUp_def StandardMap_invar_def NO_EXPIRY_def

text \<open>
  \<^bold>\<open>C13\<close>. The store implements the abstract store at every time: \<open>Get\<close> returns the value of an
  unexpired key, \<open>Set\<close> binds the key without a deadline, \<open>Del\<close> unbinds it, \<open>Persist\<close> succeeds
  exactly on an unexpired key with a deadline and removes the deadline; other keys are not
  affected, and as time passes keys only disappear.
\<close>

theorem store_refines_view:
  assumes "StandardMap_invar data" and "now \<le> later"
  shows "Store_Get now data key = (case Store_view now data key of None \<Rightarrow> None | Some (v, _) \<Rightarrow> v)
    \<and> Store_view now (Store_Set key v data) = (Store_view now data)(key \<mapsto> (v, None))
    \<and> Store_view now (Store_Del key data) = (Store_view now data)(key := None)
    \<and> (case Store_view now data key of
         Some (v, Some _) \<Rightarrow> fst (Store_Persist now key data) \<and>
           Store_view now (snd (Store_Persist now key data)) = (Store_view now data)(key \<mapsto> (v, None))
       | _ \<Rightarrow> Store_Persist now key data = (False, data))
    \<and> Store_view later data \<subseteq>\<^sub>m Store_view now data"
  using assms
  by (auto simp: Store_view_def Store_ops fun_eq_iff live_def deadline_def map_le_def std.lookup_insert
      std.lookup_remove std.lookup_assign split: option.splits if_splits)

theorem store_refines_view_witness:
  "Store_Get 40 sample_store ''a'' = Some ''x'' \<and> Store_view 60 sample_store \<subseteq>\<^sub>m Store_view 40 sample_store
   \<and> fst (Store_Persist 40 ''a'' sample_store)"
  using store_refines_view [of sample_store 40 60 "''a''" None]
  by (simp add: sample_simps Store_view_def live_def deadline_def)

text \<open>
  \<^bold>\<open>C14\<close>. \<open>ExpireAt\<close> on every key and at every time. If the map has no entry for the key it fails
  and changes nothing. If it has one, expired or not, it succeeds exactly when the option allows
  the new deadline in place of the stored one, no deadline counting as infinity. Then the key
  has its old value up to and including the new deadline and is gone afterwards, also when it
  had expired before; the deadline -1 makes it permanent. When it fails, and for all other keys,
  nothing changes.
\<close>

theorem store_expire_at:
  assumes "StandardMap_invar data"
  shows "case StandardMap_LookUp data key of
      None \<Rightarrow> Store_ExpireAt key timestamp option data = (False, data)
    | Some entry \<Rightarrow>
        fst (Store_ExpireAt key timestamp option data) = allows option (deadline entry) timestamp
        \<and> Store_view now (snd (Store_ExpireAt key timestamp option data)) =
            (if \<not> allows option (deadline entry) timestamp then Store_view now data
             else (Store_view now data)(key := if timestamp = -1 then Some (entry_value entry, None)
               else if now \<le> timestamp then Some (entry_value entry, Some timestamp) else None))"
proof (cases "StandardMap_LookUp data key")
  case None
  then show ?thesis by (simp add: Store_ExpireAt_def)
next
  case (Some entry)
  have r: "Store_ExpireAt key timestamp option data =
      (if allows option (deadline entry) timestamp
       then (True, StandardMap_Assign (\<lambda>entry. entry\<lparr>entry_expiry := timestamp\<rparr>) key data) else (False, data))"
    by (simp add: Store_ExpireAt_def Some ExpireRefused_allows)
  have "Store_view now (StandardMap_Assign (\<lambda>entry. entry\<lparr>entry_expiry := timestamp\<rparr>) key data)
      = (Store_view now data)(key := if timestamp = -1 then Some (entry_value entry, None)
          else if now \<le> timestamp then Some (entry_value entry, Some timestamp) else None)"
    by (auto simp: Store_view_def fun_eq_iff std.lookup_assign [OF assms] Some live_def deadline_def NO_EXPIRY_def)
  with r Some show ?thesis by simp
qed

theorem store_expire_at_witness:
  "fst (Store_ExpireAt ''a'' 70 GT sample_store)
   \<and> Store_view 60 (snd (Store_ExpireAt ''a'' 70 GT sample_store)) ''a'' = Some (Some ''x'', Some 70)"
  using store_expire_at [of sample_store "''a''" 70 GT 60]
  by (simp add: sample_simps deadline_def)

text \<open>
  \<^bold>\<open>C15\<close>. \<open>Ttl\<close> in a store whose deadlines are 64-bit numbers, at a time that is a non-negative 64-bit
  number. A key without a deadline gives -1, an unexpired key the remaining time, with one
  exception: exactly at its deadline a key is reported as missing (-2) although \<open>Get\<close> still returns
  its value. An absent or expired key gives -2, unless the deadline lies so far in the past that
  the subtraction overflows, which is undefined behaviour.
\<close>

theorem store_ttl:
  assumes "Store_invar data" and "0 \<le> now" and "in_int64 now"
  shows "Store_Ttl now data key = (case Store_view now data key of
        Some (_, None) \<Rightarrow> Inr (-1)
      | Some (_, Some d) \<Rightarrow> Inr (if d = now then -2 else d - now)
      | None \<Rightarrow> (case StandardMap_LookUp data key of
            Some entry \<Rightarrow> if entry_expiry entry < INT64_MIN + now then Inl signed_overflow else Inr (-2)
          | None \<Rightarrow> Inr (-2)))
    \<and> (case Store_view now data key of
        Some (v, Some d) \<Rightarrow> Store_Get now data key = v
      | _ \<Rightarrow> True)"
proof (cases "StandardMap_LookUp data key")
  case None
  then show ?thesis by (simp add: Store_Ttl_def Store_view_def)
next
  case (Some entry)
  have e: "in_int64 (entry_expiry entry)" using assms(1) Some by (simp add: Store_invar_def)
  have "in_int64 (entry_expiry entry - now) \<longleftrightarrow> INT64_MIN + now \<le> entry_expiry entry"
    using e assms(2,3) by (auto simp: int64_defs)
  moreover have "entry_expiry entry - now \<ge> 0 \<Longrightarrow> INT64_MIN + now \<le> entry_expiry entry" by (simp add: int64_defs)
  ultimately show ?thesis
    using Some by (auto simp: Store_Ttl_def Store_Get_def Store_view_def live_def deadline_def Let_def)
qed

theorem store_ttl_witness:
  "Store_Ttl 20 sample_store ''a'' = Inr 30 \<and> Store_Ttl 50 sample_store ''a'' = Inr (-2)
   \<and> Store_Get 50 sample_store ''a'' = Some ''x''"
proof -
  have i: "Store_invar sample_store" by (auto simp: Store_invar_def sample_simps int64_defs split: if_splits)
  show ?thesis using store_ttl [OF i, of 20 "''a''"] store_ttl [OF i, of 50 "''a''"]
    by (simp add: sample_simps Store_view_def live_def deadline_def int64_defs)
qed

text \<open>
  \<open>ExpireAt\<close> does not test whether the key has expired: on a key that \<open>Get\<close> no longer
  finds it succeeds, and the key is back with its old value until the new deadline.
\<close>

lemma store_expire_revives_expired_key:
  assumes "StandardMap_invar data" and "StandardMap_LookUp data key = Some entry" and "\<not> live now entry"
    and "timestamp \<noteq> NO_EXPIRY" and "now \<le> timestamp"
  shows "Store_view now data key = None \<and> Store_Get now data key = None
    \<and> fst (Store_ExpireAt key timestamp NA data)
    \<and> Store_Get now (snd (Store_ExpireAt key timestamp NA data)) key = entry_value entry"
  using assms
  by (auto simp: Store_view_def Store_Get_def Store_ExpireAt_def live_def std.lookup_assign)

text \<open>
  The timestamp -1 is taken for \<open>NO_EXPIRY\<close>: setting it as the deadline, a time in the past,
  makes the key permanent instead of expired.
\<close>

lemma store_expire_at_minus_one:
  assumes "StandardMap_invar data" and "Store_view now data key = Some (v, current)"
  shows "Store_ExpireAt key (-1) NA data = (True, snd (Store_ExpireAt key (-1) NA data))
    \<and> Store_view later (snd (Store_ExpireAt key (-1) NA data)) key = Some (v, None)"
  using assms
  by (auto simp: Store_view_def Store_ExpireAt_def live_def deadline_def std.lookup_assign NO_EXPIRY_def
      split: option.splits if_splits)

text \<open>
  \<^bold>\<open>C16\<close>. Saving and loading: reading the JSON text of a store into any store succeeds, restores
  every entry of the saved store with its value and expiry, and leaves the other keys alone.
  In particular a restart (loading into the empty store) gives the saved store back.
\<close>

theorem store_json_round_trip:
  assumes "Store_invar data" and "StandardMap_invar data0"
  shows "\<exists>data1. DeserialiseFromJson (SerialiseToJson data) data0 = (Inr (), data1)
    \<and> StandardMap_invar data1
    \<and> StandardMap_LookUp data1 = StandardMap_LookUp data0 ++ StandardMap_LookUp data"
proof -
  have d: "distinct (map fst data)" using assms(1) by (simp add: Store_invar_def StandardMap_invar_def)
  have "\<forall>(key, entry) \<in> set data. in_int64 (entry_expiry entry)"
    using assms(1) map_of_eq_Some_iff [OF d] by (auto simp: Store_invar_def StandardMap_LookUp_def)
  note r = DeserialiseFromJson_Serialise [OF this, of data0]
  have "StandardMap_LookUp data = map_of data" by (simp add: StandardMap_LookUp_def fun_eq_iff)
  with r std.fold_insert [OF assms(2), of data] map_of_rev [OF d] show ?thesis by auto
qed

theorem store_json_round_trip_witness:
  "\<exists>data1. DeserialiseFromJson (SerialiseToJson sample_store) [] = (Inr (), data1)
    \<and> StandardMap_invar data1 \<and> StandardMap_LookUp data1 = StandardMap_LookUp [] ++ StandardMap_LookUp sample_store"
  by (rule store_json_round_trip) (auto simp: Store_invar_def sample_simps int64_defs split: if_splits)

text \<open>
  \<^bold>\<open>C17\<close>. Whatever the text, loading keeps the store well formed, and the only exception it throws
  is the documented \<open>invalid_argument\<close>.
\<close>

theorem store_json_safe:
  assumes "Store_invar data"
  shows "Store_invar (snd (DeserialiseFromJson json data)) \<and>
    (case fst (DeserialiseFromJson json data) of Inr _ \<Rightarrow> True | Inl e \<Rightarrow> (\<exists>m. e = invalid_argument m))"
proof -
  have "invalid_only (fst (DeserialiseEntries json pos data))" for pos
  proof (induction json pos data rule: DeserialiseEntries.induct)
    case (1 json pos data)
    have "invalid_only (ParseMember json pos)"
      unfolding ParseMember_def
      by (intro invalid_only_intros invalid_only_pieces ParseEntryJson_error)
    with 1 show ?case
      by (subst DeserialiseEntries.simps) (auto simp: invalid_only_def Let_def split: sum.split)
  qed
  then have "invalid_only (fst (DeserialiseFromJson json data))"
    using invalid_only_pieces(1) [of json "SkipWhitespace json 0" "CHR ''{''" "''json data did not begin with \"{\"''"]
    by (auto simp: DeserialiseFromJson_def split_beta Let_def invalid_only_intros split: sum.split)
      (auto simp: invalid_only_def)
  with DeserialiseFromJson_invar [OF assms, of json] show ?thesis
    by (auto simp: invalid_only_def split: sum.split)
qed

theorem store_json_safe_witness:
  "Store_invar (snd (DeserialiseFromJson ''{x'' []))"
  using store_json_safe [of "[]" "''{x''"] by (simp add: Store_invar_def StandardMap_defs)

end
