(* ===== verification/Request_Handlers.thy ===== *)
theory Request_Handlers
  imports Resp_Value Store
begin

text \<open>
  The request handlers of \<open>v2/src/server/handler\<close> . A handler is a value of
  the datatype \<open>Handler\<close>, one constructor per class with the class's parameters; \<open>IsHandler\<close> and
  \<open>Handle\<close> are the virtual methods. \<open>Handle\<close> takes the time and the store and returns the
  reply and the new store. Reading an empty optional, an index behind the end of the
  arguments and an overflow of \<open>int64_t\<close> are faults of the model.
\<close>

section \<open>Commands\<close>

record Command =
  cmd_name :: string
  cmd_args :: "string option list"

text \<open>The loop over the arguments: all of them must be bulk strings.\<close>

fun ParseArgs :: "RespValue list \<Rightarrow> string option list option" where
  "ParseArgs [] = Some []"
| "ParseArgs (v # vs) =
     (case v of
        RespBulkString arg \<Rightarrow> (case ParseArgs vs of None \<Rightarrow> None | Some args \<Rightarrow> Some (arg # args))
      | _ \<Rightarrow> None)"

fun ParseCommand :: "RespValue \<Rightarrow> Command option" where
  "ParseCommand (RespArray (RespBulkString (Some name) # rest)) =
     (if name = [] then None
      else case ParseArgs rest of
        None \<Rightarrow> None
      | Some args \<Rightarrow> Some \<lparr>cmd_name = name, cmd_args = args\<rparr>)"
| "ParseCommand _ = None"

definition deref :: "'a option \<Rightarrow> fault + 'a" where
  "deref x = (case x of None \<Rightarrow> Inl nullopt_deref | Some a \<Rightarrow> Inr a)"

definition arg :: "Command \<Rightarrow> nat \<Rightarrow> fault + string option" where
  "arg command i = throw_if (i \<ge> length (cmd_args command)) vector_index (Inr (cmd_args command ! i))"

lemma deref_Some [simp]: "deref (Some a) = Inr a"
  by (simp add: deref_def)

text \<open>\<open>args[i].has_value() && !args[i]->empty()\<close>.\<close>

definition nonempty :: "string option \<Rightarrow> bool" where
  "nonempty a = (case a of None \<Rightarrow> False | Some s \<Rightarrow> s \<noteq> [])"

section \<open>Handlers\<close>

datatype Handler =
    GetRequestHandler
  | SetRequestHandler
  | DelRequestHandler
  | ExpireRequestHandler (handler_name: string) (time_conversion_factor: int) (relative_to_now: bool)
  | TtlRequestHandler (handler_name: string) (time_conversion_factor: int)
  | PersistRequestHandler
  | EchoRequestHandler
  | PingRequestHandler
  | HelloRequestHandler
  | UnknownRequestHandler

text \<open>Shared shape of the tests: the name, one number of arguments and a non-empty key.\<close>

definition is_key_command :: "string \<Rightarrow> nat \<Rightarrow> RespValue \<Rightarrow> bool" where
  "is_key_command name n request =
     (case ParseCommand request of
        None \<Rightarrow> False
      | Some command \<Rightarrow> cmd_name command = name \<and> length (cmd_args command) = n \<and>
          nonempty (cmd_args command ! 0))"

definition Get_IsHandler :: "RespValue \<Rightarrow> bool" where
  "Get_IsHandler request = is_key_command ''GET'' 1 request"

definition Get_Handle :: "int \<Rightarrow> RespValue \<Rightarrow> Store \<Rightarrow> fault + (RespValue \<times> Store)" where
  "Get_Handle now request data =
     bindE (deref (ParseCommand request)) (\<lambda>command.
     bindE (arg command 0) (\<lambda>a. bindE (deref a) (\<lambda>key.
       case Store_Get now data key of
         None \<Rightarrow> Inr (NullBulkString, data)
       | Some found \<Rightarrow> Inr (BulkString (Some found), data))))"

definition Set_IsHandler :: "RespValue \<Rightarrow> bool" where
  "Set_IsHandler request = is_key_command ''SET'' 2 request"

definition Set_Handle :: "RespValue \<Rightarrow> Store \<Rightarrow> fault + (RespValue \<times> Store)" where
  "Set_Handle request data =
     bindE (deref (ParseCommand request)) (\<lambda>command.
     bindE (arg command 0) (\<lambda>a. bindE (deref a) (\<lambda>key.
     bindE (arg command 1) (\<lambda>value.
       Inr (SimpleString ''OK'', Store_Set key value data)))))"

definition Del_IsHandler :: "RespValue \<Rightarrow> bool" where
  "Del_IsHandler request = is_key_command ''DEL'' 1 request"

definition Del_Handle :: "RespValue \<Rightarrow> Store \<Rightarrow> fault + (RespValue \<times> Store)" where
  "Del_Handle request data =
     bindE (deref (ParseCommand request)) (\<lambda>command.
     bindE (arg command 0) (\<lambda>a. bindE (deref a) (\<lambda>key.
       Inr (Integer 1, Store_Del key data))))"

text \<open>\<open>ExpireRequestHandler::ParseInteger\<close>: the whole argument must be a number.\<close>

definition Expire_ParseInteger :: "string option \<Rightarrow> int option" where
  "Expire_ParseInteger a =
     (case a of
        None \<Rightarrow> None
      | Some s \<Rightarrow>
          if s = [] then None
          else case from_chars s of
            Inl _ \<Rightarrow> None
          | Inr (value, n) \<Rightarrow> if n \<noteq> length s then None else Some value)"

text \<open>
  The \<open>&&\<close> chain is evaluated from left to right; the third argument is dereferenced without a
  test for null.
\<close>

definition Expire_IsHandler :: "string \<Rightarrow> RespValue \<Rightarrow> fault + bool" where
  "Expire_IsHandler name request =
     (case ParseCommand request of
        None \<Rightarrow> Inr False
      | Some command \<Rightarrow>
          let args = cmd_args command in
          if cmd_name command = name \<and> (length args = 2 \<or> length args = 3) \<and> nonempty (args ! 0) \<and>
             Expire_ParseInteger (args ! 1) \<noteq> None
          then if length args = 2 then Inr True
               else bindE (deref (args ! 2)) (\<lambda>option. Inr (ToExpireOption option \<noteq> None))
          else Inr False)"

definition Expire_Handle :: "int \<Rightarrow> bool \<Rightarrow> int \<Rightarrow> RespValue \<Rightarrow> Store \<Rightarrow> fault + (RespValue \<times> Store)" where
  "Expire_Handle factor relative now request data =
     bindE (deref (ParseCommand request)) (\<lambda>command.
     bindE (arg command 1) (\<lambda>a1. bindE (deref (Expire_ParseInteger a1)) (\<lambda>value.
     bindE (if length (cmd_args command) = 3
            then bindE (arg command 2) (\<lambda>a2. bindE (deref a2) (\<lambda>o2. deref (ToExpireOption o2)))
            else Inr NA) (\<lambda>option.
     let base = (if relative then now else 0) in
     throw_if (\<not> in_int64 (value * factor)) signed_overflow (
     throw_if (\<not> in_int64 (base + value * factor)) signed_overflow (
     bindE (arg command 0) (\<lambda>a0. bindE (deref a0) (\<lambda>key.
       let (was_set, data') = Store_ExpireAt key (base + value * factor) option data
       in Inr (Integer (if was_set then 1 else 0), data')))))))))"

definition Ttl_IsHandler :: "string \<Rightarrow> RespValue \<Rightarrow> bool" where
  "Ttl_IsHandler name request = is_key_command name 1 request"

definition Ttl_Handle :: "int \<Rightarrow> int \<Rightarrow> RespValue \<Rightarrow> Store \<Rightarrow> fault + (RespValue \<times> Store)" where
  "Ttl_Handle factor now request data =
     bindE (deref (ParseCommand request)) (\<lambda>command.
     bindE (arg command 0) (\<lambda>a. bindE (deref a) (\<lambda>key.
     bindE (Store_Ttl now data key) (\<lambda>ttl.
       Inr (Integer (if ttl < 0 then ttl else ttl div factor), data)))))"

definition Persist_IsHandler :: "RespValue \<Rightarrow> bool" where
  "Persist_IsHandler request = is_key_command ''PERSIST'' 1 request"

definition Persist_Handle :: "int \<Rightarrow> RespValue \<Rightarrow> Store \<Rightarrow> fault + (RespValue \<times> Store)" where
  "Persist_Handle now request data =
     bindE (deref (ParseCommand request)) (\<lambda>command.
     bindE (arg command 0) (\<lambda>a. bindE (deref a) (\<lambda>key.
       let (persisted, data') = Store_Persist now key data
       in Inr (Integer (if persisted then 1 else 0), data'))))"

definition Echo_IsHandler :: "RespValue \<Rightarrow> bool" where
  "Echo_IsHandler request =
     (case ParseCommand request of
        None \<Rightarrow> False
      | Some command \<Rightarrow> cmd_name command = ''ECHO'' \<and> length (cmd_args command) = 1)"

definition Echo_Handle :: "RespValue \<Rightarrow> fault + RespValue" where
  "Echo_Handle request =
     bindE (deref (ParseCommand request)) (\<lambda>command. bindE (arg command 0) (\<lambda>a. Inr (BulkString a)))"

definition Ping_IsHandler :: "RespValue \<Rightarrow> bool" where
  "Ping_IsHandler request =
     (case ParseCommand request of
        None \<Rightarrow> False
      | Some command \<Rightarrow> cmd_name command = ''PING'' \<and> (length (cmd_args command) = 0 \<or> length (cmd_args command) = 1))"

definition Ping_Handle :: "RespValue \<Rightarrow> fault + RespValue" where
  "Ping_Handle request =
     bindE (deref (ParseCommand request)) (\<lambda>command.
       if length (cmd_args command) = 0 then Inr (SimpleString ''PONG'')
       else bindE (arg command 0) (\<lambda>a. Inr (BulkString a)))"

definition Hello_IsHandler :: "RespValue \<Rightarrow> bool" where
  "Hello_IsHandler request =
     (case ParseCommand request of
        None \<Rightarrow> False
      | Some command \<Rightarrow> cmd_name command = ''HELLO'' \<and> length (cmd_args command) \<le> 1)"

definition Hello_Handle :: "RespValue \<Rightarrow> fault + RespValue" where
  "Hello_Handle request =
     bindE (deref (ParseCommand request)) (\<lambda>command.
       if length (cmd_args command) = 1 \<and> cmd_args command ! 0 \<noteq> Some ''2''
       then Inr (Error ''NOPROTO unsupported protocol version'')
       else Inr (Array [
         BulkString (Some ''server''), BulkString (Some ''myredis''),
         BulkString (Some ''version''), BulkString (Some ''0.1.0''),
         BulkString (Some ''proto''), Integer 2,
         BulkString (Some ''mode''), BulkString (Some ''standalone''),
         BulkString (Some ''role''), BulkString (Some ''master''),
         BulkString (Some ''modules''), Array []]))"

definition Unknown_Handle :: RespValue where
  "Unknown_Handle = Error ''Unknown subcommand or command''"

text \<open>The virtual methods.\<close>

fun IsHandler :: "Handler \<Rightarrow> RespValue \<Rightarrow> fault + bool" where
  "IsHandler GetRequestHandler request = Inr (Get_IsHandler request)"
| "IsHandler SetRequestHandler request = Inr (Set_IsHandler request)"
| "IsHandler DelRequestHandler request = Inr (Del_IsHandler request)"
| "IsHandler (ExpireRequestHandler name factor relative) request = Expire_IsHandler name request"
| "IsHandler (TtlRequestHandler name factor) request = Inr (Ttl_IsHandler name request)"
| "IsHandler PersistRequestHandler request = Inr (Persist_IsHandler request)"
| "IsHandler EchoRequestHandler request = Inr (Echo_IsHandler request)"
| "IsHandler PingRequestHandler request = Inr (Ping_IsHandler request)"
| "IsHandler HelloRequestHandler request = Inr (Hello_IsHandler request)"
| "IsHandler UnknownRequestHandler request = Inr True"

definition with_store :: "Store \<Rightarrow> fault + RespValue \<Rightarrow> fault + (RespValue \<times> Store)" where
  "with_store data r = bindE r (\<lambda>reply. Inr (reply, data))"

fun Handle :: "Handler \<Rightarrow> int \<Rightarrow> RespValue \<Rightarrow> Store \<Rightarrow> fault + (RespValue \<times> Store)" where
  "Handle GetRequestHandler now request data = Get_Handle now request data"
| "Handle SetRequestHandler now request data = Set_Handle request data"
| "Handle DelRequestHandler now request data = Del_Handle request data"
| "Handle (ExpireRequestHandler name factor relative) now request data =
     Expire_Handle factor relative now request data"
| "Handle (TtlRequestHandler name factor) now request data = Ttl_Handle factor now request data"
| "Handle PersistRequestHandler now request data = Persist_Handle now request data"
| "Handle EchoRequestHandler now request data = with_store data (Echo_Handle request)"
| "Handle PingRequestHandler now request data = with_store data (Ping_Handle request)"
| "Handle HelloRequestHandler now request data = with_store data (Hello_Handle request)"
| "Handle UnknownRequestHandler now request data = Inr (Unknown_Handle, data)"

end
