(* ===== verification/Request_Dispatcher.thy ===== *)
theory Request_Dispatcher
  imports Request_Handlers "HOL-Library.Multiset"
begin

text \<open>
  \<open>RequestDispatcher\<close> of \<open>v2/src/server/handler/request_dispatcher.{h,cc}\<close>: the list of handlers
  its constructor builds and the loop of \<open>Dispatch\<close>. Each handler but the last claims only
  requests with its own keyword, which reduces a dispatch to the one handler with the keyword
  of the request.
\<close>

section \<open>The dispatcher\<close>

definition SECONDS_TO_MILLISECONDS :: int where "SECONDS_TO_MILLISECONDS = 1000"

definition RequestDispatcher_handlers :: "Handler list" where
  "RequestDispatcher_handlers = [
     GetRequestHandler, SetRequestHandler, DelRequestHandler,
     ExpireRequestHandler ''EXPIRE'' SECONDS_TO_MILLISECONDS True,
     ExpireRequestHandler ''PEXPIRE'' 1 True,
     ExpireRequestHandler ''EXPIREAT'' SECONDS_TO_MILLISECONDS False,
     ExpireRequestHandler ''PEXPIREAT'' 1 False,
     TtlRequestHandler ''TTL'' SECONDS_TO_MILLISECONDS,
     TtlRequestHandler ''PTTL'' 1,
     PersistRequestHandler, EchoRequestHandler, PingRequestHandler, HelloRequestHandler,
     UnknownRequestHandler]"

fun DispatchLoop :: "Handler list \<Rightarrow> int \<Rightarrow> RespValue \<Rightarrow> Store \<Rightarrow> fault + (RespValue \<times> Store)" where
  "DispatchLoop [] now request data = Inr (Error ''Unknown subcommand or command'', data)"
| "DispatchLoop (handler # handlers) now request data =
     bindE (IsHandler handler request) (\<lambda>claims.
       if claims then Handle handler now request data else DispatchLoop handlers now request data)"

definition Dispatch :: "int \<Rightarrow> RespValue \<Rightarrow> Store \<Rightarrow> fault + (RespValue \<times> Store)" where
  "Dispatch now request data = DispatchLoop RequestDispatcher_handlers now request data"

section \<open>One keyword, one handler\<close>

fun keyword :: "Handler \<Rightarrow> string option" where
  "keyword GetRequestHandler = Some ''GET''"
| "keyword SetRequestHandler = Some ''SET''"
| "keyword DelRequestHandler = Some ''DEL''"
| "keyword (ExpireRequestHandler name factor relative) = Some name"
| "keyword (TtlRequestHandler name factor) = Some name"
| "keyword PersistRequestHandler = Some ''PERSIST''"
| "keyword EchoRequestHandler = Some ''ECHO''"
| "keyword PingRequestHandler = Some ''PING''"
| "keyword HelloRequestHandler = Some ''HELLO''"
| "keyword UnknownRequestHandler = None"

lemmas IsHandler_defs [handler_simps] = is_key_command_def Get_IsHandler_def Set_IsHandler_def Del_IsHandler_def
  Expire_IsHandler_def Ttl_IsHandler_def Persist_IsHandler_def Echo_IsHandler_def Ping_IsHandler_def
  Hello_IsHandler_def

lemmas Handle_defs [handler_simps] = Get_Handle_def Set_Handle_def Del_Handle_def Expire_Handle_def Ttl_Handle_def
  Persist_Handle_def Echo_Handle_def Ping_Handle_def Hello_Handle_def Unknown_Handle_def with_store_def

lemma IsHandler_keyword:
  assumes "keyword handler = Some word" and "\<nexists>command. ParseCommand request = Some command \<and> cmd_name command = word"
  shows "IsHandler handler request = Inr False"
  using assms by (cases handler) (auto simp: IsHandler_defs Let_def split: option.split)

definition named_handlers :: "Handler list" where
  "named_handlers = butlast RequestDispatcher_handlers"

lemma handlers_split: "RequestDispatcher_handlers = named_handlers @ [UnknownRequestHandler]"
  by (simp add: named_handlers_def RequestDispatcher_handlers_def)

lemma keywords_distinct: "distinct (map keyword named_handlers)" and keywords_Some: "\<forall>h \<in> set named_handlers. keyword h \<noteq> None"
  by (simp_all add: named_handlers_def RequestDispatcher_handlers_def)

text \<open>A chain of handlers with different keywords, closed by the fallback.\<close>

lemma DispatchLoop_none:
  assumes "\<forall>h \<in> set hs. IsHandler h request = Inr False"
  shows "DispatchLoop (hs @ [UnknownRequestHandler]) now request data = Inr (Unknown_Handle, data)"
  using assms by (induction hs) auto

lemma DispatchLoop_unique:
  assumes "h \<in> set hs" and "\<forall>h' \<in> set hs. h' \<noteq> h \<longrightarrow> IsHandler h' request = Inr False" and "distinct hs"
  shows "DispatchLoop (hs @ [UnknownRequestHandler]) now request data =
    bindE (IsHandler h request) (\<lambda>claims. if claims then Handle h now request data else Inr (Unknown_Handle, data))"
  using assms
proof (induction hs)
  case (Cons h' hs)
  show ?case
  proof (cases "h' = h")
    case True
    with Cons.prems have "\<forall>h' \<in> set hs. IsHandler h' request = Inr False" by auto
    from DispatchLoop_none [OF this] True show ?thesis by (simp cong: if_cong)
  qed (use Cons in auto)
qed simp

lemma DispatchLoop_chain:
  assumes "mset hs = mset named_handlers"
  shows "DispatchLoop (hs @ [UnknownRequestHandler]) now request data =
    (case find (\<lambda>h. \<exists>command. ParseCommand request = Some command \<and> keyword h = Some (cmd_name command)) named_handlers of
       None \<Rightarrow> Inr (Unknown_Handle, data)
     | Some h \<Rightarrow> bindE (IsHandler h request)
         (\<lambda>claims. if claims then Handle h now request data else Inr (Unknown_Handle, data)))"
    (is "_ = (case find ?P named_handlers of None \<Rightarrow> _ | Some h \<Rightarrow> _ h)")
proof -
  have hs: "set hs = set named_handlers" "distinct hs"
    using assms mset_eq_setD [OF assms] mset_eq_imp_distinct_iff [OF assms] keywords_distinct
    by (auto simp: distinct_map)
  have key: "IsHandler h' request = Inr False" if "h' \<in> set hs" "\<not> ?P h'" for h'
  proof -
    from that hs keywords_Some obtain word where "keyword h' = Some word" by blast
    with that(2) show ?thesis by (intro IsHandler_keyword) auto
  qed
  show ?thesis
  proof (cases "find ?P named_handlers")
    case None
    then have "\<forall>h \<in> set hs. IsHandler h request = Inr False" using key hs by (auto simp: find_None_iff)
    with None show ?thesis by (simp add: DispatchLoop_none)
  next
    case (Some h)
    then have h: "h \<in> set hs" "?P h" using hs(1) by (auto simp: find_Some_iff)
    have "h' = h" if "h' \<in> set hs" "?P h'" for h'
      using that h keywords_distinct hs(1) by (metis distinct_map inj_onD option.inject)
    with key have "\<forall>h' \<in> set hs. h' \<noteq> h \<longrightarrow> IsHandler h' request = Inr False" by blast
    with Some show ?thesis by (simp add: DispatchLoop_unique [OF h(1) _ hs(2)])
  qed
qed

lemmas Dispatch_chain = DispatchLoop_chain [OF refl, folded handlers_split, folded Dispatch_def]

lemma Dispatch_no_command: "ParseCommand request = None \<Longrightarrow> Dispatch now request data = Inr (Unknown_Handle, data)"
  by (simp add: Dispatch_chain find_None_iff [THEN iffD2])

lemma Dispatch_named:
  assumes "h \<in> set named_handlers" and "ParseCommand request = Some command" and "keyword h = Some (cmd_name command)"
  shows "Dispatch now request data = bindE (IsHandler h request)
    (\<lambda>claims. if claims then Handle h now request data else Inr (Unknown_Handle, data))"
proof -
  obtain h' where h': "find (\<lambda>h. \<exists>command. ParseCommand request = Some command \<and> keyword h = Some (cmd_name command))
      named_handlers = Some h'"
    using assms by (cases "find (\<lambda>h. \<exists>command. ParseCommand request = Some command \<and> keyword h = Some (cmd_name command))
      named_handlers") (auto simp: find_None_iff)
  then have "h' \<in> set named_handlers" "keyword h' = keyword h" using assms by (auto simp: find_Some_iff)
  with assms(1) have "h' = h" using keywords_distinct by (auto simp: distinct_map dest: inj_onD)
  with h' show ?thesis by (simp add: Dispatch_chain)
qed

lemma Dispatch_cases:
  assumes "Dispatch now request data = Inr (reply, data')"
  obtains "reply = Unknown_Handle" "data' = data"
  | h command where "h \<in> set named_handlers" "ParseCommand request = Some command"
      "keyword h = Some (cmd_name command)" "IsHandler h request = Inr True"
      "Handle h now request data = Inr (reply, data')"
  using assms
  by (auto simp: Dispatch_chain bindE_eq_Inr find_Some_iff split: option.splits if_splits)
    (metis (no_types, lifting) nth_mem)+

section \<open>Requests as a client writes them\<close>

definition command_request :: "string \<Rightarrow> string option list \<Rightarrow> RespValue" where
  "command_request name args = RespArray (RespBulkString (Some name) # map RespBulkString args)"

lemma ParseArgs_map [simp]: "ParseArgs (map RespBulkString args) = Some args"
  by (induction args) auto

lemma ParseCommand_request [simp]:
  "name \<noteq> [] \<Longrightarrow> ParseCommand (command_request name args) = Some \<lparr>cmd_name = name, cmd_args = args\<rparr>"
  by (simp add: command_request_def)

lemma ParseArgs_Some: "ParseArgs vs = Some args \<Longrightarrow> vs = map RespBulkString args"
  by (induction vs arbitrary: args) (auto split: RespValue.splits option.splits)

lemma ParseCommand_Some:
  "ParseCommand request = Some command \<Longrightarrow>
     request = command_request (cmd_name command) (cmd_args command) \<and> cmd_name command \<noteq> []"
  by (induction request rule: ParseCommand.induct)
    (auto simp: command_request_def dest!: ParseArgs_Some split: option.splits if_splits)

lemma Expire_ParseInteger_to_string: "in_int64 v \<Longrightarrow> Expire_ParseInteger (Some (to_string v)) = Some v"
  using from_chars_to_string [of v "[]"] by (auto simp: Expire_ParseInteger_def to_string_def split: if_splits)

section \<open>The handlers of the chain\<close>

lemma in_named_handlers:
  "h \<in> set named_handlers \<longleftrightarrow> h \<in> {GetRequestHandler, SetRequestHandler, DelRequestHandler,
     ExpireRequestHandler ''EXPIRE'' 1000 True, ExpireRequestHandler ''PEXPIRE'' 1 True,
     ExpireRequestHandler ''EXPIREAT'' 1000 False, ExpireRequestHandler ''PEXPIREAT'' 1 False,
     TtlRequestHandler ''TTL'' 1000, TtlRequestHandler ''PTTL'' 1,
     PersistRequestHandler, EchoRequestHandler, PingRequestHandler, HelloRequestHandler}"
  by (simp add: named_handlers_def RequestDispatcher_handlers_def SECONDS_TO_MILLISECONDS_def)

lemma arg_eq_Inr: "arg command i = Inr a \<longleftrightarrow> i < length (cmd_args command) \<and> a = cmd_args command ! i"
  by (auto simp: arg_def throw_if_eq_Inr)

lemma deref_eq_Inr: "deref x = Inr a \<longleftrightarrow> x = Some a"
  by (auto simp: deref_def split: option.splits)

text \<open>A request changes no key but its first argument.\<close>

lemma Handle_other_key:
  assumes "Handle h now request data = Inr (reply, data')" and "StandardMap_invar data"
    and "\<And>command. ParseCommand request = Some command \<Longrightarrow> 0 < length (cmd_args command) \<Longrightarrow> cmd_args command ! 0 \<noteq> Some key"
  shows "StandardMap_LookUp data' key = StandardMap_LookUp data key"
  using assms
  by (cases h) (auto simp: Handle_defs bindE_eq_Inr arg_eq_Inr deref_eq_Inr throw_if_eq_Inr Let_def Store_ops
      std.lookup_insert std.lookup_remove std.lookup_assign split: option.splits if_splits prod.splits)

lemma Handle_invar:
  assumes "Handle h now request data = Inr (reply, data')" and "StandardMap_invar data"
  shows "StandardMap_invar data'"
  using assms
  by (cases h) (auto simp: Handle_defs bindE_eq_Inr throw_if_eq_Inr Let_def Store_ops
      std.insert_invar std.remove_invar std.assign_invar split: option.splits if_splits prod.splits)

lemma Handle_read_only:
  assumes "Handle h now request data = Inr (reply, data')" and "h \<in> set named_handlers"
    and "keyword h \<notin> Some ` {''SET'', ''DEL'', ''EXPIRE'', ''PEXPIRE'', ''EXPIREAT'', ''PEXPIREAT'', ''PERSIST''}"
  shows "data' = data"
  using assms
  by (auto simp: in_named_handlers Handle_defs bindE_eq_Inr split: option.splits)

section \<open>Freedom from faults\<close>

definition small_value :: "string option \<Rightarrow> bool" where
  "small_value v = (case v of None \<Rightarrow> True | Some s \<Rightarrow> int (length s) \<le> INT64_MAX)"

text \<open>
  Bounds that keep the arithmetic on times within \<open>int64_t\<close>: times and times to live of up to
  4 * 10^15 seconds (a hundred million years), a clock up to 5 * 10^18 milliseconds.
\<close>

definition good_entry :: "Entry \<Rightarrow> bool" where
  "good_entry e \<longleftrightarrow> - 4000000000000000000 \<le> entry_expiry e \<and> entry_expiry e \<le> 9000000000000000000
     \<and> small_value (entry_value e)"

definition good_store :: "Store \<Rightarrow> bool" where
  "good_store data \<longleftrightarrow> StandardMap_invar data \<and> (\<forall>k e. StandardMap_LookUp data k = Some e \<longrightarrow> good_entry e)"

definition good_clock :: "int \<Rightarrow> bool" where
  "good_clock now \<longleftrightarrow> 0 \<le> now \<and> now \<le> 5000000000000000000"

definition expire_names :: "string set" where
  "expire_names = {''EXPIRE'', ''PEXPIRE'', ''EXPIREAT'', ''PEXPIREAT''}"

text \<open>The two kinds of requests that can fault: a null option, and a time that is too large.\<close>

definition nil_option :: "RespValue \<Rightarrow> bool" where
  "nil_option request = (case ParseCommand request of
       None \<Rightarrow> False
     | Some command \<Rightarrow> cmd_name command \<in> expire_names \<and> length (cmd_args command) = 3 \<and> cmd_args command ! 2 = None)"

definition small_time :: "RespValue \<Rightarrow> bool" where
  "small_time request = (case ParseCommand request of
       None \<Rightarrow> True
     | Some command \<Rightarrow> cmd_name command \<in> expire_names \<longrightarrow> 2 \<le> length (cmd_args command) \<longrightarrow>
         (case Expire_ParseInteger (cmd_args command ! 1) of None \<Rightarrow> True | Some v \<Rightarrow> \<bar>v\<bar> \<le> 4000000000000000))"

lemma wf_request_args:
  assumes "wf_resp request" and "ParseCommand request = Some command" and "a \<in> set (cmd_args command)"
  shows "small_value a"
proof -
  have "wf_resp (RespBulkString a)"
    using assms ParseCommand_Some [OF assms(2)] by (auto simp: command_request_def list_all_iff)
  then show ?thesis by (cases a) (auto simp: small_value_def)
qed

lemma wf_bulk [simp]: "wf_resp (RespBulkString a) = small_value a"
  by (cases a) (auto simp: small_value_def)

lemma good_store_ops:
  assumes "good_store data"
  shows "small_value v \<Longrightarrow> good_store (Store_Set key v data)" and "good_store (Store_Del key data)"
    and "good_store (snd (Store_Persist now key data))"
    and "- 4000000000000000000 \<le> ts \<Longrightarrow> ts \<le> 9000000000000000000 \<Longrightarrow> good_store (snd (Store_ExpireAt key ts option data))"
    and "small_value (Store_Get now data key)"
  using assms
  by (auto simp: good_store_def good_entry_def Store_ops NO_EXPIRY_def small_value_def [of None] std.insert_invar
      std.remove_invar std.assign_invar std.lookup_insert std.lookup_remove std.lookup_assign
      split: option.splits if_splits)

lemma Store_Ttl_good:
  assumes "good_store data" and "good_clock now"
  obtains r where "Store_Ttl now data key = Inr r" and "- 2 \<le> r" and "r \<le> INT64_MAX"
proof -
  have "in_int64 (entry_expiry e - now)" if "StandardMap_LookUp data key = Some e" for e
    using assms that by (auto simp: good_store_def good_entry_def good_clock_def int64_defs dest!: spec [of _ key])
  then have "\<exists>r. Store_Ttl now data key = Inr r \<and> - 2 \<le> r \<and> r \<le> INT64_MAX"
    by (cases "StandardMap_LookUp data key") (auto simp: Store_Ttl_def Let_def int64_defs)
  then show thesis using that by blast
qed

lemma Expire_Handle_good:
  assumes "Expire_IsHandler name request = Inr True" and "name \<in> expire_names" and "factor \<in> {1, 1000}"
    and "small_time request" and "good_store data" and "good_clock now"
  shows "\<exists>was_set data'. Expire_Handle factor relative now request data = Inr (Integer (if was_set then 1 else 0), data')
    \<and> good_store data'"
proof -
  obtain command where c: "ParseCommand request = Some command" "cmd_name command = name"
    "length (cmd_args command) = 2 \<or> length (cmd_args command) = 3" "nonempty (cmd_args command ! 0)"
    "Expire_ParseInteger (cmd_args command ! 1) \<noteq> None"
    using assms(1) by (auto simp: Expire_IsHandler_def Let_def split: option.splits if_splits)
  obtain key where key: "cmd_args command ! 0 = Some key" using c(4) by (auto simp: nonempty_def split: option.splits)
  obtain v where v: "Expire_ParseInteger (cmd_args command ! 1) = Some v" using c(5) by auto
  have small: "\<bar>v\<bar> \<le> 4000000000000000" using assms(2,4) c v by (auto simp: small_time_def)
  obtain option where opt: "(if length (cmd_args command) = 3
      then bindE (arg command 2) (\<lambda>a2. bindE (deref a2) (\<lambda>o2. deref (ToExpireOption o2))) else Inr NA) = Inr option"
    using assms(1) c v by (auto simp: Expire_IsHandler_def Let_def arg_def bindE_eq_Inr deref_eq_Inr split: if_splits)
  let ?ts = "(if relative then now else 0) + v * factor"
  have ts: "- 4000000000000000000 \<le> ?ts" "?ts \<le> 9000000000000000000" "in_int64 (v * factor)" "in_int64 ?ts"
    using small assms(3,6) by (auto simp: good_clock_def int64_defs)
  have args: "arg command 0 = Inr (Some key)" "arg command 1 = Inr (cmd_args command ! 1)"
    using c(3) key by (auto simp: arg_eq_Inr)
  have "Expire_Handle factor relative now request data =
      (let (was_set, data') = Store_ExpireAt key ?ts option data in Inr (Integer (if was_set then 1 else 0), data'))"
    unfolding Expire_Handle_def c(1) deref_Some bindE_simps args v opt using ts(3,4) by (simp add: Let_def)
  with good_store_ops(4) [OF assms(5) ts(1,2), of key "option"] show ?thesis
    by (auto simp: split_beta Let_def)
qed

definition good_result :: "fault + (RespValue \<times> Store) \<Rightarrow> bool" where
  "good_result r \<longleftrightarrow> (\<exists>reply data'. r = Inr (reply, data') \<and> wf_resp reply \<and> good_store data')"

lemma is_key_command_cases:
  assumes "is_key_command name n request" and "0 < n"
  obtains command key where "ParseCommand request = Some command" "length (cmd_args command) = n"
    "arg command 0 = Inr (Some key)"
  using assms by (auto simp: is_key_command_def nonempty_def arg_eq_Inr split: option.splits)

lemma int64_small: "in_int64 0" "in_int64 1" "in_int64 2"
  by (simp_all add: int64_defs)

lemmas good_simps = good_result_def resp_value_helpers int64_small

lemma wf_request_arg:
  "wf_resp request \<Longrightarrow> ParseCommand request = Some command \<Longrightarrow> arg command i = Inr a \<Longrightarrow> small_value a"
  using wf_request_args by (auto simp: arg_eq_Inr)

lemma Get_good:
  assumes "Get_IsHandler request" and "good_store data"
  shows "good_result (Get_Handle now request data)"
proof -
  obtain command key where "ParseCommand request = Some command" "arg command 0 = Inr (Some key)"
    by (rule is_key_command_cases [OF assms(1) [unfolded Get_IsHandler_def]]) simp
  with assms(2) good_store_ops(5) [OF assms(2), of now key] show ?thesis
    by (cases "Store_Get now data key") (auto simp: Get_Handle_def good_simps)
qed

lemma Set_good:
  assumes "Set_IsHandler request" and "good_store data" and "wf_resp request"
  shows "good_result (Set_Handle request data)"
proof -
  obtain command key where c: "ParseCommand request = Some command" "length (cmd_args command) = 2"
    "arg command 0 = Inr (Some key)"
    by (rule is_key_command_cases [OF assms(1) [unfolded Set_IsHandler_def]]) simp
  then have "arg command 1 = Inr (cmd_args command ! 1)" by (simp add: arg_eq_Inr)
  with c wf_request_arg [OF assms(3) c(1) this] good_store_ops(1) [OF assms(2), of "cmd_args command ! 1" key]
  show ?thesis by (auto simp: Set_Handle_def good_simps)
qed

lemma Del_good:
  assumes "Del_IsHandler request" and "good_store data"
  shows "good_result (Del_Handle request data)"
proof -
  obtain command key where "ParseCommand request = Some command" "arg command 0 = Inr (Some key)"
    by (rule is_key_command_cases [OF assms(1) [unfolded Del_IsHandler_def]]) simp
  with good_store_ops(2) [OF assms(2), of key] show ?thesis by (auto simp: Del_Handle_def good_simps)
qed

lemma Ttl_good:
  assumes "Ttl_IsHandler name request" and "good_store data" and "good_clock now" and "factor \<in> {1, 1000}"
  shows "good_result (Ttl_Handle factor now request data)"
proof -
  obtain command key where c: "ParseCommand request = Some command" "arg command 0 = Inr (Some key)"
    by (rule is_key_command_cases [OF assms(1) [unfolded Ttl_IsHandler_def]]) simp
  obtain r where r: "Store_Ttl now data key = Inr r" "- 2 \<le> r" "r \<le> INT64_MAX"
    by (rule Store_Ttl_good [OF assms(2,3)])
  have "in_int64 (if r < 0 then r else r div factor)" using r(2,3) assms(4) by (auto simp: int64_defs)
  with c r assms(2) show ?thesis by (auto simp: Ttl_Handle_def good_simps)
qed

lemma Persist_good:
  assumes "Persist_IsHandler request" and "good_store data"
  shows "good_result (Persist_Handle now request data)"
proof -
  obtain command key where "ParseCommand request = Some command" "arg command 0 = Inr (Some key)"
    by (rule is_key_command_cases [OF assms(1) [unfolded Persist_IsHandler_def]]) simp
  with good_store_ops(3) [OF assms(2), of now key] show ?thesis
    by (auto simp: Persist_Handle_def good_simps split_beta Let_def)
qed

lemma storeless_good:
  assumes "h \<in> {EchoRequestHandler, PingRequestHandler, HelloRequestHandler}"
    and "IsHandler h request = Inr True" and "good_store data" and "wf_resp request"
  shows "good_result (Handle h now request data)"
proof -
  obtain command where c: "ParseCommand request = Some command"
    "h = EchoRequestHandler \<Longrightarrow> length (cmd_args command) = 1" "length (cmd_args command) \<le> 1"
    using assms(1,2) by (auto simp: IsHandler_defs split: option.splits)
  have "length (cmd_args command) = 1 \<Longrightarrow> small_value (cmd_args command ! 0)"
    using wf_request_arg [OF assms(4) c(1), of 0] by (simp add: arg_eq_Inr)
  with assms c show ?thesis
    by (cases "cmd_args command") (auto simp: Handle_defs good_simps arg_def small_value_def int64_defs)
qed

lemma Handle_good:
  assumes "IsHandler h request = Inr True" and "h \<in> set named_handlers" and "wf_resp request"
    and "good_store data" and "good_clock now" and "small_time request"
  shows "good_result (Handle h now request data)"
proof -
  consider "h = GetRequestHandler" | "h = SetRequestHandler" | "h = DelRequestHandler"
    | (expire) name factor relative where "h = ExpireRequestHandler name factor relative" "name \<in> expire_names" "factor \<in> {1, 1000}"
    | (ttl) name factor where "h = TtlRequestHandler name factor" "factor \<in> {1, 1000}"
    | "h = PersistRequestHandler" | (storeless) "h \<in> {EchoRequestHandler, PingRequestHandler, HelloRequestHandler}"
    using assms(2) by (auto simp: in_named_handlers expire_names_def)
  then show ?thesis
  proof cases
    case (expire name factor relative)
    with Expire_Handle_good [of name request factor data now relative] assms show ?thesis
      by (auto simp: good_simps)
  next
    case storeless
    with assms show ?thesis by (intro storeless_good)
  qed (use assms in \<open>auto simp: Get_good Set_good Del_good Ttl_good Persist_good\<close>)
qed

lemma Dispatch_good:
  assumes "wf_resp request" and "good_store data" and "good_clock now" and "small_time request" and "\<not> nil_option request"
  shows "good_result (Dispatch now request data)"
proof -
  have unknown: "good_result (Inr (Unknown_Handle, data))"
    using assms(2) by (simp add: good_simps Unknown_Handle_def)
  show ?thesis
  proof (cases "find (\<lambda>h. \<exists>command. ParseCommand request = Some command \<and> keyword h = Some (cmd_name command)) named_handlers")
    case None
    with unknown show ?thesis by (simp add: Dispatch_chain)
  next
    case (Some h)
    then obtain command where h: "h \<in> set named_handlers" "ParseCommand request = Some command"
      "keyword h = Some (cmd_name command)" by (auto simp: find_Some_iff)
    have "\<exists>b. IsHandler h request = Inr b"
      using assms(5) h by (cases h)
        (auto simp: Expire_IsHandler_def in_named_handlers nil_option_def expire_names_def Let_def deref_def split: option.splits)
    with Handle_good [OF _ h(1) assms(1-4)] unknown show ?thesis
      by (auto simp: Dispatch_named [OF h])
  qed
qed

section \<open>Sequences of requests\<close>

text \<open>The main thread executes requests one after the other; each reads the clock once.\<close>

fun DispatchAll :: "(int \<times> RespValue) list \<Rightarrow> Store \<Rightarrow> fault + (RespValue list \<times> Store)" where
  "DispatchAll [] data = Inr ([], data)"
| "DispatchAll ((now, request) # rest) data =
     bindE (Dispatch now request data) (\<lambda>(reply, data1).
     bindE (DispatchAll rest data1) (\<lambda>(replies, data2). Inr (reply # replies, data2)))"

lemma DispatchAll_append:
  "DispatchAll (rs @ rs') data =
     bindE (DispatchAll rs data) (\<lambda>(replies, data1).
     bindE (DispatchAll rs' data1) (\<lambda>(replies', data2). Inr (replies @ replies', data2)))"
proof (induction rs arbitrary: data)
  case (Cons r rs)
  obtain now request where r: "r = (now, request)" by (cases r)
  show ?case
    by (cases "Dispatch now request data") (auto simp: r Cons.IH bindE_def split: sum.split)
qed (auto simp: bindE_def split: sum.split)

lemma DispatchAll_good:
  assumes "good_store data"
    and "\<forall>(now, request) \<in> set rs. good_clock now \<and> wf_resp request \<and> small_time request \<and> \<not> nil_option request"
  shows "\<exists>replies data'. DispatchAll rs data = Inr (replies, data') \<and> length replies = length rs
    \<and> list_all wf_resp replies \<and> good_store data'"
  using assms
proof (induction rs arbitrary: data)
  case (Cons r rs)
  obtain now request where r: "r = (now, request)" by (cases r)
  obtain reply data1 where d: "Dispatch now request data = Inr (reply, data1)" "wf_resp reply" "good_store data1"
    using Dispatch_good [of request data now] Cons.prems by (auto simp: r good_result_def)
  with Cons.IH [OF d(3)] Cons.prems(2) show ?case by (fastforce simp: r)
qed simp

text \<open>The key a request works on, if it has one.\<close>

definition names_key :: "string \<Rightarrow> RespValue \<Rightarrow> bool" where
  "names_key key request = (case ParseCommand request of
       None \<Rightarrow> False
     | Some command \<Rightarrow> 0 < length (cmd_args command) \<and> cmd_args command ! 0 = Some key)"

lemma Dispatch_other_key:
  assumes "Dispatch now request data = Inr (reply, data')" and "StandardMap_invar data" and "\<not> names_key key request"
  shows "StandardMap_LookUp data' key = StandardMap_LookUp data key" and "StandardMap_invar data'"
proof -
  from assms(1) have "StandardMap_LookUp data' key = StandardMap_LookUp data key \<and> StandardMap_invar data'"
  proof (cases rule: Dispatch_cases)
    case (2 h command)
    from Handle_other_key [OF 2(5) assms(2), of key] Handle_invar [OF 2(5) assms(2)] 2(2) assms(3)
    show ?thesis by (auto simp: names_key_def)
  qed (use assms in simp)
  then show "StandardMap_LookUp data' key = StandardMap_LookUp data key" and "StandardMap_invar data'" by blast+
qed

lemma DispatchAll_other_key:
  "DispatchAll rs data = Inr (replies, data') \<Longrightarrow> StandardMap_invar data \<Longrightarrow> \<forall>(now, request) \<in> set rs. \<not> names_key key request \<Longrightarrow>
     StandardMap_LookUp data' key = StandardMap_LookUp data key \<and> StandardMap_invar data'"
proof (induction rs arbitrary: data replies)
  case (Cons r rs)
  obtain now request where r: "r = (now, request)" by (cases r)
  from Cons.prems r obtain reply data1 replies' where
    d: "Dispatch now request data = Inr (reply, data1)" "DispatchAll rs data1 = Inr (replies', data')"
    by (auto simp: bindE_eq_Inr)
  have "\<not> names_key key request" using Cons.prems r by auto
  note o = Dispatch_other_key [OF d(1) Cons.prems(2) this]
  from Cons.IH [OF d(2) o(2)] Cons.prems o(1) show ?case by auto
qed simp

section \<open>Properties\<close>

lemma Dispatch_key_command:
  assumes "h \<in> set named_handlers" and "keyword h = Some name" and "name \<noteq> []"
    and "IsHandler h (command_request name args) = Inr True"
  shows "Dispatch now (command_request name args) data = Handle h now (command_request name args) data"
  using Dispatch_named [OF assms(1), of "command_request name args" "\<lparr>cmd_name = name, cmd_args = args\<rparr>"] assms by simp

lemmas dispatch_simps = IsHandler_defs Handle_defs nonempty_def in_named_handlers arg_def

lemma Dispatch_GET:
  "key \<noteq> [] \<Longrightarrow>
     Dispatch now (command_request ''GET'' [Some key]) data = Inr (BulkString (Store_Get now data key), data)"
  by (subst Dispatch_key_command [of GetRequestHandler])
    (auto simp: dispatch_simps resp_value_helpers split: option.split)

lemma Dispatch_SET:
  "key \<noteq> [] \<Longrightarrow>
     Dispatch now (command_request ''SET'' [Some key, v]) data = Inr (SimpleString ''OK'', Store_Set key v data)"
  by (subst Dispatch_key_command [of SetRequestHandler]) (simp_all add: dispatch_simps)

lemma Dispatch_DEL:
  "key \<noteq> [] \<Longrightarrow> Dispatch now (command_request ''DEL'' [Some key]) data = Inr (Integer 1, Store_Del key data)"
  by (subst Dispatch_key_command [of DelRequestHandler]) (simp_all add: dispatch_simps)

lemma Dispatch_PERSIST:
  "key \<noteq> [] \<Longrightarrow> Dispatch now (command_request ''PERSIST'' [Some key]) data =
     Inr (Integer (if fst (Store_Persist now key data) then 1 else 0), snd (Store_Persist now key data))"
  by (subst Dispatch_key_command [of PersistRequestHandler]) (simp_all add: dispatch_simps split_beta Let_def)

lemma Dispatch_TTL:
  "key \<noteq> [] \<Longrightarrow> Dispatch now (command_request ''TTL'' [Some key]) data =
     bindE (Store_Ttl now data key) (\<lambda>ttl. Inr (Integer (if ttl < 0 then ttl else ttl div 1000), data))"
  by (subst Dispatch_key_command [of "TtlRequestHandler ''TTL'' 1000"]) (simp_all add: dispatch_simps)

lemma Dispatch_PTTL:
  "key \<noteq> [] \<Longrightarrow> Dispatch now (command_request ''PTTL'' [Some key]) data =
     bindE (Store_Ttl now data key) (\<lambda>ttl. Inr (Integer ttl, data))"
  by (subst Dispatch_key_command [of "TtlRequestHandler ''PTTL'' 1"]) (simp_all add: dispatch_simps cong: if_cong)

lemma Dispatch_ECHO_PING:
  "Dispatch now (command_request ''ECHO'' [v]) data = Inr (BulkString v, data)"
  "Dispatch now (command_request ''PING'' []) data = Inr (SimpleString ''PONG'', data)"
  "Dispatch now (command_request ''PING'' [v]) data = Inr (BulkString v, data)"
  by (subst Dispatch_key_command [of EchoRequestHandler] Dispatch_key_command [of PingRequestHandler];
      simp add: dispatch_simps)+

lemma expire_handlers:
  "ExpireRequestHandler ''EXPIRE'' 1000 True \<in> set named_handlers"
  "ExpireRequestHandler ''PEXPIRE'' 1 True \<in> set named_handlers"
  "ExpireRequestHandler ''EXPIREAT'' 1000 False \<in> set named_handlers"
  "ExpireRequestHandler ''PEXPIREAT'' 1 False \<in> set named_handlers"
  by (simp_all add: in_named_handlers)

lemma Dispatch_EXPIRE:
  assumes "key \<noteq> []" and "in_int64 v" and "in_int64 (v * factor)" and "in_int64 (base + v * factor)"
    and "(name, factor, base) \<in> {(''EXPIRE'', 1000, now), (''PEXPIRE'', 1, now), (''EXPIREAT'', 1000, 0), (''PEXPIREAT'', 1, 0)}"
    and "(option_args, option) \<in> {([], NA), ([Some ''NX''], NX), ([Some ''XX''], XX), ([Some ''GT''], GT), ([Some ''LT''], LT)}"
  shows "Dispatch now (command_request name (Some key # Some (to_string v) # option_args)) data =
    Inr (Integer (if fst (Store_ExpireAt key (base + v * factor) option data) then 1 else 0),
         snd (Store_ExpireAt key (base + v * factor) option data))"
proof -
  let ?args = "Some key # Some (to_string v) # option_args"
  have "name = ''EXPIRE'' \<and> factor = 1000 \<and> base = now \<or> name = ''PEXPIRE'' \<and> factor = 1 \<and> base = now
      \<or> name = ''EXPIREAT'' \<and> factor = 1000 \<and> base = 0 \<or> name = ''PEXPIREAT'' \<and> factor = 1 \<and> base = 0"
    using assms(5) by simp
  then obtain relative where h: "ExpireRequestHandler name factor relative \<in> set named_handlers" "name \<noteq> []"
    "base = (if relative then now else 0)"
    using that [of True] that [of False] by (elim disjE conjE) (simp_all add: expire_handlers)
  note v = Expire_ParseInteger_to_string [OF assms(2)]
  have opt: "option_args = [] \<and> option = NA \<or> (\<exists>o1. option_args = [Some o1] \<and> ToExpireOption o1 = Some option)"
    using assms(6) by (auto simp: ToExpireOption_def)
  have "IsHandler (ExpireRequestHandler name factor relative) (command_request name ?args) = Inr True"
    using h(2) opt assms(1) v by (auto simp: Expire_IsHandler_def nonempty_def)
  from Dispatch_key_command [OF h(1) _ h(2) this]
  have "Dispatch now (command_request name ?args) data = Expire_Handle factor relative now (command_request name ?args) data"
    by simp
  also have "\<dots> = (let (was_set, data') = Store_ExpireAt key (base + v * factor) option data
      in Inr (Integer (if was_set then 1 else 0), data'))"
    using h(2,3) opt assms(3,4) v by (auto simp: Expire_Handle_def arg_def Let_def split: if_splits)
  finally show ?thesis by (simp add: split_beta Let_def)
qed

text \<open>
  \<^bold>\<open>C18\<close>. The replies and effects of the commands, for a non-empty key: \<open>GET\<close>, \<open>SET\<close>, \<open>DEL\<close>,
  \<open>PERSIST\<close>, \<open>TTL\<close> (in seconds, rounded down; the negative codes unchanged) and \<open>PTTL\<close> (in
  milliseconds) are the store operations of the same names, \<open>ECHO\<close> and \<open>PING\<close> do not touch the
  store.
\<close>

theorem dispatch_commands:
  assumes "key \<noteq> []"
  shows "Dispatch now (command_request ''GET'' [Some key]) data = Inr (BulkString (Store_Get now data key), data)
    \<and> Dispatch now (command_request ''SET'' [Some key, v]) data = Inr (SimpleString ''OK'', Store_Set key v data)
    \<and> Dispatch now (command_request ''DEL'' [Some key]) data = Inr (Integer 1, Store_Del key data)
    \<and> Dispatch now (command_request ''PERSIST'' [Some key]) data =
        Inr (Integer (if fst (Store_Persist now key data) then 1 else 0), snd (Store_Persist now key data))
    \<and> Dispatch now (command_request ''TTL'' [Some key]) data =
        bindE (Store_Ttl now data key) (\<lambda>ttl. Inr (Integer (if ttl < 0 then ttl else ttl div 1000), data))
    \<and> Dispatch now (command_request ''PTTL'' [Some key]) data =
        bindE (Store_Ttl now data key) (\<lambda>ttl. Inr (Integer ttl, data))
    \<and> Dispatch now (command_request ''ECHO'' [v]) data = Inr (BulkString v, data)
    \<and> Dispatch now (command_request ''PING'' []) data = Inr (SimpleString ''PONG'', data)
    \<and> Dispatch now (command_request ''PING'' [v]) data = Inr (BulkString v, data)"
  by (intro conjI Dispatch_GET Dispatch_SET Dispatch_DEL Dispatch_PERSIST Dispatch_TTL Dispatch_PTTL
      Dispatch_ECHO_PING assms)

theorem dispatch_commands_witness:
  "Dispatch 7 (command_request ''SET'' [Some ''k'', Some ''v'']) [] = Inr (SimpleString ''OK'', Store_Set ''k'' (Some ''v'') [])"
  by (rule dispatch_commands [THEN conjunct2, THEN conjunct1]) simp

text \<open>
  \<^bold>\<open>C19\<close>. The four commands that set a deadline, with or without an option: the deadline is the
  argument, in seconds or milliseconds, counted from now or from the epoch, and the reply is
  1 or 0 as \<open>ExpireAt\<close> succeeds or not, provided the time is representable.
\<close>

theorem dispatch_expire:
  assumes "key \<noteq> []" and "in_int64 v" and "in_int64 (v * factor)" and "in_int64 (base + v * factor)"
    and "(name, factor, base) \<in> {(''EXPIRE'', 1000, now), (''PEXPIRE'', 1, now), (''EXPIREAT'', 1000, 0), (''PEXPIREAT'', 1, 0)}"
    and "(option_args, option) \<in> {([], NA), ([Some ''NX''], NX), ([Some ''XX''], XX), ([Some ''GT''], GT), ([Some ''LT''], LT)}"
  shows "Dispatch now (command_request name (Some key # Some (to_string v) # option_args)) data =
    Inr (Integer (if fst (Store_ExpireAt key (base + v * factor) option data) then 1 else 0),
         snd (Store_ExpireAt key (base + v * factor) option data))"
  using assms by (rule Dispatch_EXPIRE)

theorem dispatch_expire_witness:
  "Dispatch 500 (command_request ''EXPIRE'' [Some ''k'', Some (to_string 3), Some ''NX'']) []
     = Inr (Integer 0, [])"
  using dispatch_expire [of "''k''" 3 1000 500 "''EXPIRE''" 500 "[Some ''NX'']" NX "[]"]
  by (simp add: int64_defs Store_ExpireAt_def StandardMap_LookUp_def)

text \<open>
  The order in which the dispatcher registers its handlers does not matter, except that
  \<open>UnknownRequestHandler\<close> comes last: no two of the other handlers ever claim the same request.
\<close>

lemma dispatch_order_irrelevant:
  assumes "mset handlers = mset (butlast RequestDispatcher_handlers)"
  shows "DispatchLoop (handlers @ [UnknownRequestHandler]) now request data = Dispatch now request data"
  using assms DispatchLoop_chain [of handlers] by (simp add: Dispatch_chain named_handlers_def)

text \<open>
  \<^bold>\<open>C20\<close>. Executing a batch of well-formed requests at sensible times neither faults nor throws:
  each request gets one well-formed reply, so the client can parse all replies, and the store
  stays well formed. Excluded are the requests that do fault: a null option of the \<open>EXPIRE\<close>
  commands, and times that are out of range.
\<close>

theorem dispatch_batch_safe:
  assumes "good_store data"
    and "\<And>now request. (now, request) \<in> set batch \<Longrightarrow>
      good_clock now \<and> wf_resp request \<and> small_time request \<and> \<not> nil_option request"
  shows "\<exists>replies data'. DispatchAll batch data = Inr (replies, data') \<and> length replies = length batch
    \<and> list_all wf_resp replies \<and> good_store data'"
  using assms by (intro DispatchAll_good) auto

lemma good_store_empty: "good_store []"
  by (simp add: good_store_def StandardMap_defs)

theorem dispatch_batch_safe_witness:
  "\<exists>replies data'. DispatchAll [(5, command_request ''GET'' [Some ''k''])] [] = Inr (replies, data')
    \<and> length replies = length [(5 :: int, command_request ''GET'' [Some ''k''])]
    \<and> list_all wf_resp replies \<and> good_store data'"
proof (rule dispatch_batch_safe [OF good_store_empty])
  fix now request
  assume "(now, request) \<in> set [(5 :: int, command_request ''GET'' [Some ''k''])]"
  then have "now = 5" "request = command_request ''GET'' [Some ''k'']" by simp_all
  moreover have "wf_resp (command_request ''GET'' [Some ''k''])"
    by (simp add: command_request_def small_value_def int64_defs)
  ultimately show "good_clock now \<and> wf_resp request \<and> small_time request \<and> \<not> nil_option request"
    by (simp add: good_clock_def small_time_def nil_option_def expire_names_def)
qed

text \<open>
  \<^bold>\<open>C21\<close>. Requests that any client can send and that reach undefined behaviour, whatever the store
  holds: \<open>EXPIRE key n nil\<close> dereferences an empty optional, and \<open>EXPIRE key n\<close> with a number of
  seconds that is no \<open>int64_t\<close> in milliseconds overflows.
\<close>

theorem dispatch_expire_faults:
  assumes "key \<noteq> []" and "in_int64 n" and "in_int64 big" and "\<not> in_int64 (big * 1000)"
  shows "Dispatch now (command_request ''EXPIRE'' [Some key, Some (to_string n), None]) data = Inl nullopt_deref
    \<and> Dispatch now (command_request ''EXPIRE'' [Some key, Some (to_string big)]) data = Inl signed_overflow"
proof -
  have d: "Dispatch now (command_request ''EXPIRE'' args) data =
      bindE (Expire_IsHandler ''EXPIRE'' (command_request ''EXPIRE'' args)) (\<lambda>claims.
        if claims then Expire_Handle 1000 True now (command_request ''EXPIRE'' args) data
        else Inr (Unknown_Handle, data))" for args
    using Dispatch_named [OF expire_handlers(1), of "command_request ''EXPIRE'' args" "\<lparr>cmd_name = ''EXPIRE'', cmd_args = args\<rparr>"]
    by (simp cong: if_cong)
  have "Dispatch now (command_request ''EXPIRE'' [Some key, Some (to_string n), None]) data = Inl nullopt_deref"
    unfolding d using assms(1) Expire_ParseInteger_to_string [OF assms(2)]
    by (simp add: Expire_IsHandler_def nonempty_def deref_def)
  moreover have "Dispatch now (command_request ''EXPIRE'' [Some key, Some (to_string big)]) data = Inl signed_overflow"
    unfolding d using assms(1,4) Expire_ParseInteger_to_string [OF assms(3)]
    by (simp add: Expire_IsHandler_def nonempty_def Expire_Handle_def arg_def Let_def)
  ultimately show ?thesis by blast
qed

theorem dispatch_expire_faults_witness:
  "Dispatch 0 (command_request ''EXPIRE'' [Some ''k'', Some (to_string 10), None]) [] = Inl nullopt_deref
   \<and> Dispatch 0 (command_request ''EXPIRE'' [Some ''k'', Some (to_string 9223372036854775807)]) [] = Inl signed_overflow"
  by (rule dispatch_expire_faults) (simp_all add: int64_defs)

text \<open>
  \<^bold>\<open>C22\<close>. What a request can change: the store is changed only by \<open>SET\<close>, \<open>DEL\<close>, \<open>PERSIST\<close> and the
  four \<open>EXPIRE\<close> commands, and only at the key that is the first argument. A request that is no
  command at all is answered with an error and changes nothing.
\<close>

theorem dispatch_frame:
  assumes "StandardMap_invar data" and "Dispatch now request data = Inr (reply, data')"
  shows "StandardMap_invar data'
    \<and> (\<not> names_key key request \<longrightarrow> StandardMap_LookUp data' key = StandardMap_LookUp data key)
    \<and> (case ParseCommand request of
         None \<Rightarrow> reply = Error ''Unknown subcommand or command'' \<and> data' = data
       | Some command \<Rightarrow>
           cmd_name command \<in> {''SET'', ''DEL'', ''EXPIRE'', ''PEXPIRE'', ''EXPIREAT'', ''PEXPIREAT'', ''PERSIST''}
           \<or> data' = data)"
  using assms(2)
proof (cases rule: Dispatch_cases)
  case 1
  with assms(1) show ?thesis by (auto simp: Unknown_Handle_def split: option.split)
next
  case (2 h command)
  have "names_key key request \<or> StandardMap_LookUp data' key = StandardMap_LookUp data key"
    using Dispatch_other_key(1) [OF assms(2,1)] by blast
  moreover have "StandardMap_invar data'" using Handle_invar [OF 2(5) assms(1)] .
  ultimately show ?thesis using Handle_read_only [OF 2(5,1)] 2(2,3) by auto
qed

theorem dispatch_frame_witness:
  "StandardMap_LookUp (Store_Set ''k'' (Some ''v'') sample_store) ''a'' = StandardMap_LookUp sample_store ''a''"
proof -
  have inv: "StandardMap_invar sample_store" by (simp add: sample_simps)
  have h: "Dispatch 7 (command_request ''SET'' [Some ''k'', Some ''v'']) sample_store
      = Inr (SimpleString ''OK'', Store_Set ''k'' (Some ''v'') sample_store)"
    by (rule Dispatch_SET) simp
  from dispatch_frame [OF inv h, of "''a''"] show ?thesis by (simp add: names_key_def)
qed

text \<open>
  \<^bold>\<open>C23\<close>. A session with expiry: after \<open>SET key v\<close>, then \<open>EXPIRE key s\<close>, with any other requests in
  between that do not name the key, \<open>GET key\<close> replies the value as long as at most \<open>s\<close> seconds
  have passed since the \<open>EXPIRE\<close>, and null afterwards.
\<close>

theorem dispatch_session:
  assumes "StandardMap_invar data" and "key \<noteq> []" and "in_int64 s" and "in_int64 (s * 1000)" and "in_int64 (expire_time + s * 1000)"
    and "expire_time + s * 1000 \<noteq> -1"
    and "\<forall>(now, request) \<in> set (before @ after). \<not> names_key key request"
    and "DispatchAll ([(set_time, command_request ''SET'' [Some key, Some v])] @ before @
        [(expire_time, command_request ''EXPIRE'' [Some key, Some (to_string s)])] @ after @
        [(get_time, command_request ''GET'' [Some key])]) data = Inr (replies, data')"
  shows "last replies = BulkString (if get_time \<le> expire_time + s * 1000 then Some v else None)"
proof -
  let ?ts = "expire_time + s * 1000" and ?d0 = "Store_Set key (Some v) data"
  let ?a = "\<lambda>entry. entry\<lparr>entry_expiry := ?ts\<rparr>"
  note set_step = Dispatch_SET [OF assms(2)] and get_step = Dispatch_GET [OF assms(2)]
  have d0: "StandardMap_invar ?d0" "StandardMap_LookUp ?d0 key = Some \<lparr>entry_expiry = NO_EXPIRY, entry_value = Some v\<rparr>"
    using assms(1) by (simp_all add: Store_Set_def std.insert_invar std.lookup_insert)
  obtain r1 d1 where o1: "DispatchAll before ?d0 = Inr (r1, d1)"
    using assms(8) set_step by (auto simp: DispatchAll_append bindE_eq_Inr)
  have d1: "StandardMap_LookUp d1 key = StandardMap_LookUp ?d0 key" "StandardMap_invar d1"
    using DispatchAll_other_key [OF o1 d0(1)] assms(7) by auto
  have expire_step: "Dispatch expire_time (command_request ''EXPIRE'' [Some key, Some (to_string s)]) d1
      = Inr (Integer 1, StandardMap_Assign ?a key d1)"
    using Dispatch_EXPIRE [OF assms(2-5), of "''EXPIRE''" expire_time "[]" NA d1]
    by (simp add: Store_ExpireAt_def d0 d1)
  obtain r2 d2 where o2: "DispatchAll after (StandardMap_Assign ?a key d1) = Inr (r2, d2)"
    using assms(8) set_step expire_step o1 by (auto simp: DispatchAll_append bindE_eq_Inr)
  have d2: "StandardMap_LookUp d2 key = Some \<lparr>entry_expiry = ?ts, entry_value = Some v\<rparr>"
    using DispatchAll_other_key [OF o2 std.assign_invar [OF d1(2)], of key] assms(7) d0(2) d1
    by (auto simp: std.lookup_assign)
  have "last replies = BulkString (Store_Get get_time d2 key)"
    using assms(8) set_step expire_step o1 o2 get_step by (auto simp: DispatchAll_append bindE_eq_Inr)
  also have "Store_Get get_time d2 key = (if get_time \<le> ?ts then Some v else None)"
    using assms(6) by (simp add: Store_Get_def d2 NO_EXPIRY_def)
  finally show ?thesis .
qed

theorem dispatch_session_witness:
  "last [SimpleString ''OK'', Integer 1, BulkString None] = BulkString (if (5000 :: int) \<le> 10 + 3 * 1000 then Some ''v'' else None)"
proof (rule dispatch_session [where data = "[]" and key = "''k''" and before = "[]" and after = "[]" and set_time = 0])
  let ?d = "Store_Set ''k'' (Some ''v'') []"
  have key: "''k'' \<noteq> []" by simp
  have "Dispatch 10 (command_request ''EXPIRE'' [Some ''k'', Some (to_string 3)]) ?d
      = Inr (Integer 1, snd (Store_ExpireAt ''k'' (10 + 3 * 1000) NA ?d))"
    using Dispatch_EXPIRE [OF key, of 3 1000 10 "''EXPIRE''" 10 "[]" NA ?d]
    by (simp add: int64_defs Store_ExpireAt_def Store_Set_def StandardMap_defs)
  then show "DispatchAll ([(0, command_request ''SET'' [Some ''k'', Some ''v''])] @ [] @
      [(10, command_request ''EXPIRE'' [Some ''k'', Some (to_string 3)])] @ [] @
      [(5000, command_request ''GET'' [Some ''k''])]) []
    = Inr ([SimpleString ''OK'', Integer 1, BulkString None], snd (Store_ExpireAt ''k'' (10 + 3 * 1000) NA ?d))"
    by (simp add: Dispatch_SET Dispatch_GET Store_Get_def Store_ExpireAt_def Store_Set_def StandardMap_defs NO_EXPIRY_def)
qed (simp_all add: StandardMap_defs int64_defs)

end
