(* ===== verification/Snapshotter.thy ===== *)
theory Snapshotter
  imports Store
begin

text \<open>
  \<open>v2/src/snapshot/snapshotter.cc\<close>: writing the store to a file and finding and loading the newest
  file again. A directory is the list of its entries in the order \<open>directory_iterator\<close> visits
  them. The results of the system calls come from outside and are arguments, so a theorem holds
  for every way they can succeed, fail, be interrupted or write only a part. \<open>seen\<close> is a ghost
  field: the contents of the directory after each call that changed it. A process that is killed
  leaves the directory as it was after one of these calls; what a loss of power does to data that
  was not synchronised is not modelled. The directory is the one \<open>output_dir_\<close> names; the file
  names are relative to it.
\<close>

section \<open>The directory and the system calls\<close>

datatype node = RegularFile string | OtherNode

type_synonym directory = "(string \<times> node) list"

record disk =
  files :: directory
  seen :: "directory list"
  open_fds :: nat

datatype write_result = Wrote nat | WriteInterrupted | WriteFailed

record syscalls =
  mkstemp_name :: "string option"
  write_results :: "write_result list"
  fsync_file_ok :: bool
  close_file_ok :: bool
  rename_ok :: bool
  open_dir_ok :: bool
  fsync_dir_ok :: bool
  close_dir_ok :: bool

definition change_files :: "(directory \<Rightarrow> directory) \<Rightarrow> disk \<Rightarrow> disk" where
  "change_files f d = d\<lparr>files := f (files d), seen := seen d @ [f (files d)]\<rparr>"

definition create_file :: "string \<Rightarrow> disk \<Rightarrow> disk" where
  "create_file name d = (change_files (AList.update name (RegularFile [])) d)\<lparr>open_fds := open_fds d + 1\<rparr>"

definition append_file :: "string \<Rightarrow> string \<Rightarrow> disk \<Rightarrow> disk" where
  "append_file name bytes = change_files (AList.map_entry name (\<lambda>f. case f of
     RegularFile content \<Rightarrow> RegularFile (content @ bytes) | OtherNode \<Rightarrow> OtherNode))"

definition rename_file :: "string \<Rightarrow> string \<Rightarrow> disk \<Rightarrow> disk" where
  "rename_file from_name to_name = change_files (\<lambda>fs. case map_of fs from_name of
     None \<Rightarrow> fs | Some f \<Rightarrow> AList.update to_name f (AList.delete from_name fs))"

definition unlink_file :: "string \<Rightarrow> disk \<Rightarrow> disk" where
  "unlink_file name = change_files (AList.delete name)"

definition open_fd :: "disk \<Rightarrow> disk" where "open_fd d = d\<lparr>open_fds := open_fds d + 1\<rparr>"
definition close_fd :: "disk \<Rightarrow> disk" where "close_fd d = d\<lparr>open_fds := open_fds d - 1\<rparr>"

lemmas disk_defs = change_files_def create_file_def append_file_def rename_file_def unlink_file_def open_fd_def close_fd_def

section \<open>\<open>DurableWrite\<close>\<close>

text \<open>
  The loop around \<open>write\<close>. The list holds the results of the successive calls; the result
  \<open>None\<close> means that the program is still waiting for the next one.
\<close>

fun WriteLoop :: "write_result list \<Rightarrow> string \<Rightarrow> string \<Rightarrow> disk \<Rightarrow> disk \<times> unit result option" where
  "WriteLoop results tmp_file [] d = (d, Some (Inr ()))"
| "WriteLoop [] tmp_file (c # output) d = (d, None)"
| "WriteLoop (WriteInterrupted # results) tmp_file (c # output) d = WriteLoop results tmp_file (c # output) d"
| "WriteLoop (WriteFailed # results) tmp_file (c # output) d = (d, Some (Inl (runtime_error ''write failed'')))"
| "WriteLoop (Wrote n # results) tmp_file (c # output) d =
     WriteLoop results tmp_file (drop n (c # output)) (append_file tmp_file (take n (c # output)) d)"

text \<open>
  The body of the \<open>try\<close> block. The flag of the result is \<open>temp_fd != -1\<close>, which the handler
  looks at.
\<close>

definition SyncDirectory :: "syscalls \<Rightarrow> disk \<Rightarrow> disk \<times> unit result" where
  "SyncDirectory sys d =
     (if \<not> open_dir_ok sys then (d, Inl (runtime_error ''open(dir) failed''))
      else let d1 = open_fd d in
        if \<not> fsync_dir_ok sys then (close_fd d1, Inl (runtime_error ''fsync(dir) failed''))
        else (close_fd d1, if close_dir_ok sys then Inr () else Inl (runtime_error ''close(dir) failed'')))"

definition DurableWriteBody :: "syscalls \<Rightarrow> string \<Rightarrow> string \<Rightarrow> string \<Rightarrow> disk \<Rightarrow> disk \<times> bool \<times> unit result option" where
  "DurableWriteBody sys tmp_file output_name output d =
     (case WriteLoop (write_results sys) tmp_file output d of
        (d1, None) \<Rightarrow> (d1, True, None)
      | (d1, Some (Inl e)) \<Rightarrow> (d1, True, Some (Inl e))
      | (d1, Some (Inr _)) \<Rightarrow>
          if \<not> fsync_file_ok sys then (d1, True, Some (Inl (runtime_error ''fsync(file) failed'')))
          else let d2 = close_fd d1 in
            if \<not> close_file_ok sys then (d2, False, Some (Inl (runtime_error ''close failed'')))
            else if \<not> rename_ok sys then (d2, False, Some (Inl (runtime_error ''rename failed'')))
            else let (d3, r) = SyncDirectory sys (rename_file tmp_file output_name d2) in (d3, False, Some r))"

definition DurableWrite :: "syscalls \<Rightarrow> string \<Rightarrow> string \<Rightarrow> disk \<Rightarrow> disk \<times> unit result option" where
  "DurableWrite sys output_name output d =
     (case mkstemp_name sys of
        None \<Rightarrow> (d, Some (Inl (runtime_error ''mkstemp failed'')))
      | Some tmp_file \<Rightarrow>
          (case DurableWriteBody sys tmp_file output_name output (create_file tmp_file d) of
             (d1, temp_open, Some (Inl e)) \<Rightarrow>
               (unlink_file tmp_file (if temp_open then close_fd d1 else d1), Some (Inl e))
           | (d1, temp_open, r) \<Rightarrow> (d1, r)))"

section \<open>Snapshots\<close>

definition kSnapshotSuffix :: string where "kSnapshotSuffix = ''.snapshot.json''"

text \<open>The constants of \<open>server.cc\<close>.\<close>

definition kSnapshotPrefix :: string where "kSnapshotPrefix = ''dump-''"

definition starts_with :: "string \<Rightarrow> string \<Rightarrow> bool" where
  "starts_with name p \<longleftrightarrow> take (length p) name = p"

definition ends_with :: "string \<Rightarrow> string \<Rightarrow> bool" where
  "ends_with name p \<longleftrightarrow> length p \<le> length name \<and> drop (length name - length p) name = p"

text \<open>The timestamp in a file name, if it is the name of a snapshot.\<close>

definition snapshot_timestamp :: "string \<Rightarrow> string \<Rightarrow> int option" where
  "snapshot_timestamp prefix name =
     (if \<not> starts_with name prefix \<or> \<not> ends_with name kSnapshotSuffix then None
      else let digits = substr name (length prefix) (length name - length kSnapshotSuffix - length prefix)
           in case from_chars digits of
                Inl errc \<Rightarrow> None
              | Inr (timestamp, ptr) \<Rightarrow> if ptr \<noteq> length digits then None else Some timestamp)"

fun LatestLoop :: "string \<Rightarrow> directory \<Rightarrow> int \<Rightarrow> string option \<Rightarrow> string option" where
  "LatestLoop prefix [] best_timestamp best = best"
| "LatestLoop prefix ((name, OtherNode) # entries) best_timestamp best = LatestLoop prefix entries best_timestamp best"
| "LatestLoop prefix ((name, RegularFile content) # entries) best_timestamp best =
     (case snapshot_timestamp prefix name of
        None \<Rightarrow> LatestLoop prefix entries best_timestamp best
      | Some timestamp \<Rightarrow>
          if timestamp > best_timestamp then LatestLoop prefix entries timestamp (Some name)
          else LatestLoop prefix entries best_timestamp best)"

definition LatestSnapshot :: "directory \<Rightarrow> string \<Rightarrow> string option" where
  "LatestSnapshot dir prefix = LatestLoop prefix dir (-1) None"

definition snapshot_name :: "string \<Rightarrow> int \<Rightarrow> string" where
  "snapshot_name prefix timestamp = prefix @ to_string timestamp @ kSnapshotSuffix"

definition Snapshot :: "syscalls \<Rightarrow> string \<Rightarrow> int \<Rightarrow> Store \<Rightarrow> disk \<Rightarrow> disk \<times> unit result option" where
  "Snapshot sys prefix now store d = DurableWrite sys (snapshot_name prefix now) (SerialiseToJson store) d"

text \<open>\<open>readable\<close> says which files \<open>std::ifstream\<close> can open.\<close>

definition Restore :: "(string \<Rightarrow> bool) \<Rightarrow> string \<Rightarrow> directory \<Rightarrow> Store \<Rightarrow> bool \<times> Store" where
  "Restore readable prefix dir store =
     (case LatestSnapshot dir prefix of
        None \<Rightarrow> (True, store)
      | Some path \<Rightarrow>
          (case map_of dir path of
             Some (RegularFile content) \<Rightarrow>
               if \<not> readable path then (False, store)
               else (case DeserialiseFromJson content store of
                       (Inr _, store') \<Rightarrow> (True, store')
                     | (Inl e, store') \<Rightarrow> (False, store'))
           | _ \<Rightarrow> (False, store)))"

section \<open>The newest snapshot\<close>

lemma snapshot_timestamp_name:
  assumes "in_int64 t"
  shows "snapshot_timestamp prefix (snapshot_name prefix t) = Some t"
  using from_chars_to_string [OF assms, of "[]"]
  by (simp add: snapshot_timestamp_def snapshot_name_def starts_with_def ends_with_def substr_def Let_def)

definition newest :: "string \<Rightarrow> string \<Rightarrow> int \<Rightarrow> directory \<Rightarrow> bool" where
  "newest prefix name t entries \<longleftrightarrow> (\<forall>(n, f) \<in> set entries.
     if n = name then f \<noteq> OtherNode
     else (case snapshot_timestamp prefix n of None \<Rightarrow> True | Some t' \<Rightarrow> t' < t))"

lemma LatestLoop_newest:
  assumes "snapshot_timestamp prefix name = Some t"
  shows "newest prefix name t entries \<Longrightarrow> bt = t \<and> best = Some name \<or> bt < t \<and> name \<in> fst ` set entries \<Longrightarrow>
    LatestLoop prefix entries bt best = Some name"
proof (induction entries arbitrary: bt best)
  case (Cons e entries)
  obtain n f where e: "e = (n, f)" by (cases e)
  have rest: "newest prefix name t entries" using Cons.prems(1) by (simp add: newest_def)
  note IH = Cons.IH [OF rest]
  show ?case
  proof (cases "n = name")
    case True
    then obtain c where "f = RegularFile c" using Cons.prems(1) e by (cases f) (auto simp: newest_def)
    with True assms Cons.prems(2) IH e show ?thesis by auto
  next
    case False
    with Cons.prems(1) have "snapshot_timestamp prefix n = Some t' \<Longrightarrow> t' < t" for t' by (auto simp: newest_def e)
    with False Cons.prems(2) IH e show ?thesis by (cases f) (auto split: option.split)
  qed
qed auto

lemma LatestSnapshot_newest:
  assumes "snapshot_timestamp prefix name = Some t" and "0 \<le> t" and "newest prefix name t dir" and "map_of dir name \<noteq> None"
  shows "LatestSnapshot dir prefix = Some name"
  unfolding LatestSnapshot_def
  by (rule LatestLoop_newest [OF assms(1,3)]) (use assms(2,4) in \<open>auto simp: map_of_eq_None_iff\<close>)

text \<open>Entries that are not snapshots do not matter.\<close>

definition snapshots :: "string \<Rightarrow> directory \<Rightarrow> directory" where
  "snapshots prefix dir = filter (\<lambda>(name, f). snapshot_timestamp prefix name \<noteq> None) dir"

lemma LatestLoop_snapshots: "LatestLoop prefix (snapshots prefix dir) bt best = LatestLoop prefix dir bt best"
  by (induction prefix dir bt best rule: LatestLoop.induct) (auto simp: snapshots_def split: option.split)

lemma LatestLoop_mem:
  "LatestLoop prefix dir bt best = Some name \<Longrightarrow> best = Some name \<or> snapshot_timestamp prefix name \<noteq> None"
  by (induction prefix dir bt best rule: LatestLoop.induct) (auto split: option.splits if_splits)

lemma map_of_snapshots:
  "snapshot_timestamp prefix name \<noteq> None \<Longrightarrow> map_of (snapshots prefix dir) name = map_of dir name"
  by (induction dir) (auto simp: snapshots_def)

lemma Restore_snapshots: "Restore readable prefix (snapshots prefix dir) store = Restore readable prefix dir store"
  using LatestLoop_mem [of prefix dir "-1" None] map_of_snapshots [of prefix _ dir]
  by (simp add: Restore_def LatestSnapshot_def LatestLoop_snapshots split: option.split)

lemma snapshots_cong:
  "snapshots prefix dir = snapshots prefix dir' \<Longrightarrow> Restore readable prefix dir store = Restore readable prefix dir' store"
  by (metis Restore_snapshots)

lemma snapshots_temp:
  assumes "snapshot_timestamp prefix tmp = None"
  shows "snapshots prefix (AList.update tmp f dir) = snapshots prefix dir"
    and "snapshots prefix (AList.delete tmp dir) = snapshots prefix dir"
    and "snapshots prefix (AList.map_entry tmp g dir) = snapshots prefix dir"
  using assms by (induction dir) (auto simp: snapshots_def)

lemma snapshots_update:
  "snapshot_timestamp prefix name \<noteq> None \<Longrightarrow> snapshots prefix (AList.update name f dir) = AList.update name f (snapshots prefix dir)"
  by (induction dir) (auto simp: snapshots_def)

section \<open>Every state of the directory during a write\<close>

text \<open>All directories of a run satisfy \<open>P\<close>.\<close>

definition all_dirs :: "(directory \<Rightarrow> bool) \<Rightarrow> disk \<Rightarrow> bool" where
  "all_dirs P d \<longleftrightarrow> P (files d) \<and> (\<forall>fs \<in> set (seen d). P fs)"

definition same_snapshots :: "string \<Rightarrow> directory \<Rightarrow> directory \<Rightarrow> bool" where
  "same_snapshots prefix dir fs \<longleftrightarrow> snapshots prefix fs = snapshots prefix dir"

lemma all_dirs_change: "all_dirs P d \<Longrightarrow> P (f (files d)) \<Longrightarrow> all_dirs P (change_files f d)"
  by (auto simp: all_dirs_def change_files_def)

lemma all_dirs_fds [simp]: "all_dirs P (open_fd d) = all_dirs P d" "all_dirs P (close_fd d) = all_dirs P d"
  "all_dirs P (d\<lparr>open_fds := n\<rparr>) = all_dirs P d"
  by (simp_all add: all_dirs_def open_fd_def close_fd_def)

lemma files_fds [simp]: "files (open_fd d) = files d" "files (close_fd d) = files d"
  "files (change_files f d) = f (files d)" "open_fds (change_files f d) = open_fds d"
  by (simp_all add: disk_defs)

lemma same_snapshots_temp:
  assumes "snapshot_timestamp prefix tmp = None" and "all_dirs (same_snapshots prefix dir) d"
  shows "all_dirs (same_snapshots prefix dir) (create_file tmp d)"
    and "all_dirs (same_snapshots prefix dir) (append_file tmp bytes d)"
    and "all_dirs (same_snapshots prefix dir) (unlink_file tmp d)"
  using assms snapshots_temp [OF assms(1)]
  by (auto simp: create_file_def append_file_def unlink_file_def same_snapshots_def all_dirs_def intro!: all_dirs_change)
    (auto simp: change_files_def)

lemma WriteLoop_dirs:
  "snapshot_timestamp prefix tmp = None \<Longrightarrow> all_dirs (same_snapshots prefix dir) d \<Longrightarrow>
     WriteLoop rs tmp out d = (d', r) \<Longrightarrow> all_dirs (same_snapshots prefix dir) d'"
  by (induction rs tmp out d rule: WriteLoop.induct) (auto simp: same_snapshots_temp(2))

lemma WriteLoop_content:
  "WriteLoop rs tmp out d = (d', r) \<Longrightarrow> map_of (files d) tmp = Some (RegularFile c) \<Longrightarrow>
     open_fds d' = open_fds d \<and> (r = Some (Inr ()) \<longrightarrow> map_of (files d') tmp = Some (RegularFile (c @ out)))"
proof (induction rs tmp out d arbitrary: c rule: WriteLoop.induct)
  case (5 n rs tmp b out d)
  have "map_of (files (append_file tmp (take n (b # out)) d)) tmp = Some (RegularFile (c @ take n (b # out)))"
    using "5.prems"(2) by (simp add: append_file_def map_of_map_entry)
  from "5.IH" [OF _ this] "5.prems"(1) show ?case by (simp add: append_file_def)
qed auto

lemma WriteLoop_enough:
  "length out \<le> sum_list ns \<Longrightarrow> snd (WriteLoop (map Wrote ns) tmp out d) = Some (Inr ())"
proof (induction ns arbitrary: out d)
  case (Cons n ns)
  then show ?case by (cases out) auto
qed auto

definition old_or_new :: "string \<Rightarrow> string \<Rightarrow> string \<Rightarrow> directory \<Rightarrow> directory \<Rightarrow> bool" where
  "old_or_new prefix name out dir fs \<longleftrightarrow> same_snapshots prefix dir fs \<or>
     snapshots prefix fs = AList.update name (RegularFile out) (snapshots prefix dir)"

lemma all_dirs_mono: "all_dirs P d \<Longrightarrow> (\<And>fs. P fs \<Longrightarrow> Q fs) \<Longrightarrow> all_dirs Q d"
  by (auto simp: all_dirs_def)

lemma DurableWriteBody_dirs:
  assumes tmp: "snapshot_timestamp prefix tmp = None" and name: "snapshot_timestamp prefix name \<noteq> None"
    and same: "all_dirs (same_snapshots prefix dir) d" and created: "map_of (files d) tmp = Some (RegularFile [])"
    and r: "DurableWriteBody sys tmp name out d = (d', temp_open, r)"
  shows "all_dirs (old_or_new prefix name out dir) d'"
    and "r = Some (Inr ()) \<Longrightarrow> snapshots prefix (files d') = AList.update name (RegularFile out) (snapshots prefix dir)
      \<and> map_of (files d') tmp = None"
    and "r \<noteq> None \<Longrightarrow> 0 < open_fds d \<Longrightarrow> open_fds d' = (if temp_open then open_fds d else open_fds d - 1)"
    and "r = Some (Inr ()) \<Longrightarrow> \<not> temp_open"
proof -
  obtain d1 w where w: "WriteLoop (write_results sys) tmp out d = (d1, w)" by (rule prod.exhaust)
  have old: "all_dirs (same_snapshots prefix dir) d1" by (rule WriteLoop_dirs [OF tmp same w])
  note c = WriteLoop_content [OF w created]
  have weak: "all_dirs (old_or_new prefix name out dir) d1"
    by (rule all_dirs_mono [OF old]) (simp add: old_or_new_def)
  let ?d3 = "rename_file tmp name (close_fd d1)"
  have renamed: "files ?d3 = AList.update name (RegularFile out) (AList.delete tmp (files d1))" if "w = Some (Inr ())"
    using c that by (simp add: rename_file_def)
  have new: "snapshots prefix (files ?d3) = AList.update name (RegularFile out) (snapshots prefix dir)
      \<and> map_of (files ?d3) tmp = None" if "w = Some (Inr ())"
    using renamed [OF that] old tmp name
    by (auto simp: snapshots_update snapshots_temp all_dirs_def same_snapshots_def AList.update_conv' AList.delete_conv')
  have all: "all_dirs (old_or_new prefix name out dir) ?d3" if "w = Some (Inr ())"
    using weak new [OF that] unfolding rename_file_def
    by (intro all_dirs_change) (auto simp: old_or_new_def)
  have fds: "open_fds ?d3 = open_fds d1 - 1" by (simp add: rename_file_def close_fd_def)
  show "all_dirs (old_or_new prefix name out dir) d'"
    using r w weak all by (auto simp: DurableWriteBody_def SyncDirectory_def Let_def split: option.splits sum.splits if_splits)
  show "r = Some (Inr ()) \<Longrightarrow> snapshots prefix (files d') = AList.update name (RegularFile out) (snapshots prefix dir)
      \<and> map_of (files d') tmp = None"
    using r w new by (auto simp: DurableWriteBody_def SyncDirectory_def Let_def split: option.splits sum.splits if_splits)
  show "r \<noteq> None \<Longrightarrow> 0 < open_fds d \<Longrightarrow> open_fds d' = (if temp_open then open_fds d else open_fds d - 1)"
    using r w c fds by (auto simp: DurableWriteBody_def SyncDirectory_def Let_def open_fd_def close_fd_def split: option.splits sum.splits if_splits)
  show "r = Some (Inr ()) \<Longrightarrow> \<not> temp_open"
    using r w by (auto simp: DurableWriteBody_def SyncDirectory_def Let_def split: option.splits sum.splits if_splits)
qed

lemma DurableWrite_dirs:
  assumes tmp: "mkstemp_name sys = Some tmp" "snapshot_timestamp prefix tmp = None" and name: "snapshot_timestamp prefix name \<noteq> None"
    and same: "all_dirs (same_snapshots prefix dir) d"
    and r: "DurableWrite sys name out d = (d', r)"
  shows "all_dirs (old_or_new prefix name out dir) d'"
    and "r = Some (Inr ()) \<Longrightarrow> snapshots prefix (files d') = AList.update name (RegularFile out) (snapshots prefix dir)"
    and "r \<noteq> None \<Longrightarrow> open_fds d' = open_fds d \<and> map_of (files d') tmp = None"
proof -
  obtain d1 temp_open b where body: "DurableWriteBody sys tmp name out (create_file tmp d) = (d1, temp_open, b)"
    by (metis prod_cases3)
  have created: "map_of (files (create_file tmp d)) tmp = Some (RegularFile [])" "0 < open_fds (create_file tmp d)"
    by (simp_all add: create_file_def AList.update_conv')
  note h = DurableWriteBody_dirs [OF tmp(2) name same_snapshots_temp(1) [OF tmp(2) same] created(1) body]
  have unlinked: "all_dirs (old_or_new prefix name out dir) (unlink_file tmp d2)" if "all_dirs (old_or_new prefix name out dir) d2" for d2
    using that unfolding unlink_file_def
    by (intro all_dirs_change) (auto simp: all_dirs_def old_or_new_def same_snapshots_def snapshots_temp [OF tmp(2)])
  show "all_dirs (old_or_new prefix name out dir) d'"
    using r body h(1) unlinked by (auto simp: DurableWrite_def tmp(1) split: option.splits sum.splits if_splits)
  show "r = Some (Inr ()) \<Longrightarrow> snapshots prefix (files d') = AList.update name (RegularFile out) (snapshots prefix dir)"
    using r body h(2) by (auto simp: DurableWrite_def tmp(1) split: option.splits sum.splits if_splits)
  have "open_fds (create_file tmp d) = open_fds d + 1" by (simp add: create_file_def)
  then show "r \<noteq> None \<Longrightarrow> open_fds d' = open_fds d \<and> map_of (files d') tmp = None"
    using r body h(2-4) created
    by (auto simp: DurableWrite_def tmp(1) unlink_file_def close_fd_def AList.delete_conv' split: option.splits sum.splits if_splits)
qed

definition all_calls_ok :: "syscalls \<Rightarrow> bool" where
  "all_calls_ok sys \<longleftrightarrow> fsync_file_ok sys \<and> close_file_ok sys \<and> rename_ok sys \<and> open_dir_ok sys \<and> fsync_dir_ok sys \<and> close_dir_ok sys"

lemma DurableWrite_completes:
  assumes "mkstemp_name sys = Some tmp" and "all_calls_ok sys" and "write_results sys = map Wrote ns" and "length out \<le> sum_list ns"
  shows "snd (DurableWrite sys name out d) = Some (Inr ())"
  using assms(1-3) WriteLoop_enough [OF assms(4), of tmp "create_file tmp d"]
  by (auto simp: DurableWrite_def DurableWriteBody_def SyncDirectory_def all_calls_ok_def Let_def split: prod.splits)

lemma DurableWrite_success: "snd (DurableWrite sys name out d) = Some (Inr ()) \<Longrightarrow> all_calls_ok sys"
  by (auto simp: DurableWrite_def DurableWriteBody_def SyncDirectory_def all_calls_ok_def Let_def
    split: option.splits prod.splits sum.splits if_splits)

text \<open>The rename comes after the bytes of the file have reached the disk.\<close>

lemma DurableWrite_unflushed:
  assumes tmp: "mkstemp_name sys = Some tmp" "snapshot_timestamp prefix tmp = None"
    and same: "all_dirs (same_snapshots prefix dir) d" and "\<not> fsync_file_ok sys" and r: "DurableWrite sys name out d = (d', r)"
  shows "all_dirs (same_snapshots prefix dir) d'"
proof -
  obtain d1 w where w: "WriteLoop (write_results sys) tmp out (create_file tmp d) = (d1, w)" by (rule prod.exhaust)
  note d1 = WriteLoop_dirs [OF tmp(2) same_snapshots_temp(1) [OF tmp(2) same] w]
  have "all_dirs (same_snapshots prefix dir) (close_fd d1)" using d1 by simp
  with d1 show ?thesis using r w assms(4) same_snapshots_temp(3) [OF tmp(2)]
    by (auto simp: DurableWrite_def DurableWriteBody_def tmp(1) split: option.splits sum.splits)
qed

section \<open>Loading what was written\<close>

definition older_than :: "int \<Rightarrow> string \<Rightarrow> directory \<Rightarrow> bool" where
  "older_than now prefix dir \<longleftrightarrow>
     list_all (\<lambda>(name, f). case snapshot_timestamp prefix name of None \<Rightarrow> True | Some t \<Rightarrow> t < now) dir"

lemma set_update_subset: "set (AList.update k v es) \<subseteq> insert (k, v) (set es)"
  by (induction es) auto

lemma newest_update:
  assumes "older_than now prefix dir" and "snapshot_timestamp prefix name = Some now"
  shows "newest prefix name now (AList.update name (RegularFile c) (snapshots prefix dir))"
  using set_update_subset [of name "RegularFile c" "snapshots prefix dir"] assms
  by (fastforce simp: newest_def older_than_def snapshots_def list_all_iff split: option.splits)

lemma serialised_loads:
  assumes "Store_invar store"
  shows "\<exists>data. DeserialiseFromJson (SerialiseToJson store) [] = (Inr (), data) \<and> StandardMap_LookUp data = StandardMap_LookUp store"
proof -
  have d: "distinct (map fst store)" using assms by (simp add: Store_invar_def StandardMap_invar_def)
  have "\<forall>(key, entry) \<in> set store. in_int64 (entry_expiry entry)"
    using assms map_of_eq_Some_iff [OF d] by (auto simp: Store_invar_def StandardMap_LookUp_def)
  note r = DeserialiseFromJson_Serialise [OF this, of "[]"]
  have "StandardMap_LookUp store = map_of store" "StandardMap_LookUp ([] :: Store) = Map.empty" "StandardMap_invar ([] :: Store)"
    by (auto simp: StandardMap_defs fun_eq_iff)
  with r std.fold_insert [of "[]" store] map_of_rev [OF d] show ?thesis by auto
qed

lemma Restore_new:
  assumes "older_than now prefix dir" and "in_int64 now" and "0 \<le> now" and "readable (snapshot_name prefix now)"
    and "Store_invar store"
    and fs: "snapshots prefix fs = AList.update (snapshot_name prefix now) (RegularFile (SerialiseToJson store)) (snapshots prefix dir)"
  shows "\<exists>data. Restore readable prefix fs [] = (True, data) \<and> StandardMap_LookUp data = StandardMap_LookUp store"
proof -
  note ts = snapshot_timestamp_name [OF assms(2)]
  have m: "map_of (snapshots prefix fs) (snapshot_name prefix now) = Some (RegularFile (SerialiseToJson store))"
    unfolding fs by (simp add: AList.update_conv')
  then have "LatestSnapshot (snapshots prefix fs) prefix = Some (snapshot_name prefix now)"
    using newest_update [OF assms(1) ts] by (intro LatestSnapshot_newest [OF ts assms(3)]) (auto simp: fs)
  with m assms(4) serialised_loads [OF assms(5)]
  have "\<exists>data. Restore readable prefix (snapshots prefix fs) [] = (True, data) \<and> StandardMap_LookUp data = StandardMap_LookUp store"
    by (auto simp: Restore_def)
  then show ?thesis by (simp add: Restore_snapshots)
qed

lemma temp_no_snapshot: "snapshot_timestamp kSnapshotPrefix (''.tmp-'' @ x) = None"
  by (simp add: snapshot_timestamp_def starts_with_def kSnapshotPrefix_def)

section \<open>Properties\<close>

text \<open>
  \<^bold>\<open>C29\<close>. A snapshot is atomic. However the system calls of \<open>Snapshot\<close> turn out, and whenever the
  process is killed, every state the directory goes through is loaded by \<open>Restore\<close>
  either exactly as before the call or as the complete store that was being written, and the
  latter only after the bytes of the file have been flushed to the disk. \<open>Snapshot\<close> returns only
  when file and directory have been flushed. When
  it returns the new store is what is loaded, and when it returns or throws, the
  temporary file is gone and no descriptor is left open. It does return when the calls succeed
  and \<open>write\<close> accepts all bytes, in however many pieces. It relies on \<open>mkstemp\<close> completing the
  template \<open>.tmp-XXXXXX\<close> and on a clock that is ahead of the existing snapshots.
\<close>

theorem snapshot_atomic:
  assumes "mkstemp_name sys = Some (''.tmp-'' @ x)" and "older_than now kSnapshotPrefix (files d)"
    and "in_int64 now" and "0 \<le> now" and "Store_invar store" and "readable (snapshot_name kSnapshotPrefix now)"
    and "seen d = []" and "Snapshot sys kSnapshotPrefix now store d = (d', r)"
  shows "(\<forall>fs \<in> set (seen d').
      Restore readable kSnapshotPrefix fs [] = Restore readable kSnapshotPrefix (files d) [] \<or>
      (\<exists>data. Restore readable kSnapshotPrefix fs [] = (True, data) \<and> StandardMap_LookUp data = StandardMap_LookUp store))
    \<and> (\<not> fsync_file_ok sys \<longrightarrow>
        (\<forall>fs \<in> set (seen d'). Restore readable kSnapshotPrefix fs [] = Restore readable kSnapshotPrefix (files d) []))
    \<and> (r = Some (Inr ()) \<longrightarrow> all_calls_ok sys \<and>
        (\<exists>data. Restore readable kSnapshotPrefix (files d') [] = (True, data) \<and> StandardMap_LookUp data = StandardMap_LookUp store))
    \<and> (r \<noteq> None \<longrightarrow> open_fds d' = open_fds d \<and> map_of (files d') (''.tmp-'' @ x) = None)
    \<and> (all_calls_ok sys \<and> write_results sys = map Wrote ns \<and> length (SerialiseToJson store) \<le> sum_list ns \<longrightarrow> r = Some (Inr ()))"
proof -
  let ?p = kSnapshotPrefix
  have same: "all_dirs (same_snapshots ?p (files d)) d" using assms(7) by (simp add: all_dirs_def same_snapshots_def)
  have name: "snapshot_timestamp ?p (snapshot_name ?p now) \<noteq> None" using snapshot_timestamp_name [OF assms(3)] by simp
  note h = DurableWrite_dirs [OF assms(1) temp_no_snapshot name same assms(8) [unfolded Snapshot_def]]
  note new = Restore_new [where readable = readable, OF assms(2-4,6,5)]
  have "Restore readable ?p fs [] = Restore readable ?p (files d) [] \<or>
      (\<exists>data. Restore readable ?p fs [] = (True, data) \<and> StandardMap_LookUp data = StandardMap_LookUp store)"
    if "fs \<in> set (seen d')" for fs
  proof -
    have "old_or_new ?p (snapshot_name ?p now) (SerialiseToJson store) (files d) fs"
      using h(1) that by (simp add: all_dirs_def)
    then show ?thesis using snapshots_cong [of ?p fs "files d"] new
      unfolding old_or_new_def same_snapshots_def by blast
  qed
  moreover have "all_calls_ok sys \<and> write_results sys = map Wrote ns \<and> length (SerialiseToJson store) \<le> sum_list ns \<longrightarrow> r = Some (Inr ())"
    using assms(1,8) DurableWrite_completes [of sys "''.tmp-'' @ x" ns "SerialiseToJson store" "snapshot_name ?p now" d]
    by (auto simp: Snapshot_def)
  moreover have "Restore readable ?p fs [] = Restore readable ?p (files d) []" if "\<not> fsync_file_ok sys" "fs \<in> set (seen d')" for fs
    using DurableWrite_unflushed [OF assms(1) temp_no_snapshot same that(1) assms(8) [unfolded Snapshot_def]] that(2)
      snapshots_cong [of ?p fs "files d"] by (simp add: all_dirs_def same_snapshots_def)
  moreover have "all_calls_ok sys" if "r = Some (Inr ())"
    using DurableWrite_success [of sys "snapshot_name ?p now" "SerialiseToJson store" d] assms(8) that by (simp add: Snapshot_def)
  ultimately show ?thesis using h(2,3) new by blast
qed

definition sample_disk :: disk where
  "sample_disk = \<lparr>files = [(''dump-9.snapshot.json'', RegularFile ''{}''), (''notes'', OtherNode)], seen = [], open_fds = 3\<rparr>"

definition sample_calls :: syscalls where
  "sample_calls = \<lparr>mkstemp_name = Some ''.tmp-a'', write_results = [Wrote 1, WriteInterrupted, Wrote 1],
     fsync_file_ok = True, close_file_ok = True, rename_ok = True, open_dir_ok = True, fsync_dir_ok = True, close_dir_ok = True\<rparr>"

lemma older_than_sample: "older_than 10 kSnapshotPrefix [(''dump-9.snapshot.json'', RegularFile ''{}''), (''notes'', OtherNode)]"
  by (simp add: older_than_def snapshot_timestamp_def kSnapshotPrefix_def kSnapshotSuffix_def starts_with_def ends_with_def
    substr_def from_chars_def scan_sign_def is_digit_def dec_value_def digit_value_def signed_def throw_if_def int64_defs)

theorem snapshot_atomic_witness:
  "snd (Snapshot sample_calls kSnapshotPrefix 10 [] sample_disk) = Some (Inr ())
   \<and> open_fds (fst (Snapshot sample_calls kSnapshotPrefix 10 [] sample_disk)) = 3
   \<and> (\<exists>data. Restore (\<lambda>_. True) kSnapshotPrefix (files (fst (Snapshot sample_calls kSnapshotPrefix 10 [] sample_disk))) [] = (True, data)
      \<and> StandardMap_LookUp data = StandardMap_LookUp ([] :: Store))"
proof -
  obtain d' r where s: "Snapshot sample_calls kSnapshotPrefix 10 [] sample_disk = (d', r)" by (rule prod.exhaust)
  have "r = Some (Inr ())"
    using s by (simp add: Snapshot_def DurableWrite_def DurableWriteBody_def SyncDirectory_def SerialiseToJson_def
      StandardMap_ForEach_def sample_calls_def Let_def)
  moreover have "older_than 10 kSnapshotPrefix (files sample_disk)" by (simp add: sample_disk_def older_than_sample)
  ultimately show ?thesis
    using snapshot_atomic [of sample_calls "''a''" 10 sample_disk "[]" "\<lambda>_. True" d' r] s
    by (simp add: sample_calls_def sample_disk_def int64_defs Store_invar_def StandardMap_defs)
qed

end
