(* ===== verification/Resp_Value_Queue.thy ===== *)
theory Resp_Value_Queue
  imports Resp_Value
begin

text \<open>
  The incremental parser of \<open>v2/src/resp_value/resp_value_queue.{h,cc}\<close>: bytes are appended
  to a buffer; \<open>PopValue\<close> moves every complete value from the buffer to a queue and returns
  the oldest one. The members \<open>buffer_\<close> and \<open>values_\<close> are the fields \<open>rvq_buffer\<close>
  and \<open>rvq_values\<close>. \<open>PopValue\<close> changes the queue also when it throws, so its model returns the
  new queue beside the result or exception.
\<close>

record RespValueQueue =
  rvq_buffer :: string
  rvq_values :: "RespValue list"

definition empty_queue :: RespValueQueue where
  "empty_queue = \<lparr>rvq_buffer = [], rvq_values = []\<rparr>"

definition PushString :: "string \<Rightarrow> RespValueQueue \<Rightarrow> RespValueQueue" where
  "PushString str q = q\<lparr>rvq_buffer := rvq_buffer q @ str\<rparr>"

text \<open>The \<open>while (true)\<close> loop of \<open>PopValue\<close>; it ends with the exception that leaves it.\<close>

function PopLoop :: "RespValueQueue \<Rightarrow> exn \<times> RespValueQueue" where
  "PopLoop q =
     (case FromString (rvq_buffer q) of
        Inl e \<Rightarrow> (e, q)
      | Inr (val, pos) \<Rightarrow>
          PopLoop (q\<lparr>rvq_values := rvq_values q @ [val],
                     rvq_buffer := (if pos < length (rvq_buffer q) then drop pos (rvq_buffer q) else [])\<rparr>))"
  by pat_completeness auto
termination
  by (relation "measure (\<lambda>q. length (rvq_buffer q))") (auto dest: FromString_bounds)

declare PopLoop.simps [simp del]

definition PopValue :: "RespValueQueue \<Rightarrow> RespValue option result \<times> RespValueQueue" where
  "PopValue q =
     (let (e, q1) = PopLoop q in
      if is_out_of_range e
      then (case rvq_values q1 of
              [] \<Rightarrow> (Inr None, q1)
            | value # vs \<Rightarrow> (Inr (Some value), q1\<lparr>rvq_values := vs\<rparr>))
      else (Inl e, q1))"

section \<open>The loop\<close>

lemma PopLoop_incomplete:
  "FromString (rvq_buffer q) = Inl e \<Longrightarrow> PopLoop q = (e, q)"
  by (subst PopLoop.simps) simp

lemma PopLoop_progress:
  "PopLoop q = (e, q') \<Longrightarrow> q' = q \<or> length (rvq_buffer q') < length (rvq_buffer q)"
proof (induction q rule: PopLoop.induct)
  case (1 q)
  show ?case
  proof (cases "FromString (rvq_buffer q)")
    case (Inl x)
    with 1 show ?thesis by (simp add: PopLoop.simps [of q])
  next
    case (Inr vp)
    obtain v p where vp: "vp = (v, p)" by (cases vp)
    note b = FromString_bounds [OF Inr [unfolded vp]]
    let ?q = "q\<lparr>rvq_values := rvq_values q @ [v],
      rvq_buffer := (if p < length (rvq_buffer q) then drop p (rvq_buffer q) else [])\<rparr>"
    have "PopLoop ?q = (e, q')" using "1.prems" Inr vp by (simp add: PopLoop.simps [of q])
    with "1.IH" [OF Inr, of v p] vp have "q' = ?q \<or> length (rvq_buffer q') < length (rvq_buffer ?q)"
      by simp
    with b show ?thesis by (auto split: if_splits)
  qed
qed

lemma PopLoop_stops: "PopLoop q = (e, q') \<Longrightarrow> FromString (rvq_buffer q') = Inl e"
proof (induction q rule: PopLoop.induct)
  case (1 q)
  then show ?case
    by (cases "FromString (rvq_buffer q)") (auto simp: PopLoop.simps [of q] split: prod.splits)
qed

text \<open>
  The reader loop \<open>while (request = PopValue()) batch.push_back(request)\<close> shared by
  the server's IO threads and the client: all values that can be read now. An exception of
  \<open>PopValue\<close> leaves the loop and the batch read so far is lost.
\<close>

function PopAll :: "RespValueQueue \<Rightarrow> RespValue list result \<times> RespValueQueue" where
  "PopAll q =
     (case PopValue q of
        (Inl e, q') \<Rightarrow> (Inl e, q')
      | (Inr None, q') \<Rightarrow> (Inr [], q')
      | (Inr (Some v), q') \<Rightarrow>
          (case PopAll q' of (Inl e, q2) \<Rightarrow> (Inl e, q2) | (Inr vs, q2) \<Rightarrow> (Inr (v # vs), q2)))"
  by pat_completeness auto

lemma PopValue_smaller:
  assumes "PopValue q = (Inr (Some v), q')"
  shows "length (rvq_buffer q') < length (rvq_buffer q) \<or>
    rvq_buffer q' = rvq_buffer q \<and> length (rvq_values q') < length (rvq_values q)"
  using assms PopLoop_progress [of q]
  by (auto simp: PopValue_def Let_def split: prod.splits if_splits list.splits)

termination PopAll
  by (relation "measures [\<lambda>q. length (rvq_buffer q), \<lambda>q. length (rvq_values q)]")
    (auto dest!: PopValue_smaller [OF sym])

declare PopAll.simps [simp del]

section \<open>Reading a stream in pieces\<close>

text \<open>
  While the bytes received and still to come form a stream of well-formed values, the loop
  takes complete values from the front and leaves the start of the next one in the buffer.
\<close>

lemma PopLoop_stream:
  assumes "list_all wf_resp ws" and "rvq_buffer q @ fut = concat (map Serialize ws)"
  obtains vs ws' b m where "ws = vs @ ws'" "b @ fut = concat (map Serialize ws')"
    "FromString b = Inl (out_of_range m)"
    "PopLoop q = (out_of_range m, q\<lparr>rvq_values := rvq_values q @ vs, rvq_buffer := b\<rparr>)"
  using assms
proof (induction ws arbitrary: q thesis)
  case Nil
  then have "rvq_buffer q = []" "fut = []" by simp_all
  moreover then have "PopLoop q = (out_of_range ''Unexpected end of input while parsing RESP value'', q)"
    by (intro PopLoop_incomplete) (simp add: FromString_def ParseVariant.simps)
  ultimately show ?case
    by (intro Nil(1) [of "[]" "[]" "[]"]) (simp_all add: FromString_def ParseVariant.simps)
next
  case (Cons w ws)
  let ?b = "rvq_buffer q"
  have eq: "?b @ fut = Serialize w @ concat (map Serialize ws)" and wf: "wf_resp w" "list_all wf_resp ws"
    using Cons.prems by simp_all
  show ?case
  proof (cases "length (Serialize w) \<le> length ?b")
    case True
    define b2 where "b2 = drop (length (Serialize w)) ?b"
    have "take (length (Serialize w)) (?b @ fut) = Serialize w" unfolding eq by simp
    with True have b: "?b = Serialize w @ b2"
      using append_take_drop_id [of "length (Serialize w)" ?b] by (simp add: b2_def)
    with eq have b2: "b2 @ fut = concat (map Serialize ws)" by simp
    let ?q = "q\<lparr>rvq_values := rvq_values q @ [w], rvq_buffer := b2\<rparr>"
    have step: "PopLoop q = PopLoop ?q"
      using FromString_Serialize [OF wf(1), of b2] b
      by (cases b2) (simp_all add: PopLoop.simps [of q])
    show ?thesis
    proof (rule Cons.IH [of ?q])
      fix vs ws' b' m
      assume "ws = vs @ ws'" "b' @ fut = concat (map Serialize ws')" "FromString b' = Inl (out_of_range m)"
        "PopLoop ?q = (out_of_range m, ?q\<lparr>rvq_values := rvq_values ?q @ vs, rvq_buffer := b'\<rparr>)"
      with step show ?thesis by (intro Cons.prems(1) [of "w # vs" ws' b' m]) simp_all
    qed (use wf b2 in simp_all)
  next
    case False
    then obtain t where t: "Serialize w = ?b @ t" "t \<noteq> []"
      using eq by (metis append_eq_append_conv2 append_Nil2 length_append linorder_not_le
          not_add_less1)
    obtain m where m: "FromString ?b = Inl (out_of_range m)"
      using FromString_strict_prefix [OF wf(1) t] by blast
    then show ?thesis
      using Cons.prems PopLoop_incomplete [OF m] by (intro Cons.prems(1) [of "[]" "w # ws" ?b m]) simp_all
  qed
qed

lemma PopValue_drained:
  assumes "FromString (rvq_buffer q) = Inl (out_of_range m)"
  shows "PopValue q = (case rvq_values q of [] \<Rightarrow> (Inr None, q)
    | v # vs \<Rightarrow> (Inr (Some v), q\<lparr>rvq_values := vs\<rparr>))"
  using PopLoop_incomplete [OF assms] by (simp add: PopValue_def)

lemma PopAll_drained:
  assumes "FromString (rvq_buffer q) = Inl (out_of_range m)"
  shows "PopAll q = (Inr (rvq_values q), q\<lparr>rvq_values := []\<rparr>)"
  using assms
proof (induction "rvq_values q" arbitrary: q)
  case Nil
  then show ?case by (simp add: PopAll.simps [of q] PopValue_drained)
next
  case (Cons v vs)
  then have "PopAll (q\<lparr>rvq_values := vs\<rparr>) = (Inr vs, q\<lparr>rvq_values := []\<rparr>)"
    using Cons.hyps(1) [of "q\<lparr>rvq_values := vs\<rparr>"] by simp
  with Cons show ?case by (simp add: PopAll.simps [of q] PopValue_drained flip: Cons.hyps(2))
qed

lemma PopAll_PopLoop:
  assumes "PopLoop q = (out_of_range m, q1)"
  shows "PopAll q = PopAll q1"
proof -
  have "PopLoop q1 = (out_of_range m, q1)"
    using PopLoop_stops [OF assms] by (rule PopLoop_incomplete)
  with assms have "PopValue q = PopValue q1" by (simp add: PopValue_def)
  then show ?thesis by (simp add: PopAll.simps [of q] PopAll.simps [of q1])
qed

lemma PopAll_stream:
  assumes "list_all wf_resp ws" and "rvq_values q = []" and "rvq_buffer q @ fut = concat (map Serialize ws)"
  obtains vs ws' b m where "ws = vs @ ws'" "b @ fut = concat (map Serialize ws')"
    "FromString b = Inl (out_of_range m)" "PopAll q = (Inr vs, \<lparr>rvq_buffer = b, rvq_values = []\<rparr>)"
proof -
  obtain vs ws' b m where h: "ws = vs @ ws'" "b @ fut = concat (map Serialize ws')"
    "FromString b = Inl (out_of_range m)"
    "PopLoop q = (out_of_range m, q\<lparr>rvq_values := rvq_values q @ vs, rvq_buffer := b\<rparr>)"
    using PopLoop_stream [OF assms(1) assms(3)] by blast
  let ?q = "q\<lparr>rvq_values := vs, rvq_buffer := b\<rparr>"
  have "PopAll q = PopAll ?q" using PopAll_PopLoop [OF h(4)] assms(2) by simp
  also have "\<dots> = (Inr vs, \<lparr>rvq_buffer = b, rvq_values = []\<rparr>)"
    using PopAll_drained [of ?q m] h(3) by simp
  finally show ?thesis using that h by blast
qed

text \<open>A session: each received chunk is pushed and everything readable is popped.\<close>

fun ReadChunks :: "RespValueQueue \<Rightarrow> string list \<Rightarrow> RespValue list result \<times> RespValueQueue" where
  "ReadChunks q [] = (Inr [], q)"
| "ReadChunks q (c # cs) =
     (case PopAll (PushString c q) of
        (Inl e, q') \<Rightarrow> (Inl e, q')
      | (Inr vs, q') \<Rightarrow>
          (case ReadChunks q' cs of (Inl e, q2) \<Rightarrow> (Inl e, q2) | (Inr ws, q2) \<Rightarrow> (Inr (vs @ ws), q2)))"

lemma ReadChunks_stream:
  assumes "list_all wf_resp ws" and "rvq_values q = []"
    and "rvq_buffer q @ concat cs = concat (map Serialize ws)"
    and "FromString (rvq_buffer q) = Inl (out_of_range m)"
  shows "ReadChunks q cs = (Inr ws, empty_queue)"
  using assms
proof (induction cs arbitrary: q ws m)
  case Nil
  have "ws = []"
  proof (rule ccontr)
    assume "ws \<noteq> []"
    then obtain w ws' where "ws = w # ws'" by (cases ws) auto
    with Nil FromString_Serialize [of w "concat (map Serialize ws')"] show False by simp
  qed
  with Nil show ?case by (simp add: empty_queue_def)
next
  case (Cons c cs)
  let ?q = "PushString c q"
  have "rvq_values ?q = []" "rvq_buffer ?q @ concat cs = concat (map Serialize ws)"
    using Cons.prems by (simp_all add: PushString_def)
  from PopAll_stream [OF Cons.prems(1) this] obtain vs ws' b m' where
    h: "ws = vs @ ws'" "b @ concat cs = concat (map Serialize ws')" "FromString b = Inl (out_of_range m')"
    "PopAll ?q = (Inr vs, \<lparr>rvq_buffer = b, rvq_values = []\<rparr>)" .
  have "ReadChunks \<lparr>rvq_buffer = b, rvq_values = []\<rparr> cs = (Inr ws', empty_queue)"
    using Cons.prems(1) h by (intro Cons.IH [of ws' _ m']) simp_all
  with h show ?case by simp
qed

section \<open>Input that is malformed but reported as incomplete\<close>

text \<open>
  Two framing errors are thrown as \<open>out_of_range\<close>: a number too large for \<open>stoll\<close>,
  and a bulk string whose payload is not followed by CRLF. The queue takes both for missing
  input and keeps the bytes.
\<close>

lemma is_digit_not_sign: "is_digit c \<Longrightarrow> c \<noteq> CHR ''-'' \<and> c \<noteq> CHR ''+'' \<and> \<not> isspace c \<and> c \<noteq> CR"
  by (auto simp: is_digit_def isspace_def)

lemma stoll_overflow:
  assumes "ds \<noteq> []" and "list_all is_digit ds" and "int (dec_value ds) > INT64_MAX"
  shows "stoll ds = Inl (out_of_range ''stoll'')"
proof -
  obtain c cs where ds: "ds = c # cs" using assms(1) by (cases ds) auto
  then have "is_digit c" using assms(2) by simp
  note c = is_digit_not_sign [OF this]
  have "takeWhile is_digit ds = ds" using assms(2) by (simp add: list_all_iff)
  with ds c assms(3) show ?thesis by (simp add: stoll_def scan_sign_def signed_def int64_defs)
qed

lemma FromString_integer_overflow:
  assumes "ds \<noteq> []" and "list_all is_digit ds" and "int (dec_value ds) > INT64_MAX"
  shows "FromString ('':'' @ ds @ CRLF @ t) = Inl (out_of_range ''stoll'')"
proof -
  have "CR \<notin> set ds" using assms(2) is_digit_not_sign by (auto simp: list_all_iff)
  then have "find_list CRLF ds = None" by (rule find_list_CRLF_no_CR)
  from line_at [OF this, of "[]" "CHR '':''" t] stoll_overflow [OF assms] show ?thesis
    by (simp add: FromString_def ParseVariant.simps ParseInteger_def)
qed

lemma FromString_bad_bulk_end:
  assumes "int (length s) \<le> INT64_MAX" and "\<not> (a = CR \<and> b = LF)"
  shows "FromString (''$'' @ dec_string (length s) @ CRLF @ s @ a # b # t)
    = Inl (out_of_range ''Bulk string missing terminating CRLF'')"
proof -
  let ?h = "dec_string (length s)"
  let ?str = "CHR ''$'' # ?h @ CR # LF # s @ a # b # t"
  have line: "str_find ?str CRLF 1 = Some (1 + length ?h)" "substr ?str 1 (length ?h) = ?h"
    using line_at [of ?h "[]" "CHR ''$''" "s @ a # b # t"] by simp_all
  have "?str ! (length ?h + 3 + length s) = a" "?str ! (length ?h + 3 + length s + 1) = b"
    by (simp_all add: nth_append numeral_3_eq_3)
  with line assms stoll_dec_string [OF assms(1)] show ?thesis
    by (simp add: FromString_def ParseVariant.simps ParseBulkString_def Let_def numeral_3_eq_3)
qed

lemma PopValue_wedged:
  assumes "FromString b = Inl (out_of_range m)" 
  shows "PopValue \<lparr>rvq_buffer = b, rvq_values = []\<rparr> = (Inr None, \<lparr>rvq_buffer = b, rvq_values = []\<rparr>)"
  using assms PopValue_drained [of "\<lparr>rvq_buffer = b, rvq_values = []\<rparr>" m] by simp

section \<open>Properties\<close>

text \<open>
  \<^bold>\<open>C9\<close>. However a stream of well-formed values is cut into chunks, a reader that pushes
  each chunk and then pops what is available obtains exactly those values in order, and the
  queue is empty at the end.
\<close>

theorem queue_chunking_irrelevant:
  assumes "list_all wf_resp vs" and "concat chunks = concat (map Serialize vs)"
  shows "ReadChunks empty_queue chunks = (Inr vs, empty_queue)"
proof (rule ReadChunks_stream [OF assms(1)])
  show "FromString (rvq_buffer empty_queue)
      = Inl (out_of_range ''Unexpected end of input while parsing RESP value'')"
    by (simp add: empty_queue_def FromString_def ParseVariant.simps)
qed (use assms(2) in \<open>simp_all add: empty_queue_def\<close>)

theorem queue_chunking_irrelevant_witness:
  "ReadChunks empty_queue [''+O'', ''K'' @ [CR], LF # ''$-1'', CRLF]
     = (Inr [RespSimpleString ''OK'', RespBulkString None], empty_queue)"
  using queue_chunking_irrelevant [of "[RespSimpleString ''OK'', RespBulkString None]"
      "[''+O'', ''K'' @ [CR], LF # ''$-1'', CRLF]"] by simp

text \<open>
  A bad type prefix is a framing error that \<open>PopValue\<close> reports at once, whatever
  precedes it: the complete values before it stay queued and the exception propagates.
\<close>

lemma queue_reports_bad_prefix:
  assumes "list_all wf_resp vs" and "c \<notin> set ''+-:$*''"
  shows "PopValue \<lparr>rvq_buffer = concat (map Serialize vs) @ c # rest, rvq_values = us\<rparr>
    = (Inl (invalid_argument ''Invalid resp type prefix''),
       \<lparr>rvq_buffer = c # rest, rvq_values = us @ vs\<rparr>)"
proof -
  have "PopLoop \<lparr>rvq_buffer = concat (map Serialize vs) @ c # rest, rvq_values = us\<rparr>
    = (invalid_argument ''Invalid resp type prefix'', \<lparr>rvq_buffer = c # rest, rvq_values = us @ vs\<rparr>)"
    using assms(1)
  proof (induction vs arbitrary: us)
    case Nil
    have "FromString (c # rest) = Inl (invalid_argument ''Invalid resp type prefix'')"
      using assms(2) by (simp add: FromString_def ParseVariant.simps)
    then show ?case by (simp add: PopLoop_incomplete)
  next
    case (Cons v vs)
    from Cons.prems FromString_Serialize [of v "concat (map Serialize vs) @ c # rest"]
    show ?case using Cons.IH [of "us @ [v]"] by (subst PopLoop.simps) simp
  qed
  then show ?thesis by (simp add: PopValue_def)
qed

text \<open>
  \<^bold>\<open>C10\<close>. Malformed input that wedges the queue: once an integer that does not fit
  \<open>long long\<close>, or a bulk string without its closing CRLF, is at the front of the buffer,
  \<open>PopValue\<close> returns no value and no error and keeps every byte, whatever arrives later.
\<close>

theorem queue_wedged_by_malformed_input:
  assumes "ds \<noteq> []" and "list_all is_digit ds" and "int (dec_value ds) > INT64_MAX"
    and "int (length s) \<le> INT64_MAX" and "\<not> (a = CR \<and> b = LF)"
    and "buf \<in> {'':'' @ ds @ CRLF, ''$'' @ dec_string (length s) @ CRLF @ s @ [a, b]}"
  shows "PopValue (PushString later \<lparr>rvq_buffer = buf, rvq_values = []\<rparr>)
    = (Inr None, PushString later \<lparr>rvq_buffer = buf, rvq_values = []\<rparr>)"
proof -
  obtain m where "FromString (buf @ later) = Inl (out_of_range m)"
    using assms(6) FromString_integer_overflow [OF assms(1-3), of later]
      FromString_bad_bulk_end [OF assms(4,5), of later] by auto
  then show ?thesis by (simp add: PushString_def PopValue_wedged)
qed

theorem queue_wedged_by_malformed_input_witness:
  "PopValue (PushString ''*1'' \<lparr>rvq_buffer = '':9999999999999999999'' @ CRLF, rvq_values = []\<rparr>)
    = (Inr None, PushString ''*1'' \<lparr>rvq_buffer = '':9999999999999999999'' @ CRLF, rvq_values = []\<rparr>)"
  using queue_wedged_by_malformed_input [of "''9999999999999999999''" "[]" "CHR ''x''" "CHR ''y''"
      "'':9999999999999999999'' @ CRLF" "''*1''"]
  by (simp add: is_digit_def dec_value_def digit_value_def int64_defs)

end
