(* ===== verification/Socket_Io.thy ===== *)
theory Socket_Io
  imports Prelude
begin

text \<open>
  What the code sees of the operating system's sockets and event counters, and the two small
  components built directly on them: \<open>SendAll\<close> of \<open>v2/src/network/send_all.cc\<close> and \<open>EventFd\<close> of
  \<open>v2/src/concurrent/event_fd.cc\<close>. The results of \<open>send\<close> and \<open>recv\<close> are arguments of the model.
\<close>

datatype errno = EAGAIN | EWOULDBLOCK | EINTR | other_errno

text \<open>\<open>Sent n\<close> is a return value \<open>n \<ge> 0\<close>, \<open>SendError\<close> is -1 with the given \<open>errno\<close>.\<close>

datatype send_result = Sent nat | SendError errno

text \<open>\<open>Received s\<close> is a return value \<open>length s\<close> with the bytes in the buffer; 0 means end of stream.\<close>

datatype recv_result = Received string | RecvError errno

section \<open>\<open>SendAll\<close>\<close>

text \<open>
  The loop of \<open>SendAll\<close> over the bytes that remain: the bytes the socket accepted, the return
  value (\<open>None\<close> while it waits for the next result of \<open>send\<close>) and the results that are left.
\<close>

fun SendLoop :: "nat \<Rightarrow> send_result list \<Rightarrow> string \<Rightarrow> string \<times> int option \<times> send_result list" where
  "SendLoop len results [] = ([], Some (int len), results)"
| "SendLoop len [] (c # p) = ([], None, [])"
| "SendLoop len (Sent n # results) (c # p) =
     (if n > 0
      then let (accepted, r, rest) = SendLoop len results (drop n (c # p)) in (take n (c # p) @ accepted, r, rest)
      else ([], Some (int (len - length (c # p))), results))"
| "SendLoop len (SendError e # results) (c # p) =
     (if e = EINTR then SendLoop len results (c # p)
      else if e = EAGAIN \<or> e = EWOULDBLOCK then ([], Some (-2), results)
      else ([], Some (-1), results))"

definition SendAll :: "send_result list \<Rightarrow> string \<Rightarrow> string \<times> int option \<times> send_result list" where
  "SendAll results buf = SendLoop (length buf) results buf"

lemma SendLoop_spec:
  "SendLoop len rs p = (accepted, r, rest) \<Longrightarrow> length p \<le> len \<Longrightarrow>
     (\<exists>left. p = accepted @ left \<and> (r = Some (int len) \<longleftrightarrow> left = []) \<and>
       (\<forall>n. r = Some n \<longrightarrow> n = -1 \<or> n = -2 \<or> n = int (len - length left)))"
proof (induction len rs p arbitrary: accepted r rest rule: SendLoop.induct)
  case (3 len n rs c p)
  show ?case
  proof (cases "n > 0")
    case True
    obtain acc r' rest' where s: "SendLoop len rs (drop n (c # p)) = (acc, r', rest')" by (rule prod_cases3)
    with "3.prems" True have a: "accepted = take n (c # p) @ acc" "r = r'" by auto
    have "length (drop n (c # p)) \<le> len" using "3.prems"(2) by simp
    from "3.IH" [OF True s this] obtain left where
      "drop n (c # p) = acc @ left" "r' = Some (int len) \<longleftrightarrow> left = []"
      "\<forall>n. r' = Some n \<longrightarrow> n = -1 \<or> n = -2 \<or> n = int (len - length left)"
      by blast
    with a show ?thesis by (intro exI [of _ left]) (metis append_assoc append_take_drop_id)
  qed (use "3.prems" in \<open>auto simp: of_nat_diff\<close>)
qed (auto split: if_splits)

text \<open>
  Whatever \<open>send\<close> returns, what \<open>SendAll\<close> hands to the socket is a prefix of the buffer. It returns
  the length of the buffer exactly when all of it was handed over, and it does so when \<open>send\<close>
  accepts all bytes, in however many pieces and with interruptions in between.
\<close>

lemma SendAll_prefix:
  "SendAll results buf = (accepted, r, rest) \<Longrightarrow>
     \<exists>left. buf = accepted @ left \<and> (r = Some (int (length buf)) \<longleftrightarrow> left = [])"
  using SendLoop_spec [of "length buf" results buf accepted r rest] by (auto simp: SendAll_def)

fun accepts :: "nat \<Rightarrow> send_result list \<Rightarrow> bool" where
  "accepts n (Sent k # rs) \<longleftrightarrow> n = 0 \<or> 0 < k \<and> accepts (n - k) rs"
| "accepts n (SendError e # rs) \<longleftrightarrow> n = 0 \<or> e = EINTR \<and> accepts n rs"
| "accepts n [] \<longleftrightarrow> n = 0"

lemma SendAll_complete:
  "accepts (length buf) results \<Longrightarrow> \<exists>rest. SendAll results buf = (buf, Some (int (length buf)), rest)"
proof -
  have "\<exists>rest. SendLoop len rs p = (p, Some (int len), rest)" if "accepts (length p) rs" for len rs p
    using that by (induction len rs p rule: SendLoop.induct) auto
  then show "accepts (length buf) results \<Longrightarrow> \<exists>rest. SendAll results buf = (buf, Some (int (length buf)), rest)"
    by (simp add: SendAll_def)
qed

section \<open>\<open>EventFd\<close>\<close>

text \<open>
  An event counter: \<open>Notify\<close> adds one, \<open>Drain\<close> sets it to zero, and the descriptor is readable
  while it is positive. The calls are repeated on \<open>EINTR\<close>, which is therefore not visible. A
  write that would take the counter over its maximum fails, and the failure is ignored.
\<close>

record EventFd =
  ev_valid :: bool
  ev_counter :: nat

definition eventfd_max :: nat where "eventfd_max = 18446744073709551614"

definition EventFd_new :: EventFd where
  "EventFd_new = \<lparr>ev_valid = True, ev_counter = 0\<rparr>"

definition Notify :: "EventFd \<Rightarrow> EventFd" where
  "Notify e = (if \<not> ev_valid e then e
     else if ev_counter e + 1 > eventfd_max then e else e\<lparr>ev_counter := ev_counter e + 1\<rparr>)"

definition Drain :: "EventFd \<Rightarrow> EventFd" where
  "Drain e = (if \<not> ev_valid e then e else e\<lparr>ev_counter := 0\<rparr>)"

definition ev_readable :: "EventFd \<Rightarrow> bool" where
  "ev_readable e \<longleftrightarrow> ev_valid e \<and> 0 < ev_counter e"

lemma ev_valid_simps [simp]: "ev_valid (Notify e) = ev_valid e" "ev_valid (Drain e) = ev_valid e" "ev_valid EventFd_new"
  by (simp_all add: Notify_def Drain_def EventFd_new_def)

lemma Notify_readable: "ev_valid e \<Longrightarrow> ev_readable (Notify e)"
  by (auto simp: ev_readable_def Notify_def eventfd_max_def)

lemma Drain_readable [simp]: "\<not> ev_readable (Drain e)"
  by (simp add: ev_readable_def Drain_def)



end
