(* ===== verification/Client.thy ===== *)
theory Client
  imports Resp_Value_Queue Socket_Io
begin

text \<open>
  The command line client of \<open>v2/src/client\<close>: cutting a line into arguments (\<open>string_helpers.cc\<close>),
  the two threads of \<open>worker.cc\<close> that send requests and print replies, and the choice of an
  address in \<open>connect.cc\<close>.
\<close>

section \<open>\<open>string_helpers.cc\<close>\<close>

text \<open>\<open>Split\<close>; with an empty delimiter the loop does not end, which is the result \<open>None\<close>.\<close>

partial_function (option) SplitLoop :: "string \<Rightarrow> string \<Rightarrow> nat \<Rightarrow> string list \<Rightarrow> string list option" where
  "SplitLoop delimiter input current split_up_strings =
     (if current < length input
      then (case str_find input delimiter current of
              None \<Rightarrow> SplitLoop delimiter input (length input) (split_up_strings @ [drop current input])
            | Some next_pos \<Rightarrow> SplitLoop delimiter input (next_pos + length delimiter)
                (split_up_strings @ [substr input current (next_pos - current)]))
      else Some split_up_strings)"

definition Split :: "string \<Rightarrow> string \<Rightarrow> string list option" where
  "Split delimiter input = SplitLoop delimiter input 0 []"

abbreviation quote :: char where "quote \<equiv> CHR 0x22"

fun JoinLoop :: "string list \<Rightarrow> string \<Rightarrow> string list \<Rightarrow> string list" where
  "JoinLoop [] acc result = (if acc \<noteq> [] then result @ [acc] else result)"
| "JoinLoop (word # input) acc result =
     (if acc \<noteq> []
      then let acc1 = acc @ '' '' @ word in
        if acc1 ! (length acc1 - 1) = quote then JoinLoop input [] (result @ [substr acc1 1 (length acc1 - 2)])
        else JoinLoop input acc1 result
      else if word \<noteq> [] \<and> word ! 0 = quote then JoinLoop input word result
      else JoinLoop input [] (result @ [word]))"

definition JoinDelimitedStrings :: "string list \<Rightarrow> string list" where
  "JoinDelimitedStrings input = JoinLoop input [] []"

section \<open>\<open>worker.cc\<close>\<close>

definition SenderMessage :: "string list \<Rightarrow> RespValue" where
  "SenderMessage split_input = Array (map (\<lambda>value. BulkString (Some value)) split_input)"

text \<open>
  \<open>SenderWorker\<close> on the lines that \<open>std::getline\<close> delivers, with the results of \<open>send\<close>: the
  bytes that go out, and whether the function has returned.
\<close>

fun SenderWorker :: "send_result list \<Rightarrow> string list \<Rightarrow> string \<times> bool" where
  "SenderWorker results [] = ([], False)"
| "SenderWorker results (input # lines) =
     (if input = ''exit'' then ([], True)
      else case Split '' '' input of
        None \<Rightarrow> ([], False)
      | Some split_input \<Rightarrow>
          let serialised_message = Serialize (SenderMessage (JoinDelimitedStrings split_input));
              (accepted, r, rest) = SendAll results serialised_message
          in case r of
               None \<Rightarrow> (accepted, False)
             | Some n \<Rightarrow>
                 if n \<noteq> int (length serialised_message) then (accepted, True)
                 else let (more, returned) = SenderWorker rest lines in (accepted @ more, returned))"

text \<open>
  The inner loop of \<open>ReceiverWorker\<close>: the lines printed, and the exception, if any, that leaves
  the loop.
\<close>

function PrintValues :: "RespValueQueue \<Rightarrow> string list \<times> unit result \<times> RespValueQueue" where
  "PrintValues q =
     (case PopValue q of
        (Inl e, q1) \<Rightarrow> ([], Inl e, q1)
      | (Inr None, q1) \<Rightarrow> ([], Inr (), q1)
      | (Inr (Some v), q1) \<Rightarrow> let (out, r, q2) = PrintValues q1 in (Show v # out, r, q2))"
  by pat_completeness auto
termination PrintValues
  by (relation "measures [\<lambda>q. length (rvq_buffer q), \<lambda>q. length (rvq_values q)]")
    (auto dest!: PopValue_smaller [OF sym])

declare PrintValues.simps [simp del]

definition kBufferSize :: nat where "kBufferSize = 1024"

abbreviation NUL :: char where "NUL \<equiv> CHR 0x00"

text \<open>
  \<open>std::string(buffer.data(), 0, num_bytes)\<close> first makes a string of the characters up to the first
  NUL of the memory behind the pointer, and then takes \<open>num_bytes\<close> of them. Without a NUL in the
  buffer it reads behind its end, which is undefined behaviour (\<open>None\<close>).
\<close>

definition BufferString :: "string \<Rightarrow> nat \<Rightarrow> string option" where
  "BufferString buffer num_bytes =
     (if NUL \<notin> set buffer then None else Some (take num_bytes (takeWhile (\<lambda>c. c \<noteq> NUL) buffer)))"

text \<open>
  \<open>recv\<close> overwrites the front of the buffer, which is zero at first; what it does not overwrite
  stays as it was.
\<close>

definition zero_buffer :: string where "zero_buffer = replicate kBufferSize NUL"

datatype receiver_end = Running | Returned | Terminated exn | Overread

fun ReceiverWorker :: "recv_result list \<Rightarrow> string \<Rightarrow> RespValueQueue \<Rightarrow> string list \<times> receiver_end" where
  "ReceiverWorker [] buffer q = ([], Running)"
| "ReceiverWorker (Received bytes # results) buffer q =
     (if bytes = [] then ([], Returned)
      else let buffer = bytes @ drop (length bytes) buffer in
        case BufferString buffer (length bytes) of
          None \<Rightarrow> ([], Overread)
        | Some str \<Rightarrow>
            (case PrintValues (PushString str q) of
               (out, Inl e, q1) \<Rightarrow> (out, Terminated e)
             | (out, Inr _, q1) \<Rightarrow> (let (more, r) = ReceiverWorker results buffer q1 in (out @ more, r))))"
| "ReceiverWorker (RecvError e # results) buffer q =
     (if e \<noteq> EINTR then ([], Returned)
      else case PrintValues q of
        (out, Inl ex, q1) \<Rightarrow> (out, Terminated ex)
      | (out, Inr _, q1) \<Rightarrow> (let (more, r) = ReceiverWorker results buffer q1 in (out @ more, r)))"

section \<open>\<open>connect.cc\<close>\<close>

text \<open>
  The addresses that \<open>getaddrinfo\<close> resolved, each with what \<open>socket\<close> returns for it (\<open>None\<close> for
  -1) and whether \<open>connect\<close> succeeds. The result is the socket, or -1, and the sockets that were
  closed.
\<close>

fun ConnectLoop :: "(int option \<times> bool) list \<Rightarrow> int \<times> int list" where
  "ConnectLoop [] = (-1, [])"
| "ConnectLoop ((None, _) # addresses) = ConnectLoop addresses"
| "ConnectLoop ((Some sock, connected) # addresses) =
     (if connected then (sock, []) else let (r, closed) = ConnectLoop addresses in (r, sock # closed))"

definition Connect :: "(int option \<times> bool) list option \<Rightarrow> int \<times> int list" where
  "Connect resolved = (case resolved of None \<Rightarrow> (-1, []) | Some addresses \<Rightarrow> ConnectLoop addresses)"

section \<open>Cutting a line into words\<close>

fun unwords :: "string list \<Rightarrow> string" where
  "unwords [] = []"
| "unwords [w] = w"
| "unwords (w # v # ws) = w @ '' '' @ unwords (v # ws)"

lemma unwords_Cons: "ws \<noteq> [] \<Longrightarrow> unwords (w # ws) = w @ '' '' @ unwords ws"
  by (cases ws) auto

lemma unwords_append: "vs \<noteq> [] \<Longrightarrow> ws \<noteq> [] \<Longrightarrow> unwords (vs @ ws) = unwords vs @ '' '' @ unwords ws"
proof (induction vs)
  case (Cons v vs)
  then show ?case by (cases "vs = []") (auto simp: unwords_Cons)
qed simp

lemma find_space: "CHR '' '' \<notin> set w \<Longrightarrow> find_list '' '' (w @ '' '' @ t) = Some (length w)"
  by (induction w) auto

lemma find_no_space: "CHR '' '' \<notin> set w \<Longrightarrow> find_list '' '' w = None"
  by (induction w) auto

lemma SplitLoop_unwords:
  assumes "\<forall>w \<in> set ws. CHR '' '' \<notin> set w" and "ws = [] \<or> last ws \<noteq> []"
  shows "SplitLoop '' '' (pre @ unwords ws) (length pre) acc = Some (acc @ ws)"
  using assms
proof (induction ws arbitrary: pre acc)
  case Nil
  then show ?case by (simp add: SplitLoop.simps)
next
  case (Cons w ws)
  show ?case
  proof (cases "ws = []")
    case True
    with Cons.prems have w: "w \<noteq> []" "find_list '' '' w = None" using find_no_space by auto
    then have "SplitLoop '' '' (pre @ w) (length pre) acc = SplitLoop '' '' (pre @ w) (length (pre @ w)) (acc @ [w])"
      by (subst SplitLoop.simps) (simp add: str_find_def)
    with True show ?thesis by (subst (asm) (2) SplitLoop.simps) simp
  next
    case False
    let ?input = "pre @ w @ '' '' @ unwords ws"
    have "str_find ?input '' '' (length pre) = Some (length pre + length w)"
      using Cons.prems(1) find_space [of w "unwords ws"] by (simp add: str_find_def)
    then have "SplitLoop '' '' ?input (length pre) acc = SplitLoop '' '' ?input (length (pre @ w @ '' '')) (acc @ [w])"
      by (subst SplitLoop.simps) (simp add: substr_def)
    moreover have "SplitLoop '' '' ((pre @ w @ '' '') @ unwords ws) (length (pre @ w @ '' '')) (acc @ [w]) = Some ((acc @ [w]) @ ws)"
      using Cons.prems False by (intro Cons.IH) auto
    ultimately show ?thesis using False by (simp add: unwords_Cons)
  qed
qed

lemma Split_unwords:
  "\<forall>w \<in> set ws. CHR '' '' \<notin> set w \<Longrightarrow> ws = [] \<or> last ws \<noteq> [] \<Longrightarrow> Split '' '' (unwords ws) = Some ws"
  using SplitLoop_unwords [of ws "[]" "[]"] by (simp add: Split_def)

text \<open>An argument as it is typed: a plain word, or a phrase of at least two words in quotes.\<close>

datatype argument = Plain string | Quoted string "string list" string

fun typed :: "argument \<Rightarrow> string list" where
  "typed (Plain w) = [w]"
| "typed (Quoted f ws l) = (quote # f) # ws @ [l @ [quote]]"

fun meant :: "argument \<Rightarrow> string" where
  "meant (Plain w) = w"
| "meant (Quoted f ws l) = unwords (f # ws @ [l])"

fun argument_ok :: "argument \<Rightarrow> bool" where
  "argument_ok (Plain w) \<longleftrightarrow> CHR '' '' \<notin> set w \<and> w \<noteq> [] \<and> w ! 0 \<noteq> quote"
| "argument_ok (Quoted f ws l) \<longleftrightarrow> list_all (\<lambda>w. CHR '' '' \<notin> set w) (f # ws @ [l]) \<and>
     list_all (\<lambda>w. w = [] \<or> last w \<noteq> quote) ws"

lemma JoinLoop_phrase:
  "acc \<noteq> [] \<Longrightarrow> list_all (\<lambda>w. w = [] \<or> last w \<noteq> quote) ws \<Longrightarrow>
     JoinLoop (ws @ (l @ [quote]) # input) acc result =
     JoinLoop input [] (result @ [tl (acc @ concat (map (\<lambda>w. '' '' @ w) (ws @ [l])))])"
proof (induction ws arbitrary: acc)
  case Nil
  then show ?case by (cases acc) (auto simp: nth_append substr_def)
next
  case (Cons w ws)
  have "(acc @ '' '' @ w) ! (length (acc @ '' '' @ w) - 1) \<noteq> quote"
    using Cons.prems(2) last_conv_nth [of "acc @ '' '' @ w"] by (auto simp: last_append split: if_splits)
  with Cons show ?case by (simp add: Let_def)
qed

lemma unwords_concat: "unwords (w # ws) = w @ concat (map (\<lambda>w. '' '' @ w) ws)"
  by (induction ws arbitrary: w) auto

lemma JoinLoop_typed:
  "list_all argument_ok args \<Longrightarrow> JoinLoop (concat (map typed args)) [] result = result @ map meant args"
proof (induction args arbitrary: result)
  case (Cons a args)
  show ?case
  proof (cases a)
    case (Plain w)
    with Cons show ?thesis by simp
  next
    case (Quoted f ws l)
    with Cons JoinLoop_phrase [of "quote # f" ws l "concat (map typed args)" result] show ?thesis
      by (simp add: unwords_concat)
  qed
qed simp

lemma typed_words:
  assumes "list_all argument_ok args"
  shows "\<forall>w \<in> set (concat (map typed args)). CHR '' '' \<notin> set w"
    and "args \<noteq> [] \<Longrightarrow> last (concat (map typed args)) \<noteq> []"
proof -
  have "\<forall>w \<in> set (typed a). CHR '' '' \<notin> set w" if "argument_ok a" for a
    using that by (cases a) (auto simp: list_all_iff)
  with assms show "\<forall>w \<in> set (concat (map typed args)). CHR '' '' \<notin> set w" by (auto simp: list_all_iff)
  show "last (concat (map typed args)) \<noteq> []" if ne: "args \<noteq> []"
  proof -
    obtain as a where as: "args = as @ [a]" using ne by (meson rev_exhaust)
    with assms show ?thesis by (cases a) auto
  qed
qed

abbreviation arguments_message :: "argument list \<Rightarrow> RespValue" where
  "arguments_message args \<equiv> Array (map (\<lambda>a. BulkString (Some (meant a))) args)"

definition typed_line :: "argument list \<Rightarrow> string" where
  "typed_line args = unwords (concat (map typed args))"

lemma Split_Join_typed:
  assumes "list_all argument_ok args"
  shows "map_option JoinDelimitedStrings (Split '' '' (typed_line args)) = Some (map meant args)"
  using Split_unwords [OF typed_words(1) [OF assms]] typed_words(2) [OF assms] JoinLoop_typed [OF assms, of "[]"]
  by (cases "args = []") (auto simp: typed_line_def JoinDelimitedStrings_def)

text \<open>
  The comment of \<open>JoinDelimitedStrings\<close> says that a joined phrase keeps its quotes. It loses them.
\<close>

lemma quoted_phrase_loses_quotes:
  assumes "argument_ok (Quoted f ws l)"
  shows "JoinDelimitedStrings ((quote # f) # ws @ [l @ [quote]]) = [unwords (f # ws @ [l])]"
  using JoinLoop_typed [of "[Quoted f ws l]" "[]"] assms by (simp add: JoinDelimitedStrings_def)

text \<open>A single word in quotes is never closed: it swallows the words behind it.\<close>

lemma quoted_word_swallows:
  assumes "list_all (\<lambda>w. w = [] \<or> last w \<noteq> quote) ws"
  shows "JoinDelimitedStrings ((quote # f @ [quote]) # ws) = [unwords ((quote # f @ [quote]) # ws)]"
proof -
  have "acc \<noteq> [] \<Longrightarrow> JoinLoop ws acc [] = [acc @ concat (map (\<lambda>w. '' '' @ w) ws)]" for acc
    using assms
  proof (induction ws arbitrary: acc)
    case (Cons w ws)
    have "(acc @ '' '' @ w) ! (length (acc @ '' '' @ w) - 1) \<noteq> quote"
      using Cons.prems(2) last_conv_nth [of "acc @ '' '' @ w"] by (auto simp: last_append split: if_splits)
    with Cons show ?case by (simp add: Let_def)
  qed simp
  then show ?thesis by (simp add: JoinDelimitedStrings_def unwords_concat)
qed

text \<open>
  \<open>send\<close> takes at least one byte at each of \<open>n\<close> calls and may be interrupted in between.
\<close>

fun takes_some :: "send_result \<Rightarrow> bool" where
  "takes_some (Sent k) \<longleftrightarrow> 0 < k"
| "takes_some (SendError e) \<longleftrightarrow> e = EINTR"

definition keeps_sending :: "nat \<Rightarrow> send_result list \<Rightarrow> bool" where
  "keeps_sending n results \<longleftrightarrow> list_all takes_some results \<and> n \<le> length (filter (\<lambda>r. \<exists>k. r = Sent k) results)"

lemma SendLoop_keeps_sending:
  "keeps_sending (length p + m) results \<Longrightarrow> \<exists>rest. SendLoop len results p = (p, Some (int len), rest) \<and> keeps_sending m rest"
proof (induction len results p rule: SendLoop.induct)
  case (3 len n results c p)
  have "keeps_sending (length (drop n (c # p)) + m) results" "0 < n" using "3.prems" by (auto simp: keeps_sending_def)
  with "3.IH" show ?case by auto
qed (auto simp: keeps_sending_def)

lemma SenderWorker_typed:
  assumes "list_all argument_ok args" and "typed_line args \<noteq> ''exit''"
  shows "SenderWorker results (typed_line args # lines) =
    (let (accepted, r, rest) = SendAll results (Serialize (arguments_message args))
     in case r of
          None \<Rightarrow> (accepted, False)
        | Some n \<Rightarrow>
            if n \<noteq> int (length (Serialize (arguments_message args))) then (accepted, True)
            else let (more, returned) = SenderWorker rest lines in (accepted @ more, returned))"
proof -
  obtain ws where "Split '' '' (typed_line args) = Some ws" "SenderMessage (JoinDelimitedStrings ws) = arguments_message args"
    using Split_Join_typed [OF assms(1)] by (auto simp: SenderMessage_def comp_def)
  with assms(2) show ?thesis by (simp add: Let_def)
qed

lemma SenderWorker_complete:
  assumes "list_all (list_all argument_ok) lines" and "''exit'' \<notin> set (map typed_line lines)"
    and "keeps_sending (length (concat (map (\<lambda>args. Serialize (arguments_message args)) lines))) results"
  shows "fst (SenderWorker results (map typed_line lines)) = concat (map (\<lambda>args. Serialize (arguments_message args)) lines)"
  using assms
proof (induction lines arbitrary: results)
  case (Cons args lines)
  let ?m = "Serialize (arguments_message args)" and ?rest = "concat (map (\<lambda>args. Serialize (arguments_message args)) lines)"
  have "keeps_sending (length ?m + length ?rest) results" using Cons.prems(3) by simp
  then obtain rest where s: "SendAll results ?m = (?m, Some (int (length ?m)), rest)" "keeps_sending (length ?rest) rest"
    using SendLoop_keeps_sending unfolding SendAll_def by blast
  have "fst (SenderWorker rest (map typed_line lines)) = ?rest" using Cons.IH [of rest] Cons.prems s(2) by simp
  moreover have "list_all argument_ok args" "typed_line args \<noteq> ''exit''" using Cons.prems by auto
  ultimately show ?case using SenderWorker_typed [of args results "map typed_line lines"] s(1)
    by (simp add: split_beta del: SenderWorker.simps Serialize.simps)
qed simp

lemma SenderWorker_prefix:
  assumes "list_all (list_all argument_ok) lines" and "''exit'' \<notin> set (map typed_line lines)"
  shows "\<exists>unsent. fst (SenderWorker results (map typed_line lines)) @ unsent
    = concat (map (\<lambda>args. Serialize (arguments_message args)) lines)"
  using assms
proof (induction lines arbitrary: results)
  case (Cons args lines)
  let ?m = "Serialize (arguments_message args)"
  obtain acc r rest where s: "SendAll results ?m = (acc, r, rest)" by (rule prod_cases3)
  obtain left where l: "?m = acc @ left" "r = Some (int (length ?m)) \<longleftrightarrow> left = []"
    using SendAll_prefix [OF s] by blast
  obtain unsent where "fst (SenderWorker rest (map typed_line lines)) @ unsent
      = concat (map (\<lambda>args. Serialize (arguments_message args)) lines)"
    using Cons.IH [of rest] Cons.prems by auto
  moreover have "list_all argument_ok args" "typed_line args \<noteq> ''exit''" using Cons.prems by auto
  ultimately show ?case using SenderWorker_typed [of args results "map typed_line lines"] s l
    by (cases r) (auto simp: Let_def split_beta simp del: SenderWorker.simps Serialize.simps split: if_splits)
qed simp

text \<open>Lines of words without quotes.\<close>

definition plain_word :: "string \<Rightarrow> bool" where
  "plain_word w \<longleftrightarrow> CHR '' '' \<notin> set w \<and> w \<noteq> [] \<and> hd w \<noteq> quote"

lemma plain_lines:
  assumes "list_all (list_all plain_word) lines"
  shows "list_all (list_all argument_ok) (map (map Plain) lines)"
    and "map typed_line (map (map Plain) lines) = map unwords lines"
    and "map arguments_message (map (map Plain) lines) = map SenderMessage lines"
proof -
  have "argument_ok (Plain w)" if "plain_word w" for w using that by (cases w) (simp_all add: plain_word_def)
  with assms show "list_all (list_all argument_ok) (map (map Plain) lines)" by (simp add: list_all_iff)
qed (simp_all add: typed_line_def comp_def SenderMessage_def)

lemma SenderWorker_plain:
  assumes "list_all (list_all plain_word) lines" and "''exit'' \<notin> set (map unwords lines)"
  shows "\<exists>unsent. fst (SenderWorker results (map unwords lines)) @ unsent = concat (map Serialize (map SenderMessage lines))"
    and "keeps_sending (length (concat (map Serialize (map SenderMessage lines)))) results \<Longrightarrow>
      fst (SenderWorker results (map unwords lines)) = concat (map Serialize (map SenderMessage lines))"
proof -
  note l = plain_lines [OF assms(1)]
  have e: "''exit'' \<notin> set (map typed_line (map (map Plain) lines))" using assms(2) unfolding l(2) .
  have r: "map (\<lambda>args. Serialize (arguments_message args)) (map (map Plain) lines) = map Serialize (map SenderMessage lines)"
    using arg_cong [OF l(3), of "map Serialize"] by (simp only: map_map comp_def)
  show "\<exists>unsent. fst (SenderWorker results (map unwords lines)) @ unsent = concat (map Serialize (map SenderMessage lines))"
    using SenderWorker_prefix [OF l(1) e, of results] unfolding l(2) r .
  show "fst (SenderWorker results (map unwords lines)) = concat (map Serialize (map SenderMessage lines))"
    if "keeps_sending (length (concat (map Serialize (map SenderMessage lines)))) results"
    using SenderWorker_complete [OF l(1) e, of results] that unfolding l(2) r .
qed

lemma ConnectLoop_spec:
  "ConnectLoop addresses = (sock, closed) \<Longrightarrow> \<forall>(s, c) \<in> set addresses. s \<noteq> Some (-1) \<Longrightarrow>
     (if sock = -1 then (\<forall>(s, c) \<in> set addresses. s = None \<or> \<not> c) else (Some sock, True) \<in> set addresses) \<and>
     (\<forall>s \<in> set closed. (Some s, False) \<in> set addresses)"
  by (induction addresses arbitrary: sock closed rule: ConnectLoop.induct) (auto split: if_splits prod.splits)

section \<open>Printing replies\<close>

lemma PrintValues_PopAll: "PopAll q = (Inr vs, q') \<Longrightarrow> PrintValues q = (map Show vs, Inr (), q')"
proof (induction q arbitrary: vs q' rule: PopAll.induct)
  case (1 q)
  show ?case
  proof (cases "PopValue q")
    case (Pair r q1)
    show ?thesis
    proof (cases r)
      case (Inr w)
      then show ?thesis
        using Pair 1 by (auto simp: PopAll.simps [of q] PrintValues.simps [of q] split: option.splits sum.splits prod.splits)
    qed (use 1 Pair in \<open>auto simp: PopAll.simps [of q]\<close>)
  qed
qed

text \<open>
  A piece that leaves the last byte of the buffer untouched, which is then still zero, is read as
  far as its first NUL.
\<close>

definition buffer_ok :: "string \<Rightarrow> bool" where
  "buffer_ok buffer \<longleftrightarrow> length buffer = kBufferSize \<and> last buffer = NUL"

lemma zero_buffer_ok: "buffer_ok zero_buffer"
  by (simp add: buffer_ok_def zero_buffer_def kBufferSize_def)

lemma BufferString_short:
  assumes "buffer_ok buffer" and "length bytes < kBufferSize"
  shows "BufferString (bytes @ drop (length bytes) buffer) (length bytes) = Some (takeWhile (\<lambda>c. c \<noteq> NUL) bytes)"
    and "buffer_ok (bytes @ drop (length bytes) buffer)"
proof -
  have d: "drop (length bytes) buffer \<noteq> []" "last (drop (length bytes) buffer) = NUL"
    using assms by (simp_all add: buffer_ok_def)
  then have "NUL \<in> set (drop (length bytes) buffer)" by (metis last_in_set)
  moreover have "take (length bytes) (takeWhile (\<lambda>c. c \<noteq> NUL) (bytes @ rest)) = takeWhile (\<lambda>c. c \<noteq> NUL) bytes" for rest
    by (induction bytes) auto
  ultimately show "BufferString (bytes @ drop (length bytes) buffer) (length bytes) = Some (takeWhile (\<lambda>c. c \<noteq> NUL) bytes)"
    by (auto simp: BufferString_def)
  show "buffer_ok (bytes @ drop (length bytes) buffer)" using assms d by (simp add: buffer_ok_def)
qed

text \<open>A piece without NUL that fills the buffer is read past its end.\<close>

lemma BufferString_full:
  assumes "length bytes = length buffer" and "NUL \<notin> set bytes"
  shows "BufferString (bytes @ drop (length bytes) buffer) (length bytes) = None"
  using assms by (simp add: BufferString_def)

text \<open>What a piece with a NUL loses: everything behind it.\<close>

lemma ReceiverWorker_cut:
  assumes "buffer_ok buffer" and "length (a @ NUL # b) < kBufferSize" and "NUL \<notin> set a"
  shows "\<exists>buffer'. ReceiverWorker (Received (a @ NUL # b) # results) buffer q =
    (case PrintValues (PushString a q) of
       (out, Inl e, q1) \<Rightarrow> (out, Terminated e)
     | (out, Inr _, q1) \<Rightarrow> (let (more, r) = ReceiverWorker results buffer' q1 in (out @ more, r)))"
proof -
  have "takeWhile (\<lambda>c. c \<noteq> NUL) (a @ NUL # b) = a" using assms(3) by (induction a) auto
  with BufferString_short(1) [OF assms(1,2)] show ?thesis
    by (intro exI [of _ "a @ NUL # b @ drop (Suc (length a + length b)) buffer"]) (simp add: Let_def)
qed

lemma ReceiverWorker_chunks:
  "ReadChunks q chunks = (Inr vs, q') \<Longrightarrow> [] \<notin> set chunks \<Longrightarrow> NUL \<notin> set (concat chunks) \<Longrightarrow>
     list_all (\<lambda>c. length c < kBufferSize) chunks \<Longrightarrow> buffer_ok buffer \<Longrightarrow>
     ReceiverWorker (map Received chunks) buffer q = (map Show vs, Running)"
proof (induction chunks arbitrary: q vs buffer)
  case (Cons c cs)
  obtain us q1 where p: "PopAll (PushString c q) = (Inr us, q1)"
    using Cons.prems(1) by (auto split: prod.splits sum.splits)
  then obtain ws where w: "ReadChunks q1 cs = (Inr ws, q')" "vs = us @ ws"
    using Cons.prems(1) by (auto split: prod.splits sum.splits)
  have "takeWhile (\<lambda>c. c \<noteq> NUL) c = c" using Cons.prems(3) by (auto simp: takeWhile_eq_all_conv)
  with BufferString_short [OF Cons.prems(5), of c] Cons.prems(4)
  have b: "BufferString (c @ drop (length c) buffer) (length c) = Some c" "buffer_ok (c @ drop (length c) buffer)" by simp_all
  from Cons.IH [OF w(1) _ _ _ b(2)] Cons.prems(2-4) PrintValues_PopAll [OF p] w(2) b(1) show ?case by (auto simp: Let_def)
qed simp

lemma ReceiverWorker_overread:
  "ReadChunks q chunks = (Inr vs, q') \<Longrightarrow> [] \<notin> set chunks \<Longrightarrow> NUL \<notin> set (concat chunks) \<Longrightarrow>
     list_all (\<lambda>c. length c \<le> kBufferSize) chunks \<Longrightarrow> \<not> list_all (\<lambda>c. length c < kBufferSize) chunks \<Longrightarrow> buffer_ok buffer \<Longrightarrow>
     snd (ReceiverWorker (map Received chunks) buffer q) = Overread"
proof (induction chunks arbitrary: q vs buffer)
  case (Cons c cs)
  show ?case
  proof (cases "length c < kBufferSize")
    case False
    then have "BufferString (c @ drop (length c) buffer) (length c) = None"
      using Cons.prems(3,4,6) by (intro BufferString_full) (auto simp: buffer_ok_def)
    then show ?thesis using Cons.prems(2) by (auto simp: Let_def)
  next
    case True
    obtain us q1 where p: "PopAll (PushString c q) = (Inr us, q1)"
      using Cons.prems(1) by (auto split: prod.splits sum.splits)
    then obtain ws where w: "ReadChunks q1 cs = (Inr ws, q')"
      using Cons.prems(1) by (auto split: prod.splits sum.splits)
    have "takeWhile (\<lambda>c. c \<noteq> NUL) c = c" using Cons.prems(3) by (auto simp: takeWhile_eq_all_conv)
    with BufferString_short [OF Cons.prems(6) True]
    have b: "BufferString (c @ drop (length c) buffer) (length c) = Some c" "buffer_ok (c @ drop (length c) buffer)" by simp_all
    have "snd (ReceiverWorker (map Received cs) (c @ drop (length c) buffer) q1) = Overread"
      using Cons.IH [OF w _ _ _ _ b(2)] Cons.prems(2-5) True by simp
    then show ?thesis using Cons.prems(2) PrintValues_PopAll [OF p] b(1) by (auto simp: Let_def split_beta)
  qed
qed simp

lemma FromString_empty:
  "FromString (rvq_buffer empty_queue) = Inl (out_of_range ''Unexpected end of input while parsing RESP value'')"
  by (simp add: empty_queue_def FromString_def ParseVariant.simps)

lemma replies_read:
  assumes "list_all wf_resp vs" and "concat chunks = concat (map Serialize vs)"
  shows "ReadChunks empty_queue chunks = (Inr vs, empty_queue)"
  by (rule ReadChunks_stream [OF assms(1) _ _ FromString_empty]) (simp_all add: empty_queue_def assms(2))

lemma ReceiverWorker_stream:
  assumes "list_all wf_resp vs" and "concat chunks = concat (map Serialize vs)" and "[] \<notin> set chunks"
    and "NUL \<notin> set (concat chunks)" and "list_all (\<lambda>c. length c < kBufferSize) chunks"
  shows "ReceiverWorker (map Received chunks) zero_buffer empty_queue = (map Show vs, Running)"
  by (rule ReceiverWorker_chunks [OF replies_read [OF assms(1,2)] assms(3,4,5) zero_buffer_ok])

section \<open>Properties\<close>

text \<open>
  \<^bold>\<open>C31\<close>. The client sends what was typed. A line of words without quotes becomes the array of the
  words. Whatever \<open>send\<close> does, the bytes that go out for a sequence of such lines, none of them
  \<open>exit\<close>, are a prefix of the requests in order, and as long as \<open>send\<close> takes some bytes at every
  call, or is interrupted, all of them go out.
\<close>

theorem client_sends_arguments:
  assumes "list_all (list_all plain_word) lines" and "''exit'' \<notin> set (map unwords lines)"
    and "requests = concat (map (\<lambda>ws. Serialize (Array (map (\<lambda>w. BulkString (Some w)) ws))) lines)"
  shows "(\<exists>unsent. fst (SenderWorker results (map unwords lines)) @ unsent = requests)
    \<and> (keeps_sending (length requests) results \<longrightarrow> fst (SenderWorker results (map unwords lines)) = requests)"
proof -
  have "requests = concat (map Serialize (map SenderMessage lines))" by (simp add: assms(3) SenderMessage_def comp_def)
  with SenderWorker_plain [OF assms(1,2), of results] show ?thesis by blast
qed

theorem client_sends_arguments_witness:
  "fst (SenderWorker (replicate 50 (Sent 5) @ [SendError EINTR] @ replicate 50 (Sent 1)) [''SET k v'', ''GET k''])
     = Serialize (Array [BulkString (Some ''SET''), BulkString (Some ''k''), BulkString (Some ''v'')]) @
       Serialize (Array [BulkString (Some ''GET''), BulkString (Some ''k'')])"
proof -
  let ?lines = "[[''SET'', ''k'', ''v''], [''GET'', ''k'']]"
  let ?results = "replicate 50 (Sent 5) @ [SendError EINTR] @ replicate 50 (Sent 1)"
  let ?requests = "concat (map (\<lambda>ws. Serialize (Array (map (\<lambda>w. BulkString (Some w)) ws))) ?lines)"
  have "list_all (list_all plain_word) ?lines" "''exit'' \<notin> set (map unwords ?lines)" by (simp_all add: plain_word_def)
  moreover have "length ?requests \<le> 100"
    by (simp add: dec_string.simps digit_char_def Array_def BulkString_def)
  then have "keeps_sending (length ?requests) ?results" by (simp add: keeps_sending_def list_all_iff)
  ultimately have "fst (SenderWorker ?results (map unwords ?lines)) = ?requests"
    using client_sends_arguments [of ?lines ?requests ?results] by blast
  then show ?thesis by (simp del: SenderWorker.simps Serialize.simps)
qed

text \<open>
  \<^bold>\<open>C32\<close>. The client prints the replies of the server, completely and in order, however the network
  cuts their stream into pieces, if the stream has no NUL byte and no piece fills the receive
  buffer. If a piece of such a stream does fill the buffer, the client reads past its end.
\<close>

theorem client_prints_replies:
  assumes "list_all wf_resp vs" and "concat chunks = concat (map Serialize vs)" and "[] \<notin> set chunks"
    and "NUL \<notin> set (concat chunks)" and "list_all (\<lambda>c. length c \<le> kBufferSize) chunks"
  shows "if list_all (\<lambda>c. length c < kBufferSize) chunks
    then ReceiverWorker (map Received chunks) zero_buffer empty_queue = (map Show vs, Running)
    else snd (ReceiverWorker (map Received chunks) zero_buffer empty_queue) = Overread"
  using ReceiverWorker_stream [OF assms(1-4)]
    ReceiverWorker_overread [OF replies_read [OF assms(1,2)] assms(3-5) _ zero_buffer_ok] by simp

theorem client_prints_replies_witness:
  "ReceiverWorker [Received ''+O'', Received (''K'' @ [CR]), Received (LF # ''$-1''), Received CRLF] zero_buffer empty_queue
     = ([[quote] @ ''OK'' @ [quote], ''(NIL)''], Running)"
  using client_prints_replies [of "[RespSimpleString ''OK'', RespBulkString None]"
      "[''+O'', ''K'' @ [CR], LF # ''$-1'', CRLF]"] by (simp add: kBufferSize_def del: ReceiverWorker.simps)

end
