(* ===== verification/Io_Thread.thy ===== *)
theory Io_Thread
  imports Resp_Value_Queue Spsc_Queue Socket_Io
begin

text \<open>
  \<open>IoThread\<close> of \<open>v2/src/server/io_thread.cc\<close> with \<open>connection.h\<close> and \<open>messages.h\<close>: a thread that owns
  a set of client sockets, turns the bytes it reads into batches of requests for the main
  thread, and writes the replies it gets back.

  A handler is one step. What \<open>recv\<close> and \<open>send\<close> return during the handler is an argument: a list
  of results, after which the socket would block. The interest of a socket in the epoll set is
  \<open>False\<close> for \<open>EPOLLIN\<close> and \<open>True\<close> for \<open>EPOLLIN | EPOLLOUT\<close>. A call that spins because a queue is
  full has the result \<open>InboxFull\<close> or \<open>OutboxFull\<close>; the step cannot be taken until the other side
  has taken something out.

  Two ghost fields record, for the current connection on each descriptor, the bytes the socket
  accepted (\<open>wire\<close>) and the bytes of all replies the thread took from the main thread
  (\<open>replies\<close>).
\<close>

section \<open>State\<close>

record Connection =
  conn_fd :: int
  parse_queue :: RespValueQueue
  out_buffer :: string

definition Connection_new :: "int \<Rightarrow> Connection" where
  "Connection_new client_fd = \<lparr>conn_fd = client_fd, parse_queue = empty_queue, out_buffer = []\<rparr>"

datatype InboxMsg = AssignConnection int | WriteResponse int string

datatype OutboxMsg = CommandBatch int "RespValue list" | Disconnect int

definition kQueueCapacity :: nat where "kQueueCapacity = 1024"

record IoThread =
  inbox_event :: EventFd
  command_event :: EventFd
  inbox :: "InboxMsg Spsc"
  outbox :: "OutboxMsg Spsc"
  connections :: "int \<rightharpoonup> Connection"
  interest :: "int \<rightharpoonup> bool"
  running :: bool
  wire :: "int \<Rightarrow> string"
  replies :: "int \<Rightarrow> string"

text \<open>Why a step is not completed.\<close>

datatype halt = InboxFull | OutboxFull | Uncaught exn | Faulted fault | AssertFailed

definition IoThread_new :: "EventFd \<Rightarrow> IoThread" where
  "IoThread_new event = \<lparr>inbox_event = EventFd_new, command_event = event,
     inbox = Spsc_new kQueueCapacity, outbox = Spsc_new kQueueCapacity,
     connections = Map.empty, interest = Map.empty, running = False,
     wire = (\<lambda>_. []), replies = (\<lambda>_. [])\<rparr>"

definition Start :: "IoThread \<Rightarrow> IoThread" where
  "Start t = t\<lparr>running := True\<rparr>"

definition Stop :: "IoThread \<Rightarrow> IoThread" where
  "Stop t = t\<lparr>running := False, inbox_event := Notify (inbox_event t)\<rparr>"

section \<open>Messages\<close>

definition PostMsg :: "InboxMsg \<Rightarrow> IoThread \<Rightarrow> halt + IoThread" where
  "PostMsg msg t =
     (let (pushed, q) = Push kQueueCapacity msg (inbox t)
      in if pushed then Inr (t\<lparr>inbox := q, inbox_event := Notify (inbox_event t)\<rparr>) else Inl InboxFull)"

definition PostAssign :: "int \<Rightarrow> IoThread \<Rightarrow> halt + IoThread" where
  "PostAssign client_fd = PostMsg (AssignConnection client_fd)"

definition PostResponse :: "int \<Rightarrow> string \<Rightarrow> IoThread \<Rightarrow> halt + IoThread" where
  "PostResponse client_fd bytes = PostMsg (WriteResponse client_fd bytes)"

definition GetOutboxMsg :: "IoThread \<Rightarrow> OutboxMsg option \<times> IoThread" where
  "GetOutboxMsg t = (let (msg, q) = Pop kQueueCapacity (outbox t) in (msg, t\<lparr>outbox := q\<rparr>))"

definition Emit :: "OutboxMsg \<Rightarrow> IoThread \<Rightarrow> halt + IoThread" where
  "Emit msg t =
     (let (pushed, q) = Push kQueueCapacity msg (outbox t)
      in if pushed then Inr (t\<lparr>outbox := q, command_event := Notify (command_event t)\<rparr>) else Inl OutboxFull)"

section \<open>Sockets\<close>

text \<open>\<open>EPOLL_CTL_MOD\<close> and \<open>EPOLL_CTL_ADD\<close>; the first fails on an unknown descriptor, the second on a known one.\<close>

definition UpdateEpoll :: "int \<Rightarrow> bool \<Rightarrow> IoThread \<Rightarrow> IoThread" where
  "UpdateEpoll client_fd writable t =
     (if interest t client_fd = None then t else t\<lparr>interest := (interest t)(client_fd \<mapsto> writable)\<rparr>)"

definition AddEpoll :: "int \<Rightarrow> IoThread \<Rightarrow> IoThread" where
  "AddEpoll client_fd t =
     (if interest t client_fd = None then t\<lparr>interest := (interest t)(client_fd \<mapsto> False)\<rparr> else t)"

definition CloseConnection :: "int \<Rightarrow> bool \<Rightarrow> IoThread \<Rightarrow> halt + IoThread" where
  "CloseConnection client_fd notify_main t =
     (case connections t client_fd of
        None \<Rightarrow> Inr t
      | Some conn \<Rightarrow>
          let t1 = t\<lparr>interest := (interest t)(client_fd := None), connections := (connections t)(client_fd := None)\<rparr>
          in if notify_main then Emit (Disconnect client_fd) t1 else Inr t1)"

fun WouldBlockOrInterrupted :: "errno \<Rightarrow> bool" where
  "WouldBlockOrInterrupted e \<longleftrightarrow> e = EAGAIN \<or> e = EWOULDBLOCK \<or> e = EINTR"

text \<open>The loop of \<open>FlushOutBuffer\<close>: how many bytes were sent, and whether a fatal error ended it.\<close>

fun FlushLoop :: "send_result list \<Rightarrow> string \<Rightarrow> nat \<Rightarrow> nat \<times> bool" where
  "FlushLoop [] bytes count = (count, False)"
| "FlushLoop (Sent n # results) bytes count =
     (if count < length bytes
      then if n > 0 then FlushLoop results bytes (count + min n (length bytes - count)) else (count, True)
      else (count, False))"
| "FlushLoop (SendError e # results) bytes count =
     (if count < length bytes then (count, \<not> WouldBlockOrInterrupted e) else (count, False))"

definition FlushOutBuffer :: "send_result list \<Rightarrow> Connection \<Rightarrow> IoThread \<Rightarrow> halt + IoThread" where
  "FlushOutBuffer results conn t =
     (let fd = conn_fd conn;
          (count, fatal) = FlushLoop results (out_buffer conn) 0;
          t1 = t\<lparr>wire := (wire t)(fd := wire t fd @ take count (out_buffer conn))\<rparr>
      in if fatal
         then CloseConnection fd True (t1\<lparr>connections := (connections t)(fd \<mapsto> conn\<lparr>out_buffer := []\<rparr>)\<rparr>)
         else let rest = drop count (out_buffer conn)
              in Inr (UpdateEpoll fd (rest \<noteq> []) (t1\<lparr>connections := (connections t)(fd \<mapsto> conn\<lparr>out_buffer := rest\<rparr>)\<rparr>)))"

definition HandleAssign :: "int \<Rightarrow> IoThread \<Rightarrow> IoThread" where
  "HandleAssign client_fd t =
     AddEpoll client_fd
       (case connections t client_fd of
          Some conn \<Rightarrow> t
        | None \<Rightarrow> t\<lparr>connections := (connections t)(client_fd \<mapsto> Connection_new client_fd),
                    wire := (wire t)(client_fd := []), replies := (replies t)(client_fd := [])\<rparr>)"

definition HandleWriteResponse :: "send_result list \<Rightarrow> int \<Rightarrow> string \<Rightarrow> IoThread \<Rightarrow> halt + IoThread" where
  "HandleWriteResponse results fd bytes t =
     (case connections t fd of
        None \<Rightarrow> Inr t
      | Some conn \<Rightarrow>
          FlushOutBuffer results (conn\<lparr>out_buffer := out_buffer conn @ bytes\<rparr>)
            (t\<lparr>replies := (replies t)(fd := replies t fd @ bytes)\<rparr>))"

definition HandleWritable :: "send_result list \<Rightarrow> int \<Rightarrow> IoThread \<Rightarrow> halt + IoThread" where
  "HandleWritable results client_fd t =
     (case connections t client_fd of None \<Rightarrow> Inr t | Some conn \<Rightarrow> FlushOutBuffer results conn t)"

text \<open>The result is whether the connection is still alive.\<close>

fun ReadIntoParseQueue :: "recv_result list \<Rightarrow> RespValueQueue \<Rightarrow> bool \<times> RespValueQueue" where
  "ReadIntoParseQueue [] q = (True, q)"
| "ReadIntoParseQueue (Received bytes # results) q =
     (if bytes = [] then (False, q) else ReadIntoParseQueue results (PushString bytes q))"
| "ReadIntoParseQueue (RecvError e # results) q = (WouldBlockOrInterrupted e, q)"

text \<open>The result carries the exception, if any, that leaves \<open>EmitParsedCommands\<close>.\<close>

definition EmitParsedCommands :: "Connection \<Rightarrow> IoThread \<Rightarrow> halt + exn option \<times> IoThread" where
  "EmitParsedCommands conn t =
     (let (r, q) = PopAll (parse_queue conn);
          t1 = t\<lparr>connections := (connections t)(conn_fd conn \<mapsto> conn\<lparr>parse_queue := q\<rparr>)\<rparr>
      in case r of
           Inl e \<Rightarrow> Inr (Some e, t1)
         | Inr batch \<Rightarrow>
             if batch \<noteq> [] then bindE (Emit (CommandBatch (conn_fd conn) batch) t1) (\<lambda>t2. Inr (None, t2))
             else Inr (None, t1))"

definition HandleReadable :: "recv_result list \<Rightarrow> int \<Rightarrow> IoThread \<Rightarrow> halt + IoThread" where
  "HandleReadable results client_fd t =
     (case connections t client_fd of
        None \<Rightarrow> Inr t
      | Some conn \<Rightarrow>
          let (alive, q) = ReadIntoParseQueue results (parse_queue conn)
          in bindE (EmitParsedCommands (conn\<lparr>parse_queue := q\<rparr>) t) (\<lambda>(exception, t1).
               case exception of
                 None \<Rightarrow> if alive then Inr t1 else CloseConnection client_fd True t1
               | Some (invalid_argument m) \<Rightarrow> CloseConnection client_fd True t1
               | Some e \<Rightarrow> Inl (Uncaught e)))"

section \<open>The event loop\<close>

fun HandleInboxMsg :: "send_result list \<Rightarrow> InboxMsg \<Rightarrow> IoThread \<Rightarrow> halt + IoThread" where
  "HandleInboxMsg results (AssignConnection fd) t = Inr (HandleAssign fd t)"
| "HandleInboxMsg results (WriteResponse fd bytes) t = HandleWriteResponse results fd bytes t"

text \<open>The results of \<open>send\<close> are given per message; a message without any finds a socket that would block.\<close>

fun next_results :: "'a list list \<Rightarrow> 'a list \<times> 'a list list" where
  "next_results [] = ([], [])"
| "next_results (r # rs) = (r, rs)"

partial_function (option) DrainInbox :: "send_result list list \<Rightarrow> IoThread \<Rightarrow> (halt + IoThread) option" where
  "DrainInbox sends t =
     (case Pop kQueueCapacity (inbox t) of
        (None, q) \<Rightarrow> Some (Inr (t\<lparr>inbox := q\<rparr>))
      | (Some msg, q) \<Rightarrow>
          (case HandleInboxMsg (fst (next_results sends)) msg (t\<lparr>inbox := q\<rparr>) of
             Inl h \<Rightarrow> Some (Inl h)
           | Inr t1 \<Rightarrow> DrainInbox (snd (next_results sends)) t1))"

text \<open>
  What \<open>epoll_wait\<close> reports: the inbox counter, an error on a client, or a client that is
  readable, writable or both.
\<close>

datatype io_event =
    InboxEvent "send_result list list"
  | ErrorEvent int
  | ClientEvent int "recv_result list option" "send_result list option"

definition HandleEvent :: "io_event \<Rightarrow> IoThread \<Rightarrow> (halt + IoThread) option" where
  "HandleEvent ev t =
     (case ev of
        InboxEvent sends \<Rightarrow> DrainInbox sends (t\<lparr>inbox_event := Drain (inbox_event t)\<rparr>)
      | ErrorEvent fd \<Rightarrow> Some (CloseConnection fd True t)
      | ClientEvent fd recvs sends \<Rightarrow>
          Some (bindE (case recvs of None \<Rightarrow> Inr t | Some results \<Rightarrow> HandleReadable results fd t) (\<lambda>t1.
            case sends of
              None \<Rightarrow> Inr t1
            | Some results \<Rightarrow> if connections t1 fd \<noteq> None then HandleWritable results fd t1 else Inr t1)))"

datatype wait_result = Ready "io_event list" | WaitInterrupted | WaitFailed

fun HandleEvents :: "io_event list \<Rightarrow> IoThread \<Rightarrow> (halt + IoThread) option" where
  "HandleEvents [] t = Some (Inr t)"
| "HandleEvents (ev # evs) t =
     (case HandleEvent ev t of
        None \<Rightarrow> None
      | Some (Inl h) \<Rightarrow> Some (Inl h)
      | Some (Inr t1) \<Rightarrow> HandleEvents evs t1)"

fun Run_io :: "wait_result list \<Rightarrow> IoThread \<Rightarrow> (halt + IoThread) option" where
  "Run_io [] t = Some (Inr t)"
| "Run_io (w # ws) t =
     (if \<not> running t then Some (Inr t)
      else case w of
        WaitInterrupted \<Rightarrow> Run_io ws t
      | WaitFailed \<Rightarrow> Some (Inr t)
      | Ready evs \<Rightarrow>
          (case HandleEvents evs t of
             None \<Rightarrow> None
           | Some (Inl h) \<Rightarrow> Some (Inl h)
           | Some (Inr t1) \<Rightarrow> Run_io ws t1))"

section \<open>The queues\<close>

abbreviation inbox_msgs :: "IoThread \<Rightarrow> InboxMsg list" where
  "inbox_msgs t \<equiv> contents kQueueCapacity (inbox t)"

abbreviation outbox_msgs :: "IoThread \<Rightarrow> OutboxMsg list" where
  "outbox_msgs t \<equiv> contents kQueueCapacity (outbox t)"

definition io_queues :: "IoThread \<Rightarrow> bool" where
  "io_queues t \<longleftrightarrow> ev_valid (inbox_event t) \<and> ev_valid (command_event t) \<and>
     Spsc_invar kQueueCapacity (inbox t) \<and> Spsc_invar kQueueCapacity (outbox t)"

lemma PostMsg_spec:
  assumes "io_queues t"
  shows "PostMsg msg t = Inl h \<Longrightarrow> h = InboxFull \<and> kQueueCapacity \<le> length (inbox_msgs t)"
    and "length (inbox_msgs t) < kQueueCapacity \<Longrightarrow> \<exists>q. PostMsg msg t = Inr (t\<lparr>inbox := q, inbox_event := Notify (inbox_event t)\<rparr>)"
    and "PostMsg msg t = Inr t' \<Longrightarrow> \<exists>q. t' = t\<lparr>inbox := q, inbox_event := Notify (inbox_event t)\<rparr> \<and>
      io_queues t' \<and> contents kQueueCapacity q = inbox_msgs t @ [msg]"
  using assms spsc.push_law [of kQueueCapacity "inbox t" msg]
  by (auto simp: PostMsg_def io_queues_def split_beta Let_def prod_eq_iff split: if_splits)

lemma Emit_spec:
  assumes "io_queues t"
  shows "length (outbox_msgs t) < kQueueCapacity \<Longrightarrow> \<exists>t'. Emit msg t = Inr t'"
    and "Emit msg t = Inr t' \<Longrightarrow> \<exists>q. t' = t\<lparr>outbox := q, command_event := Notify (command_event t)\<rparr> \<and>
      io_queues t' \<and> contents kQueueCapacity q = outbox_msgs t @ [msg]"
  using assms spsc.push_law [of kQueueCapacity "outbox t" msg]
  by (auto simp: Emit_def io_queues_def split_beta Let_def prod_eq_iff split: if_splits)

lemma GetOutboxMsg_spec:
  assumes "io_queues t" and "GetOutboxMsg t = (r, t')"
  shows "(\<exists>q. t' = t\<lparr>outbox := q\<rparr>) \<and> io_queues t' \<and>
    (case outbox_msgs t of [] \<Rightarrow> r = None \<and> outbox_msgs t' = [] | m # ms \<Rightarrow> r = Some m \<and> outbox_msgs t' = ms)"
  using assms spsc.pop_law [of kQueueCapacity "outbox t"]
  by (auto simp: GetOutboxMsg_def io_queues_def split_beta Let_def prod_eq_iff split: list.splits)

section \<open>What a handler for one client changes\<close>

definition same_client :: "IoThread \<Rightarrow> IoThread \<Rightarrow> int \<Rightarrow> bool" where
  "same_client t t' fd \<longleftrightarrow> connections t' fd = connections t fd \<and> interest t' fd = interest t fd \<and>
     wire t' fd = wire t fd \<and> replies t' fd = replies t fd"

text \<open>
  A step that only touches the client \<open>fd\<close>, leaves the inbox alone and puts the messages \<open>ms\<close> in
  the outbox.
\<close>

definition client_step :: "int \<Rightarrow> OutboxMsg list \<Rightarrow> IoThread \<Rightarrow> IoThread \<Rightarrow> bool" where
  "client_step fd ms t t' \<longleftrightarrow> io_queues t' \<and> inbox t' = inbox t \<and> inbox_event t' = inbox_event t \<and> running t' = running t \<and>
     outbox_msgs t' = outbox_msgs t @ ms \<and>
     (ev_readable (command_event t) \<or> ms \<noteq> [] \<longrightarrow> ev_readable (command_event t')) \<and>
     (\<forall>fd'. fd' \<noteq> fd \<longrightarrow> same_client t t' fd')"

lemma same_client_refl [simp]: "same_client t t fd"
  by (simp add: same_client_def)

lemma same_client_trans: "same_client t t1 fd \<Longrightarrow> same_client t1 t2 fd \<Longrightarrow> same_client t t2 fd"
  by (simp add: same_client_def)

lemma client_step_refl: "io_queues t \<Longrightarrow> client_step fd [] t t"
  by (simp add: client_step_def)

lemma client_step_trans: "client_step fd ms t t1 \<Longrightarrow> client_step fd ms' t1 t2 \<Longrightarrow> client_step fd (ms @ ms') t t2"
  unfolding client_step_def by (auto intro: same_client_trans)

lemma client_step_update:
  assumes "io_queues t"
  shows "client_step fd [] t (t\<lparr>connections := (connections t)(fd := c), interest := (interest t)(fd := i),
     wire := (wire t)(fd := w), replies := (replies t)(fd := r)\<rparr>)"
  using assms by (simp add: client_step_def same_client_def io_queues_def)

lemma Emit_client_step:
  assumes "io_queues t" and "Emit msg t = Inr t'"
  shows "client_step fd [msg] t t' \<and> same_client t t' fd"
  using Emit_spec(2) [OF assms] assms(1) Notify_readable [of "command_event t"]
  by (auto simp: client_step_def same_client_def io_queues_def)

section \<open>The invariant of a client\<close>

text \<open>
  The bytes the socket accepted and the bytes that wait in the buffer are together the replies
  taken from the main thread, and \<open>EPOLLOUT\<close> is subscribed exactly while bytes wait. When the
  connection is gone, what was sent is a prefix of the replies.
\<close>

definition conn_ok :: "IoThread \<Rightarrow> int \<Rightarrow> bool" where
  "conn_ok t fd \<longleftrightarrow> (\<exists>rest. replies t fd = wire t fd @ rest \<and>
     (case connections t fd of
        None \<Rightarrow> interest t fd = None
      | Some c \<Rightarrow> conn_fd c = fd \<and> rest = out_buffer c \<and> interest t fd = Some (out_buffer c \<noteq> [])))"

definition io_invar :: "IoThread \<Rightarrow> bool" where
  "io_invar t \<longleftrightarrow> io_queues t \<and> (\<forall>fd. conn_ok t fd)"

lemma conn_ok_same: "same_client t t' fd \<Longrightarrow> conn_ok t' fd = conn_ok t fd"
  by (auto simp: conn_ok_def same_client_def split: option.split)

lemma io_invar_client_step: "io_invar t \<Longrightarrow> client_step fd ms t t' \<Longrightarrow> conn_ok t' fd \<Longrightarrow> io_invar t'"
  unfolding io_invar_def client_step_def by (metis conn_ok_same)

lemma io_invarD:
  "io_invar t \<Longrightarrow> io_queues t"
  "io_invar t \<Longrightarrow> connections t fd = Some c \<Longrightarrow>
     conn_fd c = fd \<and> interest t fd = Some (out_buffer c \<noteq> []) \<and> replies t fd = wire t fd @ out_buffer c"
  by (auto simp: io_invar_def conn_ok_def dest: spec [of _ fd])

lemma CloseConnection_spec:
  assumes "io_queues t" and "CloseConnection fd True t = Inr t'" and "connections t fd \<noteq> None"
  shows "client_step fd [Disconnect fd] t t' \<and> connections t' fd = None \<and> interest t' fd = None \<and>
    wire t' fd = wire t fd \<and> replies t' fd = replies t fd"
proof -
  let ?t1 = "t\<lparr>interest := (interest t)(fd := None), connections := (connections t)(fd := None)\<rparr>"
  have q: "io_queues ?t1" using assms(1) by (simp add: io_queues_def)
  have e: "Emit (Disconnect fd) ?t1 = Inr t'" using assms(2,3) by (auto simp: CloseConnection_def)
  have "client_step fd [] t ?t1" using assms(1) by (simp add: client_step_def same_client_def io_queues_def)
  from client_step_trans [OF this, of "[Disconnect fd]" t'] Emit_client_step [OF q e, of fd]
  show ?thesis by (simp add: same_client_def)
qed

lemma FlushLoop_le: "FlushLoop rs bytes n = (k, fatal) \<Longrightarrow> n \<le> length bytes \<Longrightarrow> n \<le> k \<and> k \<le> length bytes"
proof (induction rs bytes n rule: FlushLoop.induct)
  case (2 n rs bytes m)
  then show ?case by (fastforce split: if_splits)
qed (auto split: if_splits)

text \<open>The socket accepts \<open>n\<close> bytes without blocking or failing.\<close>

fun takes :: "nat \<Rightarrow> send_result list \<Rightarrow> bool" where
  "takes n [] \<longleftrightarrow> n = 0"
| "takes n (Sent k # rs) \<longleftrightarrow> n = 0 \<or> 0 < k \<and> takes (n - k) rs"
| "takes n (SendError e # rs) \<longleftrightarrow> n = 0"

lemma FlushLoop_takes:
  "takes (length bytes - n) rs \<Longrightarrow> n \<le> length bytes \<Longrightarrow> FlushLoop rs bytes n = (length bytes, False)"
proof (induction rs bytes n rule: FlushLoop.induct)
  case (2 k rs bytes n)
  show ?case
  proof (cases "n < length bytes")
    case True
    then have "takes (length bytes - (n + min k (length bytes - n))) rs" "k > 0"
      using "2.prems"(1) by (auto simp: min_def split: if_splits)
    with True "2.IH" show ?thesis by simp
  qed (use "2.prems" in auto)
qed auto

lemma FlushOutBuffer_spec:
  assumes q: "io_queues t" and fd: "conn_fd c = fd" and i: "interest t fd \<noteq> None"
    and bytes: "replies t fd = wire t fd @ out_buffer c" and r: "FlushOutBuffer rs c t = Inr t'"
  shows "conn_ok t' fd \<and> replies t' fd = replies t fd \<and>
    (client_step fd [] t t' \<and> (\<exists>rest. connections t' fd = Some (c\<lparr>out_buffer := rest\<rparr>)) \<or>
     client_step fd [Disconnect fd] t t' \<and> connections t' fd = None)"
proof -
  obtain k fatal where l: "FlushLoop rs (out_buffer c) 0 = (k, fatal)" by (rule prod.exhaust)
  let ?w = "wire t fd @ take k (out_buffer c)"
  show ?thesis
  proof (cases fatal)
    case False
    let ?t' = "t\<lparr>wire := (wire t)(fd := ?w), connections := (connections t)(fd \<mapsto> c\<lparr>out_buffer := drop k (out_buffer c)\<rparr>),
      interest := (interest t)(fd \<mapsto> drop k (out_buffer c) \<noteq> [])\<rparr>"
    have t': "t' = ?t'" using r l False i fd by (auto simp: FlushOutBuffer_def UpdateEpoll_def Let_def)
    have "client_step fd [] t ?t'" using q by (simp add: client_step_def same_client_def io_queues_def)
    moreover have "conn_ok ?t' fd" using bytes fd by (auto simp: conn_ok_def)
    ultimately show ?thesis unfolding t' by (auto intro: exI [of _ "drop k (out_buffer c)"])
  next
    case True
    let ?t1 = "t\<lparr>wire := (wire t)(fd := ?w), connections := (connections t)(fd \<mapsto> c\<lparr>out_buffer := []\<rparr>)\<rparr>"
    have c: "CloseConnection fd True ?t1 = Inr t'" using r l True fd by (auto simp: FlushOutBuffer_def Let_def)
    have s: "client_step fd [] t ?t1" using q by (simp add: client_step_def same_client_def io_queues_def)
    then have "io_queues ?t1" by (simp add: client_step_def)
    from CloseConnection_spec [OF this c] client_step_trans [OF s] bytes show ?thesis
      by (auto simp: conn_ok_def) (metis append.assoc append_take_drop_id)
  qed
qed

section \<open>The handlers\<close>

lemma HandleAssign_spec:
  assumes "io_invar t"
  shows "client_step fd [] t (HandleAssign fd t)" and "conn_ok (HandleAssign fd t) fd"
    and "connections (HandleAssign fd t) fd \<noteq> None"
proof -
  have ok: "conn_ok t fd" and q: "io_queues t" using assms by (auto simp: io_invar_def)
  have "HandleAssign fd t = (if connections t fd \<noteq> None then t
      else t\<lparr>connections := (connections t)(fd \<mapsto> Connection_new fd), interest := (interest t)(fd \<mapsto> False),
             wire := (wire t)(fd := []), replies := (replies t)(fd := [])\<rparr>)"
    using ok by (cases "connections t fd") (simp_all add: HandleAssign_def AddEpoll_def conn_ok_def)
  then show "client_step fd [] t (HandleAssign fd t)" "conn_ok (HandleAssign fd t) fd" "connections (HandleAssign fd t) fd \<noteq> None"
    using ok q by (auto simp: conn_ok_def Connection_new_def client_step_def same_client_def io_queues_def)
qed

lemma HandleWriteResponse_spec:
  assumes t: "io_invar t" and r: "HandleWriteResponse rs fd bytes t = Inr t'"
  shows "conn_ok t' fd \<and> (case connections t fd of
      None \<Rightarrow> t' = t
    | Some c \<Rightarrow> replies t' fd = replies t fd @ bytes \<and>
        (client_step fd [] t t' \<and> (\<exists>rest. connections t' fd = Some (c\<lparr>out_buffer := rest\<rparr>)) \<or>
         client_step fd [Disconnect fd] t t' \<and> connections t' fd = None))"
proof (cases "connections t fd")
  case None
  with t r show ?thesis by (auto simp: HandleWriteResponse_def io_invar_def)
next
  case (Some c)
  let ?t1 = "t\<lparr>replies := (replies t)(fd := replies t fd @ bytes)\<rparr>"
  note c = io_invarD(2) [OF t Some]
  have s: "client_step fd [] t ?t1" using io_invarD(1) [OF t] by (simp add: client_step_def same_client_def io_queues_def)
  have f: "FlushOutBuffer rs (c\<lparr>out_buffer := out_buffer c @ bytes\<rparr>) ?t1 = Inr t'"
    using r Some by (simp add: HandleWriteResponse_def)
  have "io_queues ?t1" using s by (simp add: client_step_def)
  from FlushOutBuffer_spec [OF this _ _ _ f, of fd] c client_step_trans [OF s] Some show ?thesis by fastforce
qed

lemma HandleWritable_spec:
  assumes t: "io_invar t" and r: "HandleWritable rs fd t = Inr t'"
  shows "conn_ok t' fd \<and> (\<exists>ms. client_step fd ms t t') \<and> replies t' fd = replies t fd"
proof (cases "connections t fd")
  case None
  with t r client_step_refl [of t fd] show ?thesis by (auto simp: HandleWritable_def io_invar_def)
next
  case (Some c)
  note c = io_invarD(2) [OF t Some]
  have "FlushOutBuffer rs c t = Inr t'" using r Some by (simp add: HandleWritable_def)
  from FlushOutBuffer_spec [OF io_invarD(1) [OF t] _ _ _ this, of fd] c show ?thesis by auto
qed

lemma EmitParsedCommands_spec:
  assumes q: "io_queues t" and fd: "conn_fd c = fd" and r: "EmitParsedCommands c t = Inr (ex, t')"
    and p: "PopAll (parse_queue c) = (v, pq)"
  shows "client_step fd (case v of Inl e \<Rightarrow> [] | Inr vs \<Rightarrow> if vs = [] then [] else [CommandBatch fd vs]) t t' \<and>
    connections t' fd = Some (c\<lparr>parse_queue := pq\<rparr>) \<and> interest t' fd = interest t fd \<and> wire t' fd = wire t fd \<and>
    replies t' fd = replies t fd \<and> ex = (case v of Inl e \<Rightarrow> Some e | Inr vs \<Rightarrow> None)"
proof -
  let ?t1 = "t\<lparr>connections := (connections t)(fd \<mapsto> c\<lparr>parse_queue := pq\<rparr>)\<rparr>"
  have s: "client_step fd [] t ?t1" using q by (simp add: client_step_def same_client_def io_queues_def)
  then have q1: "io_queues ?t1" by (simp add: client_step_def)
  show ?thesis
  proof (cases "\<exists>vs. v = Inr vs \<and> vs \<noteq> []")
    case True
    then obtain vs where vs: "v = Inr vs" "vs \<noteq> []" by blast
    then have e: "Emit (CommandBatch fd vs) ?t1 = Inr t'" "ex = None"
      using r p fd by (auto simp: EmitParsedCommands_def bindE_eq_Inr)
    have "client_step fd [CommandBatch fd vs] t t'"
      using client_step_trans [OF s, of "[CommandBatch fd vs]" t'] Emit_client_step [OF q1 e(1), of fd] by simp
    moreover have "connections t' fd = Some (c\<lparr>parse_queue := pq\<rparr>) \<and> interest t' fd = interest t fd \<and> wire t' fd = wire t fd \<and>
        replies t' fd = replies t fd"
      using conjunct2 [OF Emit_client_step [OF q1 e(1), of fd]] by (simp add: same_client_def)
    ultimately show ?thesis using vs e(2) by simp
  next
    case False
    have "t' = ?t1 \<and> ex = (case v of Inl e \<Rightarrow> Some e | Inr vs \<Rightarrow> None)"
    proof (cases v)
      case (Inl e)
      with r p fd show ?thesis by (simp add: EmitParsedCommands_def)
    next
      case (Inr vs)
      with False have "vs = []" by simp
      with Inr r p fd show ?thesis by (simp add: EmitParsedCommands_def)
    qed
    moreover have "(case v of Inl e \<Rightarrow> [] | Inr vs \<Rightarrow> if vs = [] then [] else [CommandBatch fd vs]) = []"
      using False by (auto split: sum.split)
    ultimately show ?thesis using s by simp
  qed
qed

lemma HandleReadable_spec:
  assumes t: "io_invar t" and c: "connections t fd = Some c" and r: "HandleReadable rs fd t = Inr t'"
    and read: "ReadIntoParseQueue rs (parse_queue c) = (alive, rq)" and p: "PopAll rq = (v, pq)"
  defines "ms \<equiv> (case v of Inl e \<Rightarrow> [] | Inr vs \<Rightarrow> if vs = [] then [] else [CommandBatch fd vs])"
  shows "conn_ok t' fd \<and> replies t' fd = replies t fd \<and>
    (if alive \<and> (\<exists>vs. v = Inr vs)
     then client_step fd ms t t' \<and> wire t' fd = wire t fd \<and> connections t' fd = Some (c\<lparr>parse_queue := pq\<rparr>)
     else client_step fd (ms @ [Disconnect fd]) t t' \<and> connections t' fd = None)"
proof -
  note ok = io_invarD(2) [OF t c]
  obtain ex t1 where e: "EmitParsedCommands (c\<lparr>parse_queue := rq\<rparr>) t = Inr (ex, t1)"
    using r c read by (auto simp: HandleReadable_def bindE_eq_Inr)
  have s: "client_step fd ms t t1" "connections t1 fd = Some (c\<lparr>parse_queue := pq\<rparr>)" "interest t1 fd = interest t fd"
    "wire t1 fd = wire t fd" "replies t1 fd = replies t fd" "ex = (case v of Inl e \<Rightarrow> Some e | Inr vs \<Rightarrow> None)"
    using EmitParsedCommands_spec [OF io_invarD(1) [OF t] _ e, of fd v pq] ok p by (simp_all add: ms_def)
  show ?thesis
  proof (cases "alive \<and> (\<exists>vs. v = Inr vs)")
    case True
    with s r c read e ok show ?thesis by (auto simp: HandleReadable_def conn_ok_def)
  next
    case False
    then have "CloseConnection fd True t1 = Inr t'"
      using r c read e s(6) by (auto simp: HandleReadable_def split: sum.splits exn.splits)
    moreover have "io_queues t1" using s(1) by (simp add: client_step_def)
    ultimately have "client_step fd [Disconnect fd] t1 t' \<and> connections t' fd = None \<and> interest t' fd = None \<and>
        wire t' fd = wire t1 fd \<and> replies t' fd = replies t1 fd"
      using CloseConnection_spec s(2) by blast
    with s client_step_trans [OF s(1), of "[Disconnect fd]" t'] False ok show ?thesis by (simp add: conn_ok_def)
  qed
qed

text \<open>The parser throws nothing but \<open>out_of_range\<close> and \<open>invalid_argument\<close>, so no exception leaves a handler.\<close>

lemma PopValue_exception: "PopValue q = (Inl e, q') \<Longrightarrow> \<exists>m. e = invalid_argument m"
proof -
  assume r: "PopValue q = (Inl e, q')"
  obtain e' q1 where l: "PopLoop q = (e', q1)" by (rule prod.exhaust)
  from PopLoop_stops [OF l] parse_documented(1) [of "rvq_buffer q1" 0] r l show ?thesis
    by (cases e') (auto simp: PopValue_def documented_def FromString_def split: list.splits)
qed

lemma PopAll_exception: "PopAll q = (Inl e, q') \<Longrightarrow> \<exists>m. e = invalid_argument m"
proof (induction q rule: PopAll.induct)
  case (1 q)
  obtain r q1 where p: "PopValue q = (r, q1)" by (rule prod.exhaust)
  show ?case
  proof (cases r)
    case (Inl x)
    with p 1(2) PopValue_exception [of q] show ?thesis by (simp add: PopAll.simps [of q])
  next
    case (Inr w)
    with p 1 show ?thesis by (cases w) (auto simp: PopAll.simps [of q] split: prod.splits sum.splits)
  qed
qed

lemma HandleReadable_halt:
  assumes "HandleReadable rs fd t = Inl h"
  shows "h = OutboxFull"
proof -
  have emit: "Emit m t' = Inl h' \<Longrightarrow> h' = OutboxFull" for m t' h'
    by (auto simp: Emit_def Let_def split: prod.splits if_splits)
  then have close: "CloseConnection fd b t' = Inl h' \<Longrightarrow> h' = OutboxFull" for b t' h'
    by (auto simp: CloseConnection_def Let_def split: option.splits if_splits)
  obtain c where c: "connections t fd = Some c" using assms by (cases "connections t fd") (auto simp: HandleReadable_def)
  obtain alive rq where read: "ReadIntoParseQueue rs (parse_queue c) = (alive, rq)" by (rule prod.exhaust)
  obtain v pq where p: "PopAll rq = (v, pq)" by (rule prod.exhaust)
  note r = assms [unfolded HandleReadable_def, simplified c option.case read Let_def prod.case]
  show ?thesis
  proof (cases v)
    case (Inl e)
    then obtain m where "e = invalid_argument m" using PopAll_exception p by blast
    with Inl p r close show ?thesis by (simp add: EmitParsedCommands_def)
  next
    case (Inr vs)
    show ?thesis
    proof (cases "vs = []")
      case True
      with Inr p r close show ?thesis by (auto simp: EmitParsedCommands_def Let_def split: if_splits)
    next
      case False
      let ?t1 = "t\<lparr>connections := (connections t)(conn_fd c \<mapsto> c\<lparr>parse_queue := pq\<rparr>)\<rparr>"
      show ?thesis
      proof (cases "Emit (CommandBatch (conn_fd c) vs) ?t1")
        case (Inl h')
        with False Inr p r emit [OF Inl] show ?thesis by (simp add: EmitParsedCommands_def Let_def)
      next
        case (Inr t1)
        with False \<open>v = Inr vs\<close> p r close show ?thesis by (auto simp: EmitParsedCommands_def Let_def split: if_splits)
      qed
    qed
  qed
qed

section \<open>The event loop keeps the invariant and returns\<close>

definition progress :: "IoThread \<Rightarrow> IoThread \<Rightarrow> bool" where
  "progress t t' \<longleftrightarrow> io_invar t' \<and> running t' = running t \<and>
     (\<exists>ms. outbox_msgs t' = outbox_msgs t @ ms \<and>
        (ev_readable (command_event t) \<or> ms \<noteq> [] \<longrightarrow> ev_readable (command_event t')))"

lemma progress_trans: "progress t t1 \<Longrightarrow> progress t1 t2 \<Longrightarrow> progress t t2"
  unfolding progress_def by auto

lemma progress_refl: "io_invar t \<Longrightarrow> progress t t"
  by (simp add: progress_def)

lemma client_step_progress:
  "io_invar t \<Longrightarrow> client_step fd ms t t' \<Longrightarrow> conn_ok t' fd \<Longrightarrow>
     progress t t' \<and> inbox t' = inbox t \<and> inbox_event t' = inbox_event t"
  using io_invar_client_step [of t fd ms t'] by (auto simp: progress_def client_step_def)

lemma HandleInboxMsg_progress:
  assumes t: "io_invar t" and r: "HandleInboxMsg rs msg t = Inr t'"
  shows "progress t t' \<and> inbox t' = inbox t \<and> inbox_event t' = inbox_event t"
proof (cases msg)
  case (AssignConnection fd)
  with r client_step_progress [OF t HandleAssign_spec(1,2) [OF t, of fd]] show ?thesis by simp
next
  case (WriteResponse fd bytes)
  with r have w: "HandleWriteResponse rs fd bytes t = Inr t'" by simp
  note h = HandleWriteResponse_spec [OF t w]
  show ?thesis
  proof (cases "connections t fd")
    case None
    with h t progress_refl [OF t] show ?thesis by simp
  next
    case (Some c)
    with h client_step_progress [OF t, of fd _ t'] show ?thesis by auto
  qed
qed

lemma HandleInboxMsg_halt:
  assumes "HandleInboxMsg rs msg t = Inl h"
  shows "h = OutboxFull"
  using assms
  by (cases msg) (auto simp: HandleWriteResponse_def FlushOutBuffer_def CloseConnection_def Emit_def Let_def
    split: option.splits prod.splits if_splits)

lemma set_inbox_invar:
  "io_invar t \<Longrightarrow> Spsc_invar kQueueCapacity q \<Longrightarrow> io_invar (t\<lparr>inbox := q\<rparr>)"
  using conn_ok_same [of t "t\<lparr>inbox := q\<rparr>"] by (simp add: io_invar_def io_queues_def same_client_def)

lemma DrainInbox_total:
  assumes "io_invar t"
  shows "\<exists>r. DrainInbox sends t = Some r \<and> (\<forall>h. r = Inl h \<longrightarrow> h = OutboxFull) \<and>
    (\<forall>t'. r = Inr t' \<longrightarrow> progress t t' \<and> inbox_msgs t' = [] \<and> inbox_event t' = inbox_event t)"
  using assms
proof (induction "inbox_msgs t" arbitrary: t sends)
  case Nil
  have q: "Spsc_invar kQueueCapacity (inbox t)" using Nil.prems by (simp add: io_invar_def io_queues_def)
  from spsc.pop_Nil [OF q] Nil.hyps obtain q' where p: "Pop kQueueCapacity (inbox t) = (None, q')"
    "Spsc_invar kQueueCapacity q'" "contents kQueueCapacity q' = []" by auto
  then have "DrainInbox sends t = Some (Inr (t\<lparr>inbox := q'\<rparr>))" by (simp add: DrainInbox.simps [of sends t])
  with p set_inbox_invar [OF Nil.prems, of q'] show ?case by (simp add: progress_def)
next
  case (Cons msg msgs)
  have q: "Spsc_invar kQueueCapacity (inbox t)" using Cons.prems by (simp add: io_invar_def io_queues_def)
  from spsc.pop_Cons [OF q] Cons.hyps(2) obtain q' where p: "Pop kQueueCapacity (inbox t) = (Some msg, q')"
    "Spsc_invar kQueueCapacity q'" "contents kQueueCapacity q' = msgs" by metis
  let ?t1 = "t\<lparr>inbox := q'\<rparr>"
  have t1: "io_invar ?t1" by (rule set_inbox_invar [OF Cons.prems p(2)])
  show ?case
  proof (cases "HandleInboxMsg (fst (next_results sends)) msg ?t1")
    case (Inl h)
    with p(1) HandleInboxMsg_halt [OF Inl] show ?thesis by (simp add: DrainInbox.simps [of sends t])
  next
    case (Inr t2)
    note h = HandleInboxMsg_progress [OF t1 Inr]
    have here: "progress t t2" "inbox_event t2 = inbox_event t" using h by (simp_all add: progress_def)
    have "msgs = inbox_msgs t2" "io_invar t2" using h p(3) by (simp_all add: progress_def)
    from Cons.hyps(1) [OF this, of "snd (next_results sends)"] obtain r where
      r: "DrainInbox (snd (next_results sends)) t2 = Some r" "\<And>h. r = Inl h \<Longrightarrow> h = OutboxFull"
      "\<And>t'. r = Inr t' \<Longrightarrow> progress t2 t' \<and> inbox_msgs t' = [] \<and> inbox_event t' = inbox_event t2"
      by blast
    have "DrainInbox sends t = Some r"
      using p(1) Inr r(1) by (simp add: DrainInbox.simps [of sends t])
    moreover have "progress t t' \<and> inbox_msgs t' = [] \<and> inbox_event t' = inbox_event t" if "r = Inr t'" for t'
      using r(3) [OF that] here progress_trans [OF here(1), of t'] by simp
    ultimately show ?thesis using r(2) by blast
  qed
qed

definition io_awake :: "IoThread \<Rightarrow> bool" where
  "io_awake t \<longleftrightarrow> (inbox_msgs t \<noteq> [] \<longrightarrow> ev_readable (inbox_event t)) \<and>
     (outbox_msgs t \<noteq> [] \<longrightarrow> ev_readable (command_event t))"

lemma progress_awake: "io_awake t \<Longrightarrow> progress t t' \<Longrightarrow> inbox t' = inbox t \<Longrightarrow> inbox_event t' = inbox_event t \<Longrightarrow> io_awake t'"
  by (auto simp: io_awake_def progress_def)

lemma CloseConnection_progress:
  assumes t: "io_invar t" and r: "CloseConnection fd True t = Inr t'"
  shows "progress t t' \<and> inbox t' = inbox t \<and> inbox_event t' = inbox_event t"
proof (cases "connections t fd")
  case None
  with r progress_refl [OF t] show ?thesis by (simp add: CloseConnection_def)
next
  case (Some c)
  then have ne: "connections t fd \<noteq> None" by simp
  note h = CloseConnection_spec [OF io_invarD(1) [OF t] r ne]
  have "conn_ok t' fd" using h io_invarD(2) [OF t Some] by (simp add: conn_ok_def)
  with h client_step_progress [OF t] show ?thesis by blast
qed

lemma HandleReadable_progress:
  assumes t: "io_invar t" and r: "HandleReadable rs fd t = Inr t'"
  shows "progress t t' \<and> inbox t' = inbox t \<and> inbox_event t' = inbox_event t"
proof (cases "connections t fd")
  case None
  with r progress_refl [OF t] show ?thesis by (simp add: HandleReadable_def)
next
  case (Some c)
  obtain alive rq where read: "ReadIntoParseQueue rs (parse_queue c) = (alive, rq)" by (rule prod.exhaust)
  obtain v pq where p: "PopAll rq = (v, pq)" by (rule prod.exhaust)
  from HandleReadable_spec [OF t Some r read p] client_step_progress [OF t, of fd _ t'] show ?thesis
    by (auto split: if_splits)
qed

lemma HandleWritable_progress:
  assumes t: "io_invar t" and r: "HandleWritable rs fd t = Inr t'"
  shows "progress t t' \<and> inbox t' = inbox t \<and> inbox_event t' = inbox_event t"
  using HandleWritable_spec [OF t r] client_step_progress [OF t] by blast

lemma CloseConnection_halt: "CloseConnection fd b t = Inl h \<Longrightarrow> h = OutboxFull"
  by (auto simp: CloseConnection_def Emit_def Let_def split: option.splits prod.splits if_splits)

lemma HandleWritable_halt: "HandleWritable rs fd t = Inl h \<Longrightarrow> h = OutboxFull"
  by (auto simp: HandleWritable_def FlushOutBuffer_def Let_def dest: CloseConnection_halt split: option.splits prod.splits if_splits)

lemma set_inbox_event_invar:
  "io_invar t \<Longrightarrow> ev_valid e \<Longrightarrow> io_invar (t\<lparr>inbox_event := e\<rparr>)"
  "io_invar t \<Longrightarrow> ev_valid e \<Longrightarrow> io_invar (t\<lparr>command_event := e\<rparr>)"
  "io_invar t \<Longrightarrow> io_invar (t\<lparr>running := b\<rparr>)"
  "io_invar t \<Longrightarrow> Spsc_invar kQueueCapacity q \<Longrightarrow> io_invar (t\<lparr>outbox := oq, inbox := q\<rparr>) = Spsc_invar kQueueCapacity oq"
  using conn_ok_same [of t "t\<lparr>inbox_event := e\<rparr>"] conn_ok_same [of t "t\<lparr>command_event := e\<rparr>"]
    conn_ok_same [of t "t\<lparr>running := b\<rparr>"] conn_ok_same [of t "t\<lparr>outbox := oq, inbox := q\<rparr>"]
  by (simp_all add: io_invar_def io_queues_def same_client_def)

text \<open>
  A handler always returns or waits for room in the outbox; when it returns the invariant holds,
  the inbox is empty or untouched, and messages were only added to the outbox.
\<close>

lemma HandleEvent_total:
  assumes t: "io_invar t"
  shows "\<exists>r. HandleEvent ev t = Some r \<and> (\<forall>h. r = Inl h \<longrightarrow> h = OutboxFull) \<and>
    (\<forall>t'. r = Inr t' \<longrightarrow> progress t t' \<and> (inbox_msgs t' = [] \<or> inbox t' = inbox t \<and> inbox_event t' = inbox_event t))"
proof (cases ev)
  case (InboxEvent sends)
  let ?t = "t\<lparr>inbox_event := Drain (inbox_event t)\<rparr>"
  have t1: "io_invar ?t" using t by (intro set_inbox_event_invar) (simp_all add: io_invar_def io_queues_def)
  have "progress t t' \<longleftrightarrow> progress ?t t'" for t' by (simp add: progress_def)
  with DrainInbox_total [OF t1, of sends] InboxEvent show ?thesis by (auto simp: HandleEvent_def)
next
  case (ErrorEvent fd)
  show ?thesis
  proof (cases "CloseConnection fd True t")
    case (Inl h)
    then show ?thesis using CloseConnection_halt [OF Inl] by (simp add: HandleEvent_def ErrorEvent)
  next
    case (Inr t')
    then show ?thesis using CloseConnection_progress [OF t Inr] by (simp add: HandleEvent_def ErrorEvent)
  qed
next
  case (ClientEvent fd recvs sends)
  define r1 where "r1 = (case recvs of None \<Rightarrow> Inr t | Some results \<Rightarrow> HandleReadable results fd t)"
  have r1: "(\<forall>h. r1 = Inl h \<longrightarrow> h = OutboxFull) \<and>
      (\<forall>t1. r1 = Inr t1 \<longrightarrow> progress t t1 \<and> inbox t1 = inbox t \<and> inbox_event t1 = inbox_event t)"
    using HandleReadable_halt HandleReadable_progress [OF t] progress_refl [OF t]
    by (cases recvs) (simp_all add: r1_def)
  show ?thesis
  proof (cases r1)
    case (Inl h)
    with r1 show ?thesis by (simp add: HandleEvent_def ClientEvent r1_def [symmetric])
  next
    case (Inr t1)
    with r1 have p: "progress t t1" "inbox t1 = inbox t" "inbox_event t1 = inbox_event t" by auto
    then have t1: "io_invar t1" by (simp add: progress_def)
    define r2 where "r2 = (case sends of None \<Rightarrow> Inr t1
      | Some results \<Rightarrow> if connections t1 fd \<noteq> None then HandleWritable results fd t1 else Inr t1)"
    have r2: "(\<forall>h. r2 = Inl h \<longrightarrow> h = OutboxFull) \<and>
        (\<forall>t2. r2 = Inr t2 \<longrightarrow> progress t1 t2 \<and> inbox t2 = inbox t1 \<and> inbox_event t2 = inbox_event t1)"
      using HandleWritable_halt HandleWritable_progress [OF t1] progress_refl [OF t1]
      by (cases sends) (simp_all add: r2_def)
    have "HandleEvent ev t = Some r2"
      using Inr by (simp add: HandleEvent_def ClientEvent r1_def [symmetric] r2_def)
    moreover have "progress t t' \<and> inbox t' = inbox t \<and> inbox_event t' = inbox_event t" if "r2 = Inr t'" for t'
      using conjunct2 [OF r2, rule_format, OF that] p progress_trans [OF p(1), of t'] by simp
    ultimately show ?thesis using r2 by blast
  qed
qed

lemma DrainInbox_single:
  assumes t: "io_invar t" and m: "inbox_msgs t = [msg]"
  shows "\<exists>q. Spsc_invar kQueueCapacity q \<and> contents kQueueCapacity q = [] \<and>
    DrainInbox sends t = Some (HandleInboxMsg (fst (next_results sends)) msg (t\<lparr>inbox := q\<rparr>))"
proof -
  have q: "Spsc_invar kQueueCapacity (inbox t)" using t by (simp add: io_invar_def io_queues_def)
  obtain q where p: "Pop kQueueCapacity (inbox t) = (Some msg, q)" "Spsc_invar kQueueCapacity q" "contents kQueueCapacity q = []"
    using spsc.pop_Cons [OF q m] by blast
  have stop: "Pop kQueueCapacity q = (None, q)" using p(2,3) by (rule Pop_empty)
  have "DrainInbox sends t = Some (HandleInboxMsg (fst (next_results sends)) msg (t\<lparr>inbox := q\<rparr>))"
  proof (cases "HandleInboxMsg (fst (next_results sends)) msg (t\<lparr>inbox := q\<rparr>)")
    case (Inl h)
    with p(1) show ?thesis by (simp add: DrainInbox.simps [of sends t])
  next
    case (Inr t1)
    have "inbox t1 = q" using HandleInboxMsg_progress [OF set_inbox_invar [OF t p(2)] Inr] by simp
    then have "DrainInbox (snd (next_results sends)) t1 = Some (Inr t1)"
      using stop by (simp add: DrainInbox.simps [of _ t1])
    with Inr p(1) show ?thesis by (simp add: DrainInbox.simps [of sends t])
  qed
  with p show ?thesis by blast
qed

section \<open>All runs of a thread\<close>

text \<open>
  The main thread can post and take messages and notify or drain the event it shares with the
  thread at any time between two handlers.
\<close>

inductive io_reachable :: "IoThread \<Rightarrow> bool" where
  io_new: "ev_valid e \<Longrightarrow> io_reachable (IoThread_new e)"
| io_start: "io_reachable t \<Longrightarrow> io_reachable (Start t)"
| io_stop: "io_reachable t \<Longrightarrow> io_reachable (Stop t)"
| io_assign: "io_reachable t \<Longrightarrow> PostAssign fd t = Inr t' \<Longrightarrow> io_reachable t'"
| io_response: "io_reachable t \<Longrightarrow> PostResponse fd bytes t = Inr t' \<Longrightarrow> io_reachable t'"
| io_take: "io_reachable t \<Longrightarrow> GetOutboxMsg t = (m, t') \<Longrightarrow> io_reachable t'"
| io_shared: "io_reachable t \<Longrightarrow> ev_valid e \<Longrightarrow> io_reachable (t\<lparr>command_event := e\<rparr>)"
| io_handle: "io_reachable t \<Longrightarrow> HandleEvent ev t = Some (Inr t') \<Longrightarrow> io_reachable t'"

lemma IoThread_new_invar: "ev_valid e \<Longrightarrow> io_invar (IoThread_new e)"
  by (simp add: io_invar_def io_queues_def conn_ok_def IoThread_new_def Spsc_new_correct)

lemma PostMsg_invar:
  assumes "io_invar t" and "PostMsg msg t = Inr t'"
  shows "io_invar t' \<and> (\<exists>q e. t' = t\<lparr>inbox := q, inbox_event := e\<rparr>) \<and> inbox_msgs t' = inbox_msgs t @ [msg] \<and> ev_readable (inbox_event t')"
proof -
  have q: "io_queues t" using assms(1) by (simp add: io_invar_def)
  obtain q where t': "t' = t\<lparr>inbox := q, inbox_event := Notify (inbox_event t)\<rparr>" "io_queues t'"
    "contents kQueueCapacity q = inbox_msgs t @ [msg]"
    using PostMsg_spec(3) [OF q assms(2)] by blast
  have "conn_ok t' fd = conn_ok t fd" for fd by (rule conn_ok_same) (simp add: t'(1) same_client_def)
  with t' assms(1) q Notify_readable [of "inbox_event t"] show ?thesis
    by (auto simp: io_invar_def io_queues_def)
qed

lemma GetOutboxMsg_invar:
  assumes "io_invar t" and "GetOutboxMsg t = (m, t')"
  shows "io_invar t'"
proof -
  have q: "io_queues t" using assms(1) by (simp add: io_invar_def)
  obtain q' where t': "t' = t\<lparr>outbox := q'\<rparr>" "io_queues t'" using GetOutboxMsg_spec [OF q assms(2)] by blast
  have "conn_ok t' fd = conn_ok t fd" for fd by (rule conn_ok_same) (simp add: t'(1) same_client_def)
  with t' assms(1) show ?thesis by (simp add: io_invar_def)
qed

lemma io_reachable_invar: "io_reachable t \<Longrightarrow> io_invar t"
proof (induction rule: io_reachable.induct)
  case (io_stop t)
  then have "ev_valid (Notify (inbox_event t))" by (simp add: io_invar_def io_queues_def)
  from set_inbox_event_invar(1) [OF set_inbox_event_invar(3) [OF io_stop.IH] this] show ?case by (simp add: Stop_def)
next
  case (io_handle t ev t')
  with HandleEvent_total [of t ev] show ?case by (auto simp: progress_def)
qed (auto simp: Start_def PostAssign_def PostResponse_def
  intro: IoThread_new_invar set_inbox_event_invar dest: PostMsg_invar GetOutboxMsg_invar)

lemma assign_drain:
  assumes t: "io_invar t" and m: "inbox_msgs t = []" and c: "connections t fd = None"
  shows "\<exists>t1 t2. PostAssign fd t = Inr t1 \<and> HandleEvent (InboxEvent sends) t1 = Some (Inr t2) \<and> io_invar t2 \<and>
    connections t2 fd = Some (Connection_new fd) \<and> wire t2 fd = [] \<and> replies t2 fd = [] \<and> inbox_msgs t2 = [] \<and>
    outbox t2 = outbox t \<and> command_event t2 = command_event t"
proof -
  obtain t1 where p: "PostMsg (AssignConnection fd) t = Inr t1"
    using PostMsg_spec(2) [OF io_invarD(1) [OF t], of "AssignConnection fd"] m by (auto simp: kQueueCapacity_def)
  obtain q1 e1 where t1: "io_invar t1" "t1 = t\<lparr>inbox := q1, inbox_event := e1\<rparr>" "inbox_msgs t1 = [AssignConnection fd]"
    using PostMsg_invar [OF t p] m by auto
  let ?t1 = "t1\<lparr>inbox_event := Drain (inbox_event t1)\<rparr>"
  have i2: "io_invar ?t1" using t1(1) by (intro set_inbox_event_invar) (simp_all add: io_invar_def io_queues_def)
  have "inbox_msgs ?t1 = [AssignConnection fd]" using t1(3) by simp
  then obtain q where q: "Spsc_invar kQueueCapacity q" "contents kQueueCapacity q = []"
    "DrainInbox sends ?t1 = Some (Inr (HandleAssign fd (?t1\<lparr>inbox := q\<rparr>)))"
    using DrainInbox_single [OF i2, of "AssignConnection fd" sends] by auto
  let ?t2 = "HandleAssign fd (?t1\<lparr>inbox := q\<rparr>)"
  note i3 = set_inbox_invar [OF i2 q(1)]
  have "io_invar ?t2" by (rule io_invar_client_step [OF i3 HandleAssign_spec(1,2) [OF i3]])
  moreover have "connections ?t2 fd = Some (Connection_new fd) \<and> wire ?t2 fd = [] \<and> replies ?t2 fd = [] \<and>
      inbox ?t2 = q \<and> outbox ?t2 = outbox t \<and> command_event ?t2 = command_event t"
    using c by (simp add: HandleAssign_def AddEpoll_def t1(2))
  ultimately show ?thesis using p q by (auto simp: PostAssign_def HandleEvent_def)
qed

lemma reachable_connected: "\<exists>t. io_reachable t \<and> connections t fd \<noteq> None"
proof -
  let ?t0 = "IoThread_new EventFd_new"
  have i0: "io_reachable ?t0" "io_invar ?t0" "inbox_msgs ?t0 = []" "connections ?t0 fd = None"
    using io_new [of EventFd_new] IoThread_new_invar [of EventFd_new] by (auto simp: IoThread_new_def Spsc_new_correct)
  from assign_drain [OF i0(2-4), of "[]"] obtain t1 t2 where
    "PostAssign fd ?t0 = Inr t1" "HandleEvent (InboxEvent []) t1 = Some (Inr t2)" "connections t2 fd \<noteq> None" by auto
  with i0(1) show ?thesis by (blast intro: io_assign io_handle)
qed

section \<open>Reading requests and writing replies\<close>

lemma ReadIntoParseQueue_chunks:
  "[] \<notin> set chunks \<Longrightarrow> ReadIntoParseQueue (map Received chunks) q = (True, PushString (concat chunks) q)"
  by (induction chunks arbitrary: q) (auto simp: PushString_def)

lemma read_requests:
  assumes t: "io_invar t" and c: "connections t fd = Some c" and room: "length (outbox_msgs t) < kQueueCapacity"
    and chunks: "[] \<notin> set chunks" and p: "PopAll (PushString (concat chunks) (parse_queue c)) = (Inr vs, pq)"
  shows "\<exists>t1. HandleEvent (ClientEvent fd (Some (map Received chunks)) None) t = Some (Inr t1) \<and> io_invar t1 \<and>
    client_step fd (if vs = [] then [] else [CommandBatch fd vs]) t t1 \<and> replies t1 fd = replies t fd \<and>
    connections t1 fd = Some (c\<lparr>parse_queue := pq\<rparr>)"
proof -
  note ok = io_invarD(2) [OF t c]
  let ?t = "t\<lparr>connections := (connections t)(fd \<mapsto> c\<lparr>parse_queue := pq\<rparr>)\<rparr>"
  have "io_queues ?t" "length (outbox_msgs ?t) < kQueueCapacity" using io_invarD(1) [OF t] room by (simp_all add: io_queues_def)
  then obtain t' where "Emit (CommandBatch fd vs) ?t = Inr t'" using Emit_spec(1) by blast
  then have "\<exists>t1. HandleReadable (map Received chunks) fd t = Inr t1"
    using c ok p by (auto simp: HandleReadable_def ReadIntoParseQueue_chunks [OF chunks] EmitParsedCommands_def Let_def)
  then obtain t1 where r: "HandleReadable (map Received chunks) fd t = Inr t1" by blast
  note h = HandleReadable_spec [OF t c r ReadIntoParseQueue_chunks [OF chunks] p]
  then have "client_step fd (if vs = [] then [] else [CommandBatch fd vs]) t t1 \<and> replies t1 fd = replies t fd \<and>
      connections t1 fd = Some (c\<lparr>parse_queue := pq\<rparr>) \<and> conn_ok t1 fd" by auto
  with r io_invar_client_step [OF t] show ?thesis by (auto simp: HandleEvent_def)
qed

lemma HandleEvent_delivers:
  assumes "io_invar t" and "connections t fd = Some c" and "takes (length (out_buffer c)) sends"
  shows "\<exists>t'. HandleEvent (ClientEvent fd None (Some sends)) t = Some (Inr t')
    \<and> wire t' fd = replies t fd \<and> replies t' fd = replies t fd \<and> interest t' fd = Some False"
proof -
  note c = io_invarD(2) [OF assms(1,2)]
  have "FlushLoop sends (out_buffer c) 0 = (length (out_buffer c), False)"
    using FlushLoop_takes [of "out_buffer c" 0 sends] assms(3) by simp
  with assms(2) c show ?thesis
    by (simp add: HandleEvent_def HandleWritable_def FlushOutBuffer_def UpdateEpoll_def Let_def)
qed

text \<open>The socket never fails: it accepts bytes or would block.\<close>

definition harmless :: "send_result list \<Rightarrow> bool" where
  "harmless sends \<longleftrightarrow> list_all (\<lambda>r. case r of Sent n \<Rightarrow> 0 < n | SendError e \<Rightarrow> WouldBlockOrInterrupted e) sends"

lemma FlushLoop_harmless: "harmless rs \<Longrightarrow> \<not> snd (FlushLoop rs bytes n)"
  by (induction rs bytes n rule: FlushLoop.induct) (auto simp: harmless_def)

lemma write_replies:
  assumes t: "io_invar t" and c: "connections t fd = Some c" and m: "inbox_msgs t = [WriteResponse fd bytes]" and "harmless sends"
  shows "\<exists>t2. HandleEvent (InboxEvent [sends]) t = Some (Inr t2) \<and> io_invar t2 \<and> inbox_msgs t2 = [] \<and>
    outbox_msgs t2 = outbox_msgs t \<and> replies t2 fd = replies t fd @ bytes \<and> (\<exists>rest. connections t2 fd = Some (c\<lparr>out_buffer := rest\<rparr>))"
proof -
  let ?t1 = "t\<lparr>inbox_event := Drain (inbox_event t)\<rparr>"
  have i2: "io_invar ?t1" using t by (intro set_inbox_event_invar) (simp_all add: io_invar_def io_queues_def)
  have "inbox_msgs ?t1 = [WriteResponse fd bytes]" using m by simp
  then obtain q where q: "Spsc_invar kQueueCapacity q" "contents kQueueCapacity q = []"
    "DrainInbox [sends] ?t1 = Some (HandleWriteResponse sends fd bytes (?t1\<lparr>inbox := q\<rparr>))"
    using DrainInbox_single [OF i2, of _ "[sends]"] by fastforce
  let ?t = "?t1\<lparr>inbox := q\<rparr>"
  note i3 = set_inbox_invar [OF i2 q(1)]
  have "\<exists>t2. HandleWriteResponse sends fd bytes ?t = Inr t2 \<and> connections t2 fd \<noteq> None"
    using c io_invarD(2) [OF t c] FlushLoop_harmless [OF assms(4), of "out_buffer c @ bytes" 0]
    by (auto simp: HandleWriteResponse_def FlushOutBuffer_def UpdateEpoll_def Let_def split_beta)
  then obtain t2 where r: "HandleWriteResponse sends fd bytes ?t = Inr t2" "connections t2 fd \<noteq> None" by blast
  have "connections ?t fd = Some c" using c by simp
  then have h: "conn_ok t2 fd" "replies t2 fd = replies t fd @ bytes" "client_step fd [] ?t t2"
    "\<exists>rest. connections t2 fd = Some (c\<lparr>out_buffer := rest\<rparr>)"
    using HandleWriteResponse_spec [OF i3 r(1)] r(2) by auto
  then have "inbox t2 = q \<and> outbox_msgs t2 = outbox_msgs t" by (simp add: client_step_def)
  with h q r(1) io_invar_client_step [OF i3 h(3,1)] show ?thesis by (auto simp: HandleEvent_def)
qed

section \<open>Waking the other side\<close>

text \<open>
  The protocol between \<open>Emit\<close> (or \<open>PostAssign\<close>, \<open>PostResponse\<close>) on one thread and the event loop of
  the other, step by step: push, then notify; be woken, drain the counter, then pop until the
  queue is empty. The two threads interleave between any two of these steps. \<open>announcing\<close> says
  that the producer is between its push and its notification, \<open>draining\<close> that the consumer is in
  its loop; \<open>put\<close> and \<open>taken\<close> record what went in and what came out.
\<close>

record 'a wake =
  wake_queue :: "'a Spsc"
  wake_event :: EventFd
  announcing :: bool
  draining :: bool
  put :: "'a list"
  taken :: "'a list"

definition wake_init :: "nat \<Rightarrow> 'a wake" where
  "wake_init N = \<lparr>wake_queue = Spsc_new N, wake_event = EventFd_new, announcing = False, draining = False, put = [], taken = []\<rparr>"

inductive wake_step :: "nat \<Rightarrow> 'a wake \<Rightarrow> 'a wake \<Rightarrow> bool" for N where
  wake_push: "\<not> announcing s \<Longrightarrow> Push N x (wake_queue s) = (True, q) \<Longrightarrow>
    wake_step N s (s\<lparr>wake_queue := q, announcing := True, put := put s @ [x]\<rparr>)"
| wake_spin: "\<not> announcing s \<Longrightarrow> Push N x (wake_queue s) = (False, q) \<Longrightarrow>
    wake_step N s (s\<lparr>wake_event := Notify (wake_event s)\<rparr>)"
| wake_notify: "announcing s \<Longrightarrow> wake_step N s (s\<lparr>wake_event := Notify (wake_event s), announcing := False\<rparr>)"
| wake_drain: "\<not> draining s \<Longrightarrow> ev_readable (wake_event s) \<Longrightarrow>
    wake_step N s (s\<lparr>wake_event := Drain (wake_event s), draining := True\<rparr>)"
| wake_pop: "draining s \<Longrightarrow> Pop N (wake_queue s) = (Some x, q) \<Longrightarrow>
    wake_step N s (s\<lparr>wake_queue := q, taken := taken s @ [x]\<rparr>)"
| wake_sleep: "draining s \<Longrightarrow> Pop N (wake_queue s) = (None, q) \<Longrightarrow> wake_step N s (s\<lparr>wake_queue := q, draining := False\<rparr>)"

definition wake_invar :: "nat \<Rightarrow> 'a wake \<Rightarrow> bool" where
  "wake_invar N s \<longleftrightarrow> Spsc_invar N (wake_queue s) \<and> ev_valid (wake_event s) \<and>
     taken s @ contents N (wake_queue s) = put s \<and>
     (contents N (wake_queue s) \<noteq> [] \<longrightarrow> ev_readable (wake_event s) \<or> announcing s \<or> draining s)"

lemma wake_step_invar: "wake_step N s s' \<Longrightarrow> wake_invar N s \<Longrightarrow> wake_invar N s'"
proof (induction rule: wake_step.induct)
  case (wake_push s x q)
  with spsc.push_law [of N "wake_queue s" x True q] show ?case by (auto simp: wake_invar_def)
next
  case (wake_pop s x q)
  with spsc.pop_law [of N "wake_queue s" "Some x" q] show ?case by (auto simp: wake_invar_def split: list.splits)
next
  case (wake_sleep s q)
  with spsc.pop_law [of N "wake_queue s" None q] show ?case by (auto simp: wake_invar_def split: list.splits)
qed (auto simp: wake_invar_def Notify_readable)

lemma wake_reachable_invar: "(wake_step N)\<^sup>*\<^sup>* (wake_init N) s \<Longrightarrow> wake_invar N s"
  by (induction rule: rtranclp_induct)
    (auto simp: wake_invar_def wake_init_def Spsc_new_correct dest: wake_step_invar [unfolded wake_invar_def])

text \<open>Without a further push, the consumer can go on until the queue is empty.\<close>

lemma wake_pops:
  assumes "wake_invar N s" and "draining s"
  shows "\<exists>s'. (wake_step N)\<^sup>*\<^sup>* s s' \<and> put s' = put s \<and> taken s' = put s"
  using assms
proof (induction "contents N (wake_queue s)" arbitrary: s)
  case Nil
  then have "taken s = put s" by (simp add: wake_invar_def)
  then show ?case by blast
next
  case (Cons x xs)
  then obtain q where q: "Pop N (wake_queue s) = (Some x, q)" "contents N q = xs"
    using spsc.pop_Cons [of N "wake_queue s" x xs] by (auto simp: wake_invar_def)
  let ?s = "s\<lparr>wake_queue := q, taken := taken s @ [x]\<rparr>"
  have step: "wake_step N s ?s" by (rule wake_step.wake_pop [OF Cons.prems(2) q(1)])
  obtain s' where "(wake_step N)\<^sup>*\<^sup>* ?s s'" "put s' = put ?s" "taken s' = put ?s"
    using Cons.hyps(1) [of ?s] q(2) wake_step_invar [OF step Cons.prems(1)] Cons.prems(2) by auto
  with step show ?case by (intro exI [of _ s']) (auto intro: converse_rtranclp_into_rtranclp)
qed

section \<open>Properties\<close>

text \<open>
  \<^bold>\<open>C4\<close>. In every reachable state of an I/O thread, for every client: the bytes the socket accepted
  and the bytes waiting in \<open>out_buffer\<close> are together exactly the replies taken from the main
  thread, in order, and \<open>EPOLLOUT\<close> is subscribed exactly while bytes wait; a client that is gone
  is no longer in the epoll set and got a prefix of its replies. No exception leaves a handler: it
  returns, unless it finds the outbox full, where it spins until the main thread has made room.
\<close>

theorem io_thread_invariant:
  assumes "io_reachable t"
  shows "(case connections t fd of
        None \<Rightarrow> interest t fd = None
      | Some c \<Rightarrow> conn_fd c = fd \<and> wire t fd @ out_buffer c = replies t fd \<and> interest t fd = Some (out_buffer c \<noteq> []))
    \<and> take (length (wire t fd)) (replies t fd) = wire t fd
    \<and> (\<exists>r. HandleEvent ev t = Some r \<and> (case r of Inl h \<Rightarrow> h = OutboxFull | Inr t' \<Rightarrow> running t' = running t))"
proof -
  have t: "io_invar t" using assms by (rule io_reachable_invar)
  obtain r where r: "HandleEvent ev t = Some r" "\<forall>h. r = Inl h \<longrightarrow> h = OutboxFull" "\<forall>t'. r = Inr t' \<longrightarrow> progress t t'"
    using HandleEvent_total [OF t, of ev] by blast
  have "conn_ok t fd" using t by (simp add: io_invar_def)
  with r show ?thesis by (auto simp: conn_ok_def progress_def split: option.splits sum.split)
qed

theorem io_thread_invariant_witness:
  "\<exists>t c. io_reachable t \<and> connections t 7 = Some c \<and> wire t 7 @ out_buffer c = replies t 7"
proof -
  obtain t c where t: "io_reachable t" "connections t 7 = Some c" using reachable_connected [of 7] by blast
  with io_thread_invariant [OF t(1), of 7] show ?thesis by (intro exI [of _ t] exI [of _ c]) simp
qed

text \<open>
  Replies are delivered: when the socket of a client becomes writable and accepts the bytes
  that wait, in however many pieces, the client has received all replies, and the thread is no
  longer interested in \<open>EPOLLOUT\<close>.
\<close>

lemma io_thread_delivers:
  assumes "io_reachable t" and "connections t fd = Some c" and "takes (length (out_buffer c)) sends"
  shows "\<exists>t'. HandleEvent (ClientEvent fd None (Some sends)) t = Some (Inr t')
    \<and> wire t' fd = replies t fd \<and> replies t' fd = replies t fd \<and> interest t' fd = Some False"
  using HandleEvent_delivers [OF io_reachable_invar [OF assms(1)] assms(2,3)] .

text \<open>
  \<^bold>\<open>C5\<close>. No wakeup is lost. However a producer (push, then notify) and the event loop of the
  consumer (drain the counter, then pop until empty) interleave, messages come out in the order
  they went in, none is lost, and the consumer is never asleep while a message waits without a
  notification that is pending or about to be made. From every reachable state the consumer can
  take every message without any further push.
\<close>

theorem no_lost_wakeup:
  assumes "(wake_step N)\<^sup>*\<^sup>* (wake_init N) s"
  shows "taken s @ contents N (wake_queue s) = put s
    \<and> (contents N (wake_queue s) \<noteq> [] \<longrightarrow> ev_readable (wake_event s) \<or> announcing s \<or> draining s)
    \<and> (\<exists>s'. (wake_step N)\<^sup>*\<^sup>* s s' \<and> put s' = put s \<and> taken s' = put s)"
proof -
  have i: "wake_invar N s" using assms by (rule wake_reachable_invar)
  define s1 where "s1 = (if announcing s then s\<lparr>wake_event := Notify (wake_event s), announcing := False\<rparr> else s)"
  have s1: "(wake_step N)\<^sup>*\<^sup>* s s1" "\<not> announcing s1" "put s1 = put s"
    by (auto simp: s1_def intro: wake_step.wake_notify)
  have i1: "wake_invar N s1" using s1(1) i by (induction rule: rtranclp_induct) (auto intro: wake_step_invar)
  have "\<exists>s'. (wake_step N)\<^sup>*\<^sup>* s1 s' \<and> put s' = put s1 \<and> taken s' = put s1"
  proof (cases "contents N (wake_queue s1) = [] \<or> draining s1")
    case True
    then show ?thesis using wake_pops [OF i1] i1 by (auto simp: wake_invar_def)
  next
    case False
    then have "wake_step N s1 (s1\<lparr>wake_event := Drain (wake_event s1), draining := True\<rparr>)" (is "wake_step N s1 ?s2")
      using i1 s1(2) by (intro wake_step.wake_drain) (auto simp: wake_invar_def)
    with wake_pops [of N ?s2] wake_step_invar [OF this i1] show ?thesis
      by (auto intro: converse_rtranclp_into_rtranclp)
  qed
  with i s1 show ?thesis unfolding wake_invar_def by (metis rtranclp_trans)
qed

theorem no_lost_wakeup_witness:
  "\<exists>s. put s = [True] \<and> announcing s \<and> \<not> ev_readable (wake_event s)
     \<and> (\<exists>s'. (wake_step 1)\<^sup>*\<^sup>* s s' \<and> taken s' = [True])"
proof -
  obtain q where p: "Push 1 True (wake_queue (wake_init 1)) = (True, q)"
    by (simp add: Push_def wake_init_def Spsc_new_def increment_def)
  let ?s = "(wake_init 1)\<lparr>wake_queue := q, announcing := True, put := [True]\<rparr>"
  have "wake_step 1 (wake_init 1) ?s"
    using wake_step.wake_push [OF _ p] by (simp add: wake_init_def)
  then have "(wake_step 1)\<^sup>*\<^sup>* (wake_init 1) ?s" by blast
  from no_lost_wakeup [OF this] show ?thesis
    by (intro exI [of _ ?s]) (auto simp: wake_init_def ev_readable_def EventFd_new_def)
qed

end
