(* ===== verification/Server.thy ===== *)
theory Server
  imports Io_Thread Snapshotter Request_Dispatcher "HOL-Library.Signed_Division"
begin

text \<open>
  \<open>Server\<close> of \<open>v2/src/server/server.cc\<close>: the main thread, which accepts clients, deals them out to the
  I/O threads, executes their requests one after the other and hands the replies back, and
  forks children that write snapshots; and the system of the main thread and the I/O threads,
  whose handlers interleave.

  A step of the system is one run of a handler of one thread (\<open>sys_step\<close>). A thread touches another
  one only through a queue and its event counter, and how the single accesses of two threads to
  those interleave is the subject of \<open>Spsc_Queue\<close> and of \<open>wake_step\<close> in \<open>Io_Thread\<close>. A handler that finds a
  queue full spins in the code; here it stops with \<open>InboxFull\<close> or \<open>OutboxFull\<close>, and no step leads out
  of a handler that has stopped, so that what happens after such a wait is not described.

  The eventfd that the I/O threads share with the main thread is a field of the server; a thread
  gets the current value when it runs and its changes are copied back. The clock is a function
  of the number of requests executed so far.
\<close>

section \<open>Setting up\<close>

definition millisecondsInSecond :: int where "millisecondsInSecond = 1000"
definition nanosecondsInMillisecond :: int where "nanosecondsInMillisecond = 1000000"

definition ConvertMills :: "int \<Rightarrow> int \<times> int" where
  "ConvertMills mills = (mills sdiv millisecondsInSecond, (mills smod millisecondsInSecond) * nanosecondsInMillisecond)"

text \<open>
  The calls that set up the listening socket, with the descriptor they are made on. \<open>sock\<close> is the
  result of \<open>socket\<close>; the port is truncated to 16 bits.
\<close>

datatype socket_call = SetReuseAddr int | SetNonBlock int | Bind int int | Listen int int | CloseFd int

definition kConnectionBacklog :: int where "kConnectionBacklog = 16"

definition CreateListenSocket :: "int \<Rightarrow> int \<Rightarrow> bool \<Rightarrow> bool \<Rightarrow> int \<times> socket_call list" where
  "CreateListenSocket port sock bind_ok listen_ok =
     (if sock < 0 then (-1, [])
      else
        let calls = [SetReuseAddr sock, SetNonBlock sock, Bind sock (port mod 2 ^ 16)]
        in if \<not> bind_ok then (-1, calls @ [CloseFd sock])
           else if \<not> listen_ok then (-1, calls @ [Listen sock kConnectionBacklog, CloseFd sock])
           else (sock, calls @ [Listen sock kConnectionBacklog]))"

text \<open>
  The descriptor and, if a timer was made, the seconds and nanoseconds it is armed with, both as
  first expiry and as interval. \<open>None\<close> is \<open>exit(1)\<close>. \<open>timerfd\<close> is the result of
  \<open>timerfd_create\<close>.
\<close>

definition CreateTimerIntervalFd :: "int \<Rightarrow> int option \<Rightarrow> bool \<Rightarrow> (int \<times> (int \<times> int) option) option" where
  "CreateTimerIntervalFd snapshot_interval timerfd settime_ok =
     (if snapshot_interval \<le> 0 then Some (snapshot_interval, None)
      else case timerfd of
        None \<Rightarrow> None
      | Some timer_fd \<Rightarrow>
          if \<not> settime_ok then None else Some (timer_fd, Some (ConvertMills snapshot_interval)))"

definition NumIoThreads :: "nat \<Rightarrow> nat" where
  "NumIoThreads hardware = (if hardware > 1 then hardware - 1 else 1)"

record Server =
  srv_store :: Store
  listen_fd :: int
  command_fd :: int
  snapshot_fd :: int
  srv_event :: EventFd
  io_threads :: "IoThread list"
  fd_to_thread :: "int \<rightharpoonup> nat"
  next_thread :: nat
  snapshot_children :: "int \<rightharpoonup> int"
  watched :: "int list"
  ticks :: nat

definition Server_new :: "nat \<Rightarrow> bool \<Rightarrow> int \<Rightarrow> int \<Rightarrow> int \<Rightarrow> Server" where
  "Server_new hardware epoll_ok listen command snapshot =
     \<lparr>srv_store = [], listen_fd = listen, command_fd = command, snapshot_fd = snapshot, srv_event = EventFd_new,
      io_threads = replicate (NumIoThreads hardware) (IoThread_new EventFd_new),
      fd_to_thread = Map.empty, next_thread = 0, snapshot_children = Map.empty,
      watched = (if \<not> epoll_ok \<or> listen < 0 then [] else filter (\<lambda>fd. fd \<noteq> -1) [listen, command, snapshot]),
      ticks = 0\<rparr>"

section \<open>Threads\<close>

definition get_thread :: "nat \<Rightarrow> Server \<Rightarrow> IoThread" where
  "get_thread i s = (io_threads s ! i)\<lparr>command_event := srv_event s\<rparr>"

definition set_thread :: "nat \<Rightarrow> IoThread \<Rightarrow> Server \<Rightarrow> Server" where
  "set_thread i t s = s\<lparr>srv_event := command_event t,
     io_threads := (io_threads s)[i := t\<lparr>command_event := command_event (io_threads s ! i)\<rparr>]\<rparr>"

definition with_thread :: "nat \<Rightarrow> (IoThread \<Rightarrow> halt + IoThread) \<Rightarrow> Server \<Rightarrow> halt + Server" where
  "with_thread i f s = bindE (f (get_thread i s)) (\<lambda>t. Inr (set_thread i t s))"

definition AssignToIoThread :: "int \<Rightarrow> Server \<Rightarrow> halt + Server" where
  "AssignToIoThread client_fd s =
     (let thread_index = next_thread s
      in with_thread thread_index (PostAssign client_fd)
           (s\<lparr>next_thread := (thread_index + 1) mod length (io_threads s),
              fd_to_thread := (fd_to_thread s)(client_fd \<mapsto> thread_index)\<rparr>))"

text \<open>The descriptors that the successive calls of \<open>accept\<close> return, until one fails.\<close>

fun AcceptConnections :: "int list \<Rightarrow> Server \<Rightarrow> halt + Server" where
  "AcceptConnections [] s = Inr s"
| "AcceptConnections (client_fd # fds) s =
     (if client_fd \<ge> 0 then bindE (AssignToIoThread client_fd s) (AcceptConnections fds) else Inr s)"

section \<open>Requests\<close>

definition Execute :: "(nat \<Rightarrow> int) \<Rightarrow> RespValue \<Rightarrow> Server \<Rightarrow> halt + string \<times> Server" where
  "Execute clock request s =
     (case Dispatch (clock (ticks s)) request (srv_store s) of
        Inl f \<Rightarrow> Inl (Faulted f)
      | Inr (reply, data) \<Rightarrow> Inr (Serialize reply, s\<lparr>srv_store := data, ticks := ticks s + 1\<rparr>))"

fun ExecuteAll :: "(nat \<Rightarrow> int) \<Rightarrow> RespValue list \<Rightarrow> string \<Rightarrow> Server \<Rightarrow> halt + string \<times> Server" where
  "ExecuteAll clock [] response s = Inr (response, s)"
| "ExecuteAll clock (value # values) response s =
     bindE (Execute clock value s) (\<lambda>(bytes, s1). ExecuteAll clock values (response @ bytes) s1)"

definition ExecuteAndRespond :: "(nat \<Rightarrow> int) \<Rightarrow> int \<Rightarrow> RespValue list \<Rightarrow> Server \<Rightarrow> halt + Server" where
  "ExecuteAndRespond clock fd values s =
     bindE (ExecuteAll clock values [] s) (\<lambda>(response, s1).
       case fd_to_thread s1 fd of
         None \<Rightarrow> Inr s1
       | Some i \<Rightarrow> with_thread i (PostResponse fd response) s1)"

fun HandleOutboxMsg :: "(nat \<Rightarrow> int) \<Rightarrow> OutboxMsg \<Rightarrow> Server \<Rightarrow> halt + Server" where
  "HandleOutboxMsg clock (CommandBatch fd values) s = ExecuteAndRespond clock fd values s"
| "HandleOutboxMsg clock (Disconnect fd) s = Inr (s\<lparr>fd_to_thread := (fd_to_thread s)(fd := None)\<rparr>)"

text \<open>The inner loop of \<open>ProcessCommands\<close>.\<close>

partial_function (option) DrainOutbox :: "(nat \<Rightarrow> int) \<Rightarrow> nat \<Rightarrow> Server \<Rightarrow> (halt + Server) option" where
  "DrainOutbox clock i s =
     (case GetOutboxMsg (get_thread i s) of
        (None, t) \<Rightarrow> Some (Inr (set_thread i t s))
      | (Some msg, t) \<Rightarrow>
          (case HandleOutboxMsg clock msg (set_thread i t s) of
             Inl h \<Rightarrow> Some (Inl h)
           | Inr s1 \<Rightarrow> DrainOutbox clock i s1))"

fun ProcessThreads :: "(nat \<Rightarrow> int) \<Rightarrow> nat list \<Rightarrow> Server \<Rightarrow> (halt + Server) option" where
  "ProcessThreads clock [] s = Some (Inr s)"
| "ProcessThreads clock (i # is) s =
     (case DrainOutbox clock i s of
        None \<Rightarrow> None
      | Some (Inl h) \<Rightarrow> Some (Inl h)
      | Some (Inr s1) \<Rightarrow> ProcessThreads clock is s1)"

definition ProcessCommands :: "(nat \<Rightarrow> int) \<Rightarrow> Server \<Rightarrow> (halt + Server) option" where
  "ProcessCommands clock s = ProcessThreads clock [0..<length (io_threads s)] s"

section \<open>Snapshots\<close>

text \<open>
  \<open>pid\<close> is the result of \<open>fork\<close> in the parent and \<open>pidfd\<close> that of \<open>pidfd_open\<close>; \<open>None\<close> is -1. The
  child works on the store as it was at the fork.
\<close>

definition CreateSnapshot :: "int option \<Rightarrow> int option \<Rightarrow> Server \<Rightarrow> Server" where
  "CreateSnapshot pid pidfd s =
     (case (pid, pidfd) of
        (Some p, Some pfd) \<Rightarrow> s\<lparr>snapshot_children := (snapshot_children s)(pfd \<mapsto> p), watched := watched s @ [pfd]\<rparr>
      | _ \<Rightarrow> s)"

definition SnapshotChild :: "syscalls \<Rightarrow> int \<Rightarrow> Server \<Rightarrow> disk \<Rightarrow> disk \<times> unit result option" where
  "SnapshotChild sys now s d = Snapshot sys kSnapshotPrefix now (srv_store s) d"

definition ReapSnapshot :: "int \<Rightarrow> Server \<Rightarrow> Server" where
  "ReapSnapshot pidfd s =
     (case snapshot_children s pidfd of
        None \<Rightarrow> s
      | Some pid \<Rightarrow> s\<lparr>watched := removeAll pidfd (watched s), snapshot_children := (snapshot_children s)(pidfd := None)\<rparr>)"

section \<open>The main loop\<close>

text \<open>What the system calls of one iteration return.\<close>

record main_calls =
  accepted_fds :: "int list"
  timer_size :: int
  fork_pid :: "int option"
  child_pidfd :: "int option"

definition HandleMainEvent :: "(nat \<Rightarrow> int) \<Rightarrow> main_calls \<Rightarrow> int \<Rightarrow> Server \<Rightarrow> (halt + Server) option" where
  "HandleMainEvent clock calls fd s =
     (if fd = listen_fd s then Some (AcceptConnections (accepted_fds calls) s)
      else if fd = command_fd s then ProcessCommands clock (s\<lparr>srv_event := Drain (srv_event s)\<rparr>)
      else if fd = snapshot_fd s
      then Some (if timer_size calls = 8 then Inr (CreateSnapshot (fork_pid calls) (child_pidfd calls) s) else Inl AssertFailed)
      else Some (Inr (ReapSnapshot fd s)))"

datatype main_wait = MainReady "(main_calls \<times> int) list" | MainInterrupted | MainFailed

fun HandleMainEvents :: "(nat \<Rightarrow> int) \<Rightarrow> (main_calls \<times> int) list \<Rightarrow> Server \<Rightarrow> (halt + Server) option" where
  "HandleMainEvents clock [] s = Some (Inr s)"
| "HandleMainEvents clock ((calls, fd) # evs) s =
     (case HandleMainEvent clock calls fd s of
        None \<Rightarrow> None
      | Some (Inl h) \<Rightarrow> Some (Inl h)
      | Some (Inr s1) \<Rightarrow> HandleMainEvents clock evs s1)"

text \<open>\<open>Run\<close> up to the loop: \<open>None\<close> is \<open>EXIT_FAILURE\<close>.\<close>

definition Server_Start :: "bool \<Rightarrow> (string \<Rightarrow> bool) \<Rightarrow> directory \<Rightarrow> Server \<Rightarrow> Server option" where
  "Server_Start epoll_ok readable dir s =
     (if \<not> epoll_ok \<or> listen_fd s < 0 then None
      else case Restore readable kSnapshotPrefix dir (srv_store s) of
        (False, data) \<Rightarrow> None
      | (True, data) \<Rightarrow> Some (s\<lparr>srv_store := data, io_threads := map Start (io_threads s)\<rparr>))"

text \<open>The loop; the flag says whether it has returned \<open>EXIT_FAILURE\<close>.\<close>

fun Server_Loop :: "(nat \<Rightarrow> int) \<Rightarrow> main_wait list \<Rightarrow> Server \<Rightarrow> (halt + bool \<times> Server) option" where
  "Server_Loop clock [] s = Some (Inr (False, s))"
| "Server_Loop clock (MainInterrupted # ws) s = Server_Loop clock ws s"
| "Server_Loop clock (MainFailed # ws) s = Some (Inr (True, s))"
| "Server_Loop clock (MainReady evs # ws) s =
     (case HandleMainEvents clock evs s of
        None \<Rightarrow> None
      | Some (Inl h) \<Rightarrow> Some (Inl h)
      | Some (Inr s1) \<Rightarrow> Server_Loop clock ws s1)"

text \<open>The destructor: it stops and joins every thread and closes the epoll set.\<close>

definition Server_destroy :: "Server \<Rightarrow> Server" where
  "Server_destroy s = s\<lparr>io_threads := map Stop (io_threads s), watched := []\<rparr>"

section \<open>The system\<close>

text \<open>The handlers of the main thread and of the I/O threads, in any order.\<close>

definition IoHandle :: "nat \<Rightarrow> io_event \<Rightarrow> Server \<Rightarrow> (halt + Server) option" where
  "IoHandle i ev s =
     (case HandleEvent ev (get_thread i s) of
        None \<Rightarrow> None
      | Some (Inl h) \<Rightarrow> Some (Inl h)
      | Some (Inr t) \<Rightarrow> Some (Inr (set_thread i t s)))"

inductive sys_step :: "(nat \<Rightarrow> int) \<Rightarrow> Server \<Rightarrow> Server \<Rightarrow> bool" for clock where
  sys_main: "HandleMainEvent clock calls fd s = Some (Inr s') \<Longrightarrow> sys_step clock s s'"
| sys_io: "i < length (io_threads s) \<Longrightarrow> IoHandle i ev s = Some (Inr s') \<Longrightarrow> sys_step clock s s'"

section \<open>The invariant of the system\<close>

definition thread_ok :: "IoThread \<Rightarrow> bool" where
  "thread_ok t \<longleftrightarrow> io_invar t \<and> (inbox_msgs t \<noteq> [] \<longrightarrow> ev_readable (inbox_event t))"

abbreviation outboxes :: "Server \<Rightarrow> OutboxMsg list list" where
  "outboxes s \<equiv> map outbox_msgs (io_threads s)"

definition server_ok :: "Server \<Rightarrow> bool" where
  "server_ok s \<longleftrightarrow> next_thread s < length (io_threads s) \<and>
     (\<forall>fd i. fd_to_thread s fd = Some i \<longrightarrow> i < length (io_threads s)) \<and>
     ev_valid (srv_event s) \<and> (\<forall>t \<in> set (io_threads s). thread_ok t) \<and> StandardMap_invar (srv_store s) \<and>
     dom (snapshot_children s) \<subseteq> set (watched s)"

text \<open>The main thread has been notified of every message that waits for it.\<close>

definition main_awake :: "Server \<Rightarrow> bool" where
  "main_awake s \<longleftrightarrow> ((\<exists>msgs \<in> set (outboxes s). msgs \<noteq> []) \<longrightarrow> ev_readable (srv_event s))"

lemma get_thread_ok:
  assumes "server_ok s" and "i < length (io_threads s)"
  shows "thread_ok (get_thread i s)" and "outbox_msgs (get_thread i s) = outboxes s ! i"
    and "command_event (get_thread i s) = srv_event s"
proof -
  have "thread_ok (io_threads s ! i)" "ev_valid (srv_event s)" using assms by (auto simp: server_ok_def)
  then show "thread_ok (get_thread i s)"
    using set_inbox_event_invar(2) [of "io_threads s ! i" "srv_event s"] by (simp add: thread_ok_def get_thread_def)
qed (use assms in \<open>simp_all add: get_thread_def\<close>)

lemma set_thread_ok:
  assumes "server_ok s" and "thread_ok t"
  shows "server_ok (set_thread i t s)" and "outboxes (set_thread i t s) = (outboxes s)[i := outbox_msgs t]"
proof -
  have e: "ev_valid (command_event t)" using assms(2) by (simp add: thread_ok_def io_invar_def io_queues_def)
  let ?t = "t\<lparr>command_event := command_event (io_threads s ! i)\<rparr>"
  have t: "thread_ok ?t" if "i < length (io_threads s)"
  proof -
    have "thread_ok (io_threads s ! i)" using assms(1) that by (simp add: server_ok_def)
    then have "ev_valid (command_event (io_threads s ! i))" by (simp add: thread_ok_def io_invar_def io_queues_def)
    with assms(2) set_inbox_event_invar(2) [of t] show ?thesis by (simp add: thread_ok_def)
  qed
  have "\<forall>t' \<in> set ((io_threads s)[i := ?t]). thread_ok t'"
  proof (cases "i < length (io_threads s)")
    case True
    with t assms(1) set_update_subset_insert [of "io_threads s" i ?t] show ?thesis by (auto simp: server_ok_def)
  qed (use assms(1) in \<open>simp add: server_ok_def list_update_beyond\<close>)
  with e assms(1) show "server_ok (set_thread i t s)" unfolding set_thread_def server_ok_def by simp
qed (simp add: set_thread_def map_update)

lemma set_get_thread: "set_thread i (get_thread i s) s = s"
proof -
  have "(io_threads s ! i)\<lparr>command_event := srv_event s, command_event := command_event (io_threads s ! i)\<rparr> = io_threads s ! i"
    by simp
  then show ?thesis by (simp add: set_thread_def get_thread_def)
qed

lemma PostMsg_ok:
  assumes "thread_ok t" and "PostMsg msg t = Inr t'"
  shows "thread_ok t' \<and> outbox_msgs t' = outbox_msgs t \<and> command_event t' = command_event t"
  using PostMsg_invar [of t msg t'] assms by (auto simp: thread_ok_def)

lemma post_ok:
  assumes "server_ok s" and "i < length (io_threads s)" and "with_thread i (PostMsg msg) s = Inr s'"
  shows "server_ok s' \<and> outboxes s' = outboxes s \<and> srv_event s' = srv_event s \<and> length (io_threads s') = length (io_threads s)"
proof -
  obtain t where t: "PostMsg msg (get_thread i s) = Inr t" "s' = set_thread i t s"
    using assms(3) by (auto simp: with_thread_def bindE_eq_Inr)
  note g = get_thread_ok [OF assms(1,2)]
  note p = PostMsg_ok [OF g(1) t(1)]
  have "outboxes s' = (outboxes s)[i := outboxes s ! i]"
    using set_thread_ok(2) [OF assms(1), of t i] p g(2) t(2) by simp
  with set_thread_ok(1) [OF assms(1), of t i] p g(3) t(2) show ?thesis by (simp add: set_thread_def)
qed

lemma AssignToIoThread_ok:
  assumes "server_ok s" and "AssignToIoThread fd s = Inr s'"
  shows "server_ok s' \<and> outboxes s' = outboxes s \<and> srv_event s' = srv_event s"
proof -
  let ?s = "s\<lparr>next_thread := (next_thread s + 1) mod length (io_threads s), fd_to_thread := (fd_to_thread s)(fd \<mapsto> next_thread s)\<rparr>"
  have "0 < length (io_threads s)" using assms(1) by (auto simp: server_ok_def)
  then have ok: "server_ok ?s" using assms(1) by (auto simp: server_ok_def)
  have i: "next_thread s < length (io_threads ?s)" using assms(1) by (simp add: server_ok_def)
  have "with_thread (next_thread s) (PostMsg (AssignConnection fd)) ?s = Inr s'"
    using assms(2) by (simp add: AssignToIoThread_def PostAssign_def Let_def)
  from post_ok [OF ok i this] show ?thesis by simp
qed

lemma AcceptConnections_ok:
  "server_ok s \<Longrightarrow> AcceptConnections fds s = Inr s' \<Longrightarrow> server_ok s' \<and> outboxes s' = outboxes s \<and> srv_event s' = srv_event s"
proof (induction fds s rule: AcceptConnections.induct)
  case (2 fd fds s)
  show ?case
  proof (cases "fd \<ge> 0")
    case True
    with 2(3) obtain s1 where "AssignToIoThread fd s = Inr s1" "AcceptConnections fds s1 = Inr s'"
      by (auto simp: bindE_eq_Inr)
    with 2(1) [OF True] AssignToIoThread_ok [OF 2(2), of fd s1] show ?thesis by simp
  qed (use 2 in simp)
qed simp

lemma Execute_ok:
  assumes "server_ok s" and "Execute clock request s = Inr (bytes, s')"
  shows "server_ok s' \<and> io_threads s' = io_threads s \<and> srv_event s' = srv_event s \<and> fd_to_thread s' = fd_to_thread s"
proof -
  obtain reply data where d: "Dispatch (clock (ticks s)) request (srv_store s) = Inr (reply, data)"
    and s': "s' = s\<lparr>srv_store := data, ticks := ticks s + 1\<rparr>"
    using assms(2) by (auto simp: Execute_def split: sum.splits)
  have "StandardMap_invar data"
    using d assms(1) by (cases rule: Dispatch_cases) (auto simp: server_ok_def dest: Handle_invar)
  with s' assms(1) show ?thesis by (simp add: server_ok_def)
qed

lemma ExecuteAll_ok:
  "server_ok s \<Longrightarrow> ExecuteAll clock vs response s = Inr (r, s') \<Longrightarrow>
     server_ok s' \<and> io_threads s' = io_threads s \<and> srv_event s' = srv_event s \<and> fd_to_thread s' = fd_to_thread s"
proof (induction vs arbitrary: response s)
  case (Cons v vs)
  then obtain bytes s1 where e: "Execute clock v s = Inr (bytes, s1)" "ExecuteAll clock vs (response @ bytes) s1 = Inr (r, s')"
    by (auto simp: bindE_eq_Inr)
  with Cons.IH [of s1] Execute_ok [OF Cons.prems(1) e(1)] show ?case by simp
qed simp

lemma HandleOutboxMsg_ok:
  assumes s: "server_ok s" and r: "HandleOutboxMsg clock msg s = Inr s'"
  shows "server_ok s' \<and> outboxes s' = outboxes s \<and> srv_event s' = srv_event s \<and> length (io_threads s') = length (io_threads s)"
proof (cases msg)
  case (CommandBatch fd vs)
  then obtain response s1 where e: "ExecuteAll clock vs [] s = Inr (response, s1)"
    and p: "(case fd_to_thread s1 fd of None \<Rightarrow> Inr s1 | Some i \<Rightarrow> with_thread i (PostResponse fd response) s1) = Inr s'"
    using r by (auto simp: ExecuteAndRespond_def bindE_eq_Inr)
  note h = ExecuteAll_ok [OF s e]
  show ?thesis
  proof (cases "fd_to_thread s1 fd")
    case None
    with p h show ?thesis by simp
  next
    case (Some i)
    then have "i < length (io_threads s1)" using h by (auto simp: server_ok_def)
    with post_ok [of s1 i "WriteResponse fd response" s'] p Some h show ?thesis by (simp add: PostResponse_def)
  qed
next
  case (Disconnect fd)
  then have s': "s' = s\<lparr>fd_to_thread := (fd_to_thread s)(fd := None)\<rparr>" using r by simp
  from s show ?thesis unfolding s' server_ok_def by simp
qed

lemma GetOutboxMsg_ok:
  assumes "thread_ok t" and "GetOutboxMsg t = (r, t')"
  shows "thread_ok t' \<and> command_event t' = command_event t \<and>
    (case outbox_msgs t of [] \<Rightarrow> r = None \<and> outbox_msgs t' = [] | m # ms \<Rightarrow> r = Some m \<and> outbox_msgs t' = ms)"
proof -
  have q: "io_queues t" using assms(1) by (simp add: thread_ok_def io_invar_def)
  have i: "io_invar t'" using GetOutboxMsg_invar [OF _ assms(2)] assms(1) by (simp add: thread_ok_def)
  obtain q' where t': "t' = t\<lparr>outbox := q'\<rparr>" using GetOutboxMsg_spec [OF q assms(2)] by blast
  with i assms(1) GetOutboxMsg_spec [OF q assms(2)] show ?thesis by (simp add: thread_ok_def)
qed

lemma DrainOutbox_total:
  assumes "server_ok s" and "i < length (io_threads s)"
  shows "\<exists>r. DrainOutbox clock i s = Some r \<and> (\<forall>s'. r = Inr s' \<longrightarrow> server_ok s' \<and>
    outboxes s' = (outboxes s)[i := []] \<and> srv_event s' = srv_event s \<and> length (io_threads s') = length (io_threads s))"
  using assms
proof (induction "outboxes s ! i" arbitrary: s)
  case Nil
  obtain r t where g: "GetOutboxMsg (get_thread i s) = (r, t)" by (rule prod.exhaust)
  note gt = get_thread_ok [OF Nil.prems]
  have t: "thread_ok t" "command_event t = srv_event s" "r = None" "outbox_msgs t = []"
    using GetOutboxMsg_ok [OF gt(1) g] Nil.hyps gt(2,3) by auto
  then have "DrainOutbox clock i s = Some (Inr (set_thread i t s))" using g by (simp add: DrainOutbox.simps [of clock i s])
  with set_thread_ok [OF Nil.prems(1) t(1), of i] t show ?case by (simp add: set_thread_def)
next
  case (Cons msg msgs)
  obtain r t where g: "GetOutboxMsg (get_thread i s) = (r, t)" by (rule prod.exhaust)
  note gt = get_thread_ok [OF Cons.prems]
  have t: "thread_ok t" "command_event t = srv_event s" "r = Some msg" "outbox_msgs t = msgs"
    using GetOutboxMsg_ok [OF gt(1) g] Cons.hyps(2) [symmetric] gt(2,3) by auto
  let ?s = "set_thread i t s"
  note st = set_thread_ok [OF Cons.prems(1) t(1), of i]
  have keep: "srv_event ?s = srv_event s" "length (io_threads ?s) = length (io_threads s)" using t(2) by (simp_all add: set_thread_def)
  show ?case
  proof (cases "HandleOutboxMsg clock msg ?s")
    case (Inl h)
    with g t(3) show ?thesis by (simp add: DrainOutbox.simps [of clock i s])
  next
    case (Inr s1)
    note h = HandleOutboxMsg_ok [OF st(1) Inr]
    have "msgs = outboxes s1 ! i" using h st(2) t(4) Cons.prems(2) by simp
    from Cons.hyps(1) [OF this] h keep Cons.prems(2) obtain r' where
      "DrainOutbox clock i s1 = Some r'" "\<And>s'. r' = Inr s' \<Longrightarrow> server_ok s' \<and>
         outboxes s' = (outboxes s1)[i := []] \<and> srv_event s' = srv_event s1 \<and> length (io_threads s') = length (io_threads s1)"
      by auto
    moreover have "DrainOutbox clock i s = DrainOutbox clock i s1"
      using g t(3) Inr by (simp add: DrainOutbox.simps [of clock i s])
    moreover have "(outboxes s1)[i := []] = (outboxes s)[i := []]" using h st(2) by simp
    ultimately show ?thesis using h keep by auto
  qed
qed

lemma ProcessThreads_total:
  assumes "server_ok s" and "\<forall>i \<in> set js. i < length (io_threads s)"
  shows "\<exists>r. ProcessThreads clock js s = Some r \<and> (\<forall>s'. r = Inr s' \<longrightarrow> server_ok s' \<and>
    outboxes s' = fold (\<lambda>i bs. bs[i := []]) js (outboxes s) \<and> srv_event s' = srv_event s \<and> length (io_threads s') = length (io_threads s))"
  using assms
proof (induction js arbitrary: s)
  case (Cons i js)
  obtain r where r: "DrainOutbox clock i s = Some r" "\<And>s'. r = Inr s' \<Longrightarrow> server_ok s' \<and>
      outboxes s' = (outboxes s)[i := []] \<and> srv_event s' = srv_event s \<and> length (io_threads s') = length (io_threads s)"
    using DrainOutbox_total [OF Cons.prems(1), of i clock] Cons.prems(2) by auto
  show ?case
  proof (cases r)
    case (Inl h)
    with r show ?thesis by simp
  next
    case (Inr s1)
    note h = r(2) [OF Inr]
    from Cons.IH [of s1] Cons.prems(2) h obtain r' where r': "ProcessThreads clock js s1 = Some r'"
      "\<And>s'. r' = Inr s' \<Longrightarrow> server_ok s' \<and> outboxes s' = fold (\<lambda>i bs. bs[i := []]) js (outboxes s1) \<and>
        srv_event s' = srv_event s1 \<and> length (io_threads s') = length (io_threads s1)"
      by auto
    with r(1) Inr h show ?thesis by (intro exI [of _ r']) auto
  qed
qed simp

lemma fold_clear: "length bs \<le> n \<Longrightarrow> fold (\<lambda>i bs. bs[i := []]) [0..<n] bs = replicate (length bs) []"
proof -
  have "fold (\<lambda>i bs. bs[i := []]) [0..<n] bs = replicate (min n (length bs)) [] @ drop n bs" for n
  proof (induction n)
    case (Suc n)
    show ?case
    proof (cases "n < length bs")
      case True
      then have "drop n bs = bs ! n # drop (Suc n) bs" by (simp add: Cons_nth_drop_Suc)
      with True Suc show ?thesis by (simp add: min_def list_update_append replicate_append_same)
    qed (use Suc in \<open>simp add: min_def list_update_beyond\<close>)
  qed simp
  then show "length bs \<le> n \<Longrightarrow> fold (\<lambda>i bs. bs[i := []]) [0..<n] bs = replicate (length bs) []"
    by (simp add: min_def)
qed

lemma ProcessCommands_total:
  assumes "server_ok s"
  shows "\<exists>r. ProcessCommands clock s = Some r \<and> (\<forall>s'. r = Inr s' \<longrightarrow> server_ok s' \<and>
    outboxes s' = replicate (length (io_threads s)) [] \<and> srv_event s' = srv_event s)"
  using ProcessThreads_total [OF assms, of "[0..<length (io_threads s)]" clock]
  by (auto simp: ProcessCommands_def fold_clear)

lemma main_awake_same: "outboxes s' = outboxes s \<Longrightarrow> srv_event s' = srv_event s \<Longrightarrow> main_awake s' = main_awake s"
  by (simp only: main_awake_def)

lemma HandleMainEvent_total:
  assumes s: "server_ok s" and a: "main_awake s"
  shows "\<exists>r. HandleMainEvent clock calls fd s = Some r \<and> (\<forall>s'. r = Inr s' \<longrightarrow> server_ok s' \<and> main_awake s')"
proof -
  consider (listen) "fd = listen_fd s" | (command) "fd \<noteq> listen_fd s" "fd = command_fd s"
    | (other) "fd \<noteq> listen_fd s" "fd \<noteq> command_fd s" by blast
  then show ?thesis
  proof cases
    case listen
    then have "HandleMainEvent clock calls fd s = Some (AcceptConnections (accepted_fds calls) s)"
      by (simp add: HandleMainEvent_def)
    with AcceptConnections_ok [OF s] a main_awake_same show ?thesis by blast
  next
    case command
    let ?s = "s\<lparr>srv_event := Drain (srv_event s)\<rparr>"
    have "server_ok ?s" using s by (simp add: server_ok_def)
    then obtain r where r: "ProcessCommands clock ?s = Some r" "\<And>s'. r = Inr s' \<Longrightarrow> server_ok s' \<and>
        outboxes s' = replicate (length (io_threads s)) []"
      using ProcessCommands_total [of ?s clock] by auto
    have "main_awake s'" if "outboxes s' = replicate (length (io_threads s)) []" for s'
      using that unfolding main_awake_def by simp
    with r command show ?thesis by (simp add: HandleMainEvent_def)
  next
    case other
    have "server_ok (CreateSnapshot p q s) \<and> outboxes (CreateSnapshot p q s) = outboxes s \<and> srv_event (CreateSnapshot p q s) = srv_event s" for p q
      using s by (auto simp: CreateSnapshot_def server_ok_def split: option.splits)
    moreover have "server_ok (ReapSnapshot fd s) \<and> outboxes (ReapSnapshot fd s) = outboxes s \<and> srv_event (ReapSnapshot fd s) = srv_event s"
      using s by (auto simp: ReapSnapshot_def server_ok_def split: option.splits if_splits)
    ultimately have "server_ok (CreateSnapshot p q s) \<and> main_awake (CreateSnapshot p q s)"
      "server_ok (ReapSnapshot fd s) \<and> main_awake (ReapSnapshot fd s)" for p q
      using a main_awake_same by blast+
    with other show ?thesis by (simp add: HandleMainEvent_def)
  qed
qed

lemma IoHandle_total:
  assumes s: "server_ok s" and a: "main_awake s" and i: "i < length (io_threads s)"
  shows "\<exists>r. IoHandle i ev s = Some r \<and> (\<forall>h. r = Inl h \<longrightarrow> h = OutboxFull) \<and> (\<forall>s'. r = Inr s' \<longrightarrow> server_ok s' \<and> main_awake s')"
proof -
  note g = get_thread_ok [OF s i]
  obtain r where r: "HandleEvent ev (get_thread i s) = Some r" "\<forall>h. r = Inl h \<longrightarrow> h = OutboxFull"
    "\<forall>t. r = Inr t \<longrightarrow> progress (get_thread i s) t \<and> (inbox_msgs t = [] \<or>
       inbox t = inbox (get_thread i s) \<and> inbox_event t = inbox_event (get_thread i s))"
    using HandleEvent_total [of "get_thread i s" ev] g(1) by (auto simp: thread_ok_def)
  show ?thesis
  proof (cases r)
    case (Inl h)
    with r show ?thesis by (simp add: IoHandle_def)
  next
    case (Inr t)
    then have p: "progress (get_thread i s) t" "inbox_msgs t = [] \<or>
        inbox t = inbox (get_thread i s) \<and> inbox_event t = inbox_event (get_thread i s)" using r(3) by auto
    then have t: "thread_ok t" using g(1) by (auto simp: thread_ok_def progress_def)
    obtain ms where ms: "outbox_msgs t = outboxes s ! i @ ms"
      "ev_readable (srv_event s) \<or> ms \<noteq> [] \<longrightarrow> ev_readable (command_event t)"
      using p(1) g(2,3) by (auto simp: progress_def)
    have "ev_readable (command_event t)" if "msgs \<in> set ((outboxes s)[i := outbox_msgs t])" "msgs \<noteq> []" for msgs
    proof -
      have "msgs = outbox_msgs t \<or> msgs \<in> set (outboxes s)"
        using that(1) set_update_subset_insert [of "outboxes s" i "outbox_msgs t"] by blast
      moreover have "outboxes s ! i \<in> set (outboxes s)" using i by simp
      ultimately show ?thesis using ms a that(2) unfolding main_awake_def by (metis append_is_Nil_conv)
    qed
    then have "main_awake (set_thread i t s)"
      using set_thread_ok(2) [OF s t, of i] by (auto simp: main_awake_def set_thread_def)
    with set_thread_ok(1) [OF s t, of i] r(1) Inr show ?thesis by (simp add: IoHandle_def)
  qed
qed

lemma new_thread_ok: "thread_ok (IoThread_new EventFd_new)" "outbox_msgs (IoThread_new EventFd_new) = []"
  using IoThread_new_invar [of EventFd_new] by (simp_all add: thread_ok_def IoThread_new_def Spsc_new_correct)

lemma Server_new_ok:
  "server_ok (Server_new hardware epoll_ok listen command snapshot)" "main_awake (Server_new hardware epoll_ok listen command snapshot)"
  by (auto simp: server_ok_def main_awake_def Server_new_def NumIoThreads_def StandardMap_invar_def new_thread_ok set_replicate_conv_if)









lemma sys_step_ok: "sys_step clock s s' \<Longrightarrow> server_ok s \<and> main_awake s \<Longrightarrow> server_ok s' \<and> main_awake s'"
proof (induction rule: sys_step.induct)
  case (sys_main calls fd s s')
  with HandleMainEvent_total [of s clock calls fd] show ?case by auto
next
  case (sys_io i s ev s')
  with IoHandle_total [of s i ev] show ?case by auto
qed

lemma Restore_invar: "Store_invar data \<Longrightarrow> Store_invar (snd (Restore readable prefix dir data))"
  using DeserialiseFromJson_invar [of data]
  by (auto simp: Restore_def split: option.splits node.splits prod.splits sum.splits) (metis snd_conv)+

lemma Start_ok:
  assumes "server_ok s" and "main_awake s" and "Store_invar (srv_store s)" and "Server_Start epoll_ok readable dir s = Some s'"
  shows "server_ok s' \<and> main_awake s'"
proof -
  obtain data where r: "Restore readable kSnapshotPrefix dir (srv_store s) = (True, data)"
    and s': "s' = s\<lparr>srv_store := data, io_threads := map Start (io_threads s)\<rparr>"
    using assms(4) by (auto simp: Server_Start_def split: if_splits prod.splits bool.splits)
  have "thread_ok (Start t) \<and> outbox_msgs (Start t) = outbox_msgs t" if "thread_ok t" for t
    using that set_inbox_event_invar(3) [of t True] by (simp add: thread_ok_def Start_def)
  moreover have "StandardMap_invar data"
    using Restore_invar [OF assms(3), of readable kSnapshotPrefix dir] r by (simp add: Store_invar_def)
  ultimately show ?thesis using assms(1,2) unfolding s' by (auto simp: server_ok_def main_awake_def)
qed

text \<open>A server that has started, and everything that can happen then.\<close>

inductive server_reachable :: "(nat \<Rightarrow> int) \<Rightarrow> Server \<Rightarrow> bool" for clock where
  started: "Server_Start True readable dir (Server_new hardware True listen command snapshot) = Some s \<Longrightarrow> server_reachable clock s"
| stepped: "server_reachable clock s \<Longrightarrow> sys_step clock s s' \<Longrightarrow> server_reachable clock s'"

lemma server_reachable_ok: "server_reachable clock s \<Longrightarrow> server_ok s \<and> main_awake s"
proof (induction rule: server_reachable.induct)
  case (started readable dir hardware listen command snapshot s)
  have "Store_invar (srv_store (Server_new hardware True listen command snapshot))"
    by (simp add: Server_new_def Store_invar_def StandardMap_defs)
  from Start_ok [OF Server_new_ok this started] show ?case .
next
  case (stepped s s')
  then show ?case using sys_step_ok by blast
qed

section \<open>Processing one message\<close>

lemma DrainOutbox_empty:
  assumes "server_ok s" and "i < length (io_threads s)" and "outboxes s ! i = []"
  shows "DrainOutbox clock i s = Some (Inr s)"
proof -
  note g = get_thread_ok [OF assms(1,2)]
  have "Pop kQueueCapacity (outbox (get_thread i s)) = (None, outbox (get_thread i s))"
    using g(1,2) assms(3) by (intro Pop_empty) (auto simp: thread_ok_def io_invar_def io_queues_def)
  then have "GetOutboxMsg (get_thread i s) = (None, get_thread i s)" by (simp add: GetOutboxMsg_def)
  then show ?thesis by (simp add: DrainOutbox.simps [of clock i s] set_get_thread)
qed

lemma DrainOutbox_single:
  assumes s: "server_ok s" and i: "i < length (io_threads s)" and m: "outboxes s ! i = [msg]"
  shows "\<exists>q. contents kQueueCapacity q = [] \<and> server_ok (s\<lparr>io_threads := (io_threads s)[i := (io_threads s ! i)\<lparr>outbox := q\<rparr>]\<rparr>) \<and>
    DrainOutbox clock i s = Some (HandleOutboxMsg clock msg (s\<lparr>io_threads := (io_threads s)[i := (io_threads s ! i)\<lparr>outbox := q\<rparr>]\<rparr>))"
proof -
  note g = get_thread_ok [OF s i]
  obtain r t where t: "GetOutboxMsg (get_thread i s) = (r, t)" by (rule prod.exhaust)
  have r: "r = Some msg" "outbox_msgs t = []" "thread_ok t" using GetOutboxMsg_ok [OF g(1) t] g(2) m by auto
  have "io_queues (get_thread i s)" using g(1) by (simp add: thread_ok_def io_invar_def)
  then obtain q where q: "t = (get_thread i s)\<lparr>outbox := q\<rparr>" using GetOutboxMsg_spec [OF _ t] by blast
  let ?s = "s\<lparr>io_threads := (io_threads s)[i := (io_threads s ! i)\<lparr>outbox := q\<rparr>]\<rparr>"
  have st: "set_thread i t s = ?s" by (simp add: q set_thread_def get_thread_def)
  have ok: "server_ok ?s" using set_thread_ok(1) [OF s r(3), of i] st by simp
  have "DrainOutbox clock i s = Some (HandleOutboxMsg clock msg ?s)"
  proof (cases "HandleOutboxMsg clock msg ?s")
    case (Inl h)
    with t r(1) st show ?thesis by (simp add: DrainOutbox.simps [of clock i s])
  next
    case (Inr s1)
    note h = HandleOutboxMsg_ok [OF ok Inr]
    have "outboxes s1 ! i = []" using h i r(2) by (simp add: q)
    with h i have "DrainOutbox clock i s1 = Some (Inr s1)" by (intro DrainOutbox_empty) auto
    with t r(1) st Inr show ?thesis by (simp add: DrainOutbox.simps [of clock i s])
  qed
  with ok r(2) q show ?thesis by auto
qed

lemma ProcessThreads_empty:
  "server_ok s \<Longrightarrow> \<forall>i \<in> set js. i < length (io_threads s) \<and> outboxes s ! i = [] \<Longrightarrow> ProcessThreads clock js s = Some (Inr s)"
proof (induction js)
  case (Cons j js)
  then have "DrainOutbox clock j s = Some (Inr s)" by (intro DrainOutbox_empty) auto
  moreover have "ProcessThreads clock js s = Some (Inr s)" using Cons.prems by (intro Cons.IH) auto
  ultimately show ?case by simp
qed simp

lemma ProcessThreads_append:
  "ProcessThreads clock (js @ ks) s = (case ProcessThreads clock js s of
     Some (Inr s1) \<Rightarrow> ProcessThreads clock ks s1 | r \<Rightarrow> r)"
  by (induction js arbitrary: s) (auto split: option.splits sum.splits)

lemma ProcessCommands_single:
  assumes s: "server_ok s" and i: "i < length (io_threads s)" and m: "outboxes s ! i = [msg]"
    and others: "\<forall>j < length (io_threads s). j \<noteq> i \<longrightarrow> outboxes s ! j = []"
  shows "\<exists>q. contents kQueueCapacity q = [] \<and> server_ok (s\<lparr>io_threads := (io_threads s)[i := (io_threads s ! i)\<lparr>outbox := q\<rparr>]\<rparr>) \<and>
    ProcessCommands clock s = Some (HandleOutboxMsg clock msg (s\<lparr>io_threads := (io_threads s)[i := (io_threads s ! i)\<lparr>outbox := q\<rparr>]\<rparr>))"
proof -
  let ?n = "length (io_threads s)"
  let ?s' = "\<lambda>q. s\<lparr>io_threads := (io_threads s)[i := (io_threads s ! i)\<lparr>outbox := q\<rparr>]\<rparr>"
  obtain q where q: "contents kQueueCapacity q = []" and ok: "server_ok (?s' q)"
    and d: "DrainOutbox clock i s = Some (HandleOutboxMsg clock msg (?s' q))"
    using DrainOutbox_single [OF s i m] by blast
  let ?s = "?s' q"
  have split: "[0..<?n] = [0..<i] @ i # [Suc i..<?n]"     using i upt_add_eq_append [of 0 i "?n - i"] upt_conv_Cons [of i ?n] by simp
  have "ProcessThreads clock [0..<i] s = Some (Inr s)"
    using others i by (intro ProcessThreads_empty [OF s]) auto
  then have start: "ProcessCommands clock s = ProcessThreads clock (i # [Suc i..<?n]) s"
    by (simp only: ProcessCommands_def split ProcessThreads_append option.case sum.case)
  have "ProcessCommands clock s = Some (HandleOutboxMsg clock msg ?s)"
  proof (cases "HandleOutboxMsg clock msg ?s")
    case (Inl h)
    with start d show ?thesis by simp
  next
    case (Inr s1)
    note h = HandleOutboxMsg_ok [OF ok Inr]
    have "outboxes s1 ! j = []" if "j < ?n" "j \<noteq> i" for j using h others that by simp
    then have "ProcessThreads clock [Suc i..<?n] s1 = Some (Inr s1)"
      using h by (intro ProcessThreads_empty) auto
    with start d Inr show ?thesis by simp
  qed
  with q ok show ?thesis by blast
qed

section \<open>One client in an idle server\<close>

lemma get_set_thread: "i < length (io_threads s) \<Longrightarrow> get_thread i (set_thread i t s) = t"
  by (simp add: get_thread_def set_thread_def)

text \<open>No message is under way.\<close>

definition idle :: "Server \<Rightarrow> bool" where
  "idle s \<longleftrightarrow> (\<forall>t \<in> set (io_threads s). inbox_msgs t = [] \<and> outbox_msgs t = [])"

definition client_at :: "Server \<Rightarrow> nat \<Rightarrow> int \<Rightarrow> Connection \<Rightarrow> bool" where
  "client_at s i fd c \<longleftrightarrow> i < length (io_threads s) \<and> fd_to_thread s fd = Some i \<and> connections (io_threads s ! i) fd = Some c"

text \<open>
  One round: the I/O thread finds the client readable and reads \<open>chunks\<close>, the main thread is woken
  and executes the requests, the I/O thread is woken and writes the replies.
\<close>

definition then_do :: "(halt + Server) option \<Rightarrow> (Server \<Rightarrow> (halt + Server) option) \<Rightarrow> (halt + Server) option" where
  "then_do r f = (case r of Some (Inr s) \<Rightarrow> f s | _ \<Rightarrow> r)"

definition serve_round :: "(nat \<Rightarrow> int) \<Rightarrow> nat \<Rightarrow> int \<Rightarrow> string list \<times> send_result list \<Rightarrow> Server \<Rightarrow> (halt + Server) option" where
  "serve_round clock i fd rnd s =
     then_do (IoHandle i (ClientEvent fd (Some (map Received (fst rnd))) None) s) (\<lambda>s1.
     then_do (ProcessCommands clock (s1\<lparr>srv_event := Drain (srv_event s1)\<rparr>)) (\<lambda>s2.
     IoHandle i (InboxEvent [snd rnd]) s2))"

fun serve :: "(nat \<Rightarrow> int) \<Rightarrow> nat \<Rightarrow> int \<Rightarrow> (string list \<times> send_result list) list \<Rightarrow> Server \<Rightarrow> (halt + Server) option" where
  "serve clock i fd [] s = Some (Inr s)"
| "serve clock i fd (rnd # rounds) s = then_do (serve_round clock i fd rnd s) (serve clock i fd rounds)"

text \<open>The requests with the times at which they are executed.\<close>

definition timed :: "(nat \<Rightarrow> int) \<Rightarrow> nat \<Rightarrow> RespValue list \<Rightarrow> (int \<times> RespValue) list" where
  "timed clock n vs = zip (map clock [n..<n + length vs]) vs"

lemma timed_Cons: "timed clock n (v # vs) = (clock n, v) # timed clock (n + 1) vs"
  by (simp add: timed_def upt_conv_Cons del: upt_Suc)

lemma timed_append: "timed clock n (vs @ ws) = timed clock n vs @ timed clock (n + length vs) ws"
proof (induction vs arbitrary: n)
  case Nil
  then show ?case by (simp add: timed_def)
next
  case (Cons v vs)
  from Cons.IH [of "n + 1"] show ?case by (simp add: timed_Cons)
qed

lemma ExecuteAll_DispatchAll:
  "DispatchAll (timed clock (ticks s) vs) (srv_store s) = Inr (rs, data) \<Longrightarrow>
     ExecuteAll clock vs response s = Inr (response @ concat (map Serialize rs), s\<lparr>srv_store := data, ticks := ticks s + length vs\<rparr>)"
proof (induction vs arbitrary: s rs response)
  case Nil
  then show ?case by (simp add: timed_def)
next
  case (Cons v vs)
  obtain r data1 rs' where d: "Dispatch (clock (ticks s)) v (srv_store s) = Inr (r, data1)"
    "DispatchAll (timed clock (ticks s + 1) vs) data1 = Inr (rs', data)" "rs = r # rs'"
    using Cons.prems by (auto simp: timed_Cons bindE_eq_Inr)
  let ?s = "s\<lparr>srv_store := data1, ticks := ticks s + 1\<rparr>"
  have e: "Execute clock v s = Inr (Serialize r, ?s)" using d(1) by (simp add: Execute_def)
  have "ExecuteAll clock vs (response @ Serialize r) ?s = Inr ((response @ Serialize r) @ concat (map Serialize rs'),
      ?s\<lparr>srv_store := data, ticks := ticks ?s + length vs\<rparr>)"
    using Cons.IH [of ?s rs' "response @ Serialize r"] d(2) by simp
  with e d(3) show ?case by simp
qed

lemma idle_outboxes: "idle s \<Longrightarrow> i < length (io_threads s) \<Longrightarrow> outboxes s ! i = [] \<and> inbox_msgs (io_threads s ! i) = []"
  by (simp add: idle_def)

lemma read_round:
  assumes s: "server_ok s" and idle: "idle s" and c: "client_at s i fd c" and chunks: "[] \<notin> set chunks"
    and p: "PopAll (PushString (concat chunks) (parse_queue c)) = (Inr vs, pq)"
  shows "\<exists>t. IoHandle i (ClientEvent fd (Some (map Received chunks)) None) s = Some (Inr (set_thread i t s)) \<and> thread_ok t \<and>
    inbox_msgs t = [] \<and> outbox_msgs t = (if vs = [] then [] else [CommandBatch fd vs]) \<and>
    replies t fd = replies (io_threads s ! i) fd \<and> connections t fd = Some (c\<lparr>parse_queue := pq\<rparr>)"
proof -
  have i: "i < length (io_threads s)" using c by (simp add: client_at_def)
  note g = get_thread_ok [OF s i]
  have t: "io_invar (get_thread i s)" using g(1) by (simp add: thread_ok_def)
  have c': "connections (get_thread i s) fd = Some c" using c by (simp add: client_at_def get_thread_def)
  have empty: "outbox_msgs (get_thread i s) = []" "inbox_msgs (get_thread i s) = []"
    using idle_outboxes [OF idle i] g(2) by (simp_all add: get_thread_def)
  then have "length (outbox_msgs (get_thread i s)) < kQueueCapacity" by (simp add: kQueueCapacity_def)
  from read_requests [OF t c' this chunks p] obtain t1 where
    t1: "HandleEvent (ClientEvent fd (Some (map Received chunks)) None) (get_thread i s) = Some (Inr t1)" "io_invar t1"
      "client_step fd (if vs = [] then [] else [CommandBatch fd vs]) (get_thread i s) t1"
      "replies t1 fd = replies (get_thread i s) fd" "connections t1 fd = Some (c\<lparr>parse_queue := pq\<rparr>)" by blast
  have "inbox_msgs t1 = []" "outbox_msgs t1 = (if vs = [] then [] else [CommandBatch fd vs])"
    using t1(3) empty by (simp_all add: client_step_def)
  with t1 show ?thesis by (intro exI [of _ t1]) (simp add: IoHandle_def thread_ok_def get_thread_def)
qed

text \<open>Everything of the server except the thread \<open>i\<close> and the event is as before.\<close>

definition same_elsewhere :: "nat \<Rightarrow> Server \<Rightarrow> Server \<Rightarrow> bool" where
  "same_elsewhere i s s' \<longleftrightarrow> length (io_threads s') = length (io_threads s) \<and> fd_to_thread s' = fd_to_thread s \<and>
     (\<forall>j. j \<noteq> i \<longrightarrow> io_threads s' ! j = io_threads s ! j)"

lemma same_elsewhere_trans: "same_elsewhere i s s1 \<Longrightarrow> same_elsewhere i s1 s2 \<Longrightarrow> same_elsewhere i s s2"
  by (simp add: same_elsewhere_def)

lemma same_elsewhere_set: "same_elsewhere i s (set_thread i t s)"
  by (simp add: same_elsewhere_def set_thread_def)

lemma thread_set_thread:
  assumes "i < length (io_threads s)"
  shows "inbox (io_threads (set_thread i t s) ! i) = inbox t" "outbox (io_threads (set_thread i t s) ! i) = outbox t"
    "connections (io_threads (set_thread i t s) ! i) = connections t" "replies (io_threads (set_thread i t s) ! i) = replies t"
    "wire (io_threads (set_thread i t s) ! i) = wire t" "interest (io_threads (set_thread i t s) ! i) = interest t"
    "ticks (set_thread i t s) = ticks s" "srv_store (set_thread i t s) = srv_store s"
  using assms by (simp_all add: set_thread_def)

lemma respond_round:
  assumes s: "server_ok s" and c: "client_at s i fd c" and m: "outboxes s ! i = [CommandBatch fd vs]"
    and others: "\<forall>j < length (io_threads s). j \<noteq> i \<longrightarrow> outboxes s ! j = []" and inb: "inbox_msgs (io_threads s ! i) = []"
    and d: "DispatchAll (timed clock (ticks s) vs) (srv_store s) = Inr (rs, data)"
  shows "\<exists>s'. ProcessCommands clock s = Some (Inr s') \<and> server_ok s' \<and> same_elsewhere i s s' \<and> client_at s' i fd c \<and>
    srv_store s' = data \<and> ticks s' = ticks s + length vs \<and> outbox_msgs (io_threads s' ! i) = [] \<and>
    inbox_msgs (io_threads s' ! i) = [WriteResponse fd (concat (map Serialize rs))] \<and>
    replies (io_threads s' ! i) fd = replies (io_threads s ! i) fd"
proof -
  let ?bytes = "concat (map Serialize rs)"
  have i: "i < length (io_threads s)" using c by (simp add: client_at_def)
  let ?s' = "\<lambda>q. s\<lparr>io_threads := (io_threads s)[i := (io_threads s ! i)\<lparr>outbox := q\<rparr>]\<rparr>"
  obtain q where q: "contents kQueueCapacity q = []" "server_ok (?s' q)"
    "ProcessCommands clock s = Some (HandleOutboxMsg clock (CommandBatch fd vs) (?s' q))"
    using ProcessCommands_single [OF s i m others] by blast
  let ?s2 = "?s' q"
  let ?s3 = "?s2\<lparr>srv_store := data, ticks := ticks s + length vs\<rparr>"
  have e: "ExecuteAll clock vs [] ?s2 = Inr (?bytes, ?s3)" using ExecuteAll_DispatchAll [of clock ?s2 vs rs data "[]"] d by simp
  have ok3: "server_ok ?s3" using ExecuteAll_ok [OF q(2) e] by simp
  have i3: "i < length (io_threads ?s3)" using i by simp
  note g = get_thread_ok [OF ok3 i3]
  have "io_queues (get_thread i ?s3)" using g(1) by (simp add: thread_ok_def io_invar_def)
  moreover have inb3: "inbox_msgs (get_thread i ?s3) = []" using inb i by (simp add: get_thread_def)
  ultimately obtain q' where post: "PostResponse fd ?bytes (get_thread i ?s3) =
      Inr ((get_thread i ?s3)\<lparr>inbox := q', inbox_event := Notify (inbox_event (get_thread i ?s3))\<rparr>)"
    using PostMsg_spec(2) [of "get_thread i ?s3" "WriteResponse fd ?bytes"] by (auto simp: PostResponse_def kQueueCapacity_def)
  let ?t = "(get_thread i ?s3)\<lparr>inbox := q', inbox_event := Notify (inbox_event (get_thread i ?s3))\<rparr>"
  have inbox: "contents kQueueCapacity q' = [WriteResponse fd ?bytes]"
    using PostMsg_invar [of "get_thread i ?s3" "WriteResponse fd ?bytes" ?t] g(1) post inb3
    by (simp add: PostResponse_def thread_ok_def)
  have "fd_to_thread ?s3 fd = Some i" using c by (simp add: client_at_def)
  then have "HandleOutboxMsg clock (CommandBatch fd vs) ?s2 = Inr (set_thread i ?t ?s3)"
    using e post by (simp add: ExecuteAndRespond_def with_thread_def)
  moreover from HandleOutboxMsg_ok [OF q(2) this] have "server_ok (set_thread i ?t ?s3)" by simp
  moreover have "same_elsewhere i s (set_thread i ?t ?s3)"
    using same_elsewhere_trans [of i s ?s3] same_elsewhere_set [of i ?s3 ?t] by (simp add: same_elsewhere_def)
  moreover have "client_at (set_thread i ?t ?s3) i fd c"
    using c i3 unfolding client_at_def thread_set_thread [OF i3] by (simp add: get_thread_def set_thread_def)
  ultimately show ?thesis
    using q(1,3) inbox i by (intro exI [of _ "set_thread i ?t ?s3"]) (simp add: thread_set_thread [OF i3] get_thread_def)
qed

lemma write_round:
  assumes s: "server_ok s" and c: "client_at s i fd c" and m: "inbox_msgs (io_threads s ! i) = [WriteResponse fd bytes]"
    and h: "harmless sends"
  shows "\<exists>s' rest. IoHandle i (InboxEvent [sends]) s = Some (Inr s') \<and> server_ok s' \<and> same_elsewhere i s s' \<and>
    client_at s' i fd (c\<lparr>out_buffer := rest\<rparr>) \<and> srv_store s' = srv_store s \<and> ticks s' = ticks s \<and>
    inbox_msgs (io_threads s' ! i) = [] \<and> outbox_msgs (io_threads s' ! i) = outbox_msgs (io_threads s ! i) \<and>
    replies (io_threads s' ! i) fd = replies (io_threads s ! i) fd @ bytes"
proof -
  have i: "i < length (io_threads s)" using c by (simp add: client_at_def)
  note g = get_thread_ok [OF s i]
  have t: "io_invar (get_thread i s)" "connections (get_thread i s) fd = Some c" "inbox_msgs (get_thread i s) = [WriteResponse fd bytes]"
    using g(1) c m by (simp_all add: thread_ok_def client_at_def get_thread_def)
  obtain t2 rest where t2: "HandleEvent (InboxEvent [sends]) (get_thread i s) = Some (Inr t2)" "io_invar t2" "inbox_msgs t2 = []"
    "outbox_msgs t2 = outbox_msgs (get_thread i s)" "replies t2 fd = replies (get_thread i s) fd @ bytes"
    "connections t2 fd = Some (c\<lparr>out_buffer := rest\<rparr>)"
    using write_replies [OF t h] by blast
  have "thread_ok t2" using t2(2,3) by (simp add: thread_ok_def)
  then have "server_ok (set_thread i t2 s)" by (rule set_thread_ok(1) [OF s])
  moreover have "IoHandle i (InboxEvent [sends]) s = Some (Inr (set_thread i t2 s))" using t2(1) by (simp add: IoHandle_def)
  moreover have "client_at (set_thread i t2 s) i fd (c\<lparr>out_buffer := rest\<rparr>)"
    using c i t2(6) unfolding client_at_def thread_set_thread [OF i] by (simp add: set_thread_def)
  ultimately show ?thesis
    using t2(3-5) same_elsewhere_set [of i s t2]
    by (intro exI [of _ "set_thread i t2 s"] exI [of _ rest]) (simp add: thread_set_thread [OF i] get_thread_def)
qed

lemma empty_inbox_round:
  assumes s: "server_ok s" and i: "i < length (io_threads s)" and m: "inbox_msgs (io_threads s ! i) = []"
  shows "IoHandle i (InboxEvent sends) s =
    Some (Inr (set_thread i ((get_thread i s)\<lparr>inbox_event := Drain (inbox_event (get_thread i s))\<rparr>) s))"
proof -
  have "Spsc_invar kQueueCapacity (inbox (get_thread i s))" "inbox_msgs (get_thread i s) = []"
    using get_thread_ok(1) [OF s i] m by (simp_all add: thread_ok_def io_invar_def io_queues_def get_thread_def)
  then have "Pop kQueueCapacity (inbox (get_thread i s)) = (None, inbox (get_thread i s))" by (rule Pop_empty)
  then have "DrainInbox sends ((get_thread i s)\<lparr>inbox_event := Drain (inbox_event (get_thread i s))\<rparr>) =
      Some (Inr ((get_thread i s)\<lparr>inbox_event := Drain (inbox_event (get_thread i s))\<rparr>))"
    by (simp add: DrainInbox.simps)
  then show ?thesis by (simp add: IoHandle_def HandleEvent_def)
qed

lemma drain_event_ok: "server_ok s \<Longrightarrow> server_ok (s\<lparr>srv_event := Drain (srv_event s)\<rparr>)"
  by (simp add: server_ok_def)

lemma quiet_round:
  assumes ok: "server_ok s" and c: "client_at s i fd c" and empty: "\<forall>j < length (io_threads s). outboxes s ! j = []"
    and inbox: "inbox_msgs (io_threads s ! i) = []"
  shows "\<exists>s'. ProcessCommands clock s = Some (Inr s) \<and> IoHandle i (InboxEvent [sends]) s = Some (Inr s') \<and> server_ok s' \<and>
    same_elsewhere i s s' \<and> client_at s' i fd c \<and> srv_store s' = srv_store s \<and> ticks s' = ticks s \<and>
    inbox_msgs (io_threads s' ! i) = [] \<and> outbox_msgs (io_threads s' ! i) = [] \<and>
    replies (io_threads s' ! i) fd = replies (io_threads s ! i) fd"
proof -
  have i: "i < length (io_threads s)" using c by (simp add: client_at_def)
  have pc: "ProcessCommands clock s = Some (Inr s)"
    unfolding ProcessCommands_def by (rule ProcessThreads_empty [OF ok]) (use empty in simp)
  let ?t = "(get_thread i s)\<lparr>inbox_event := Drain (inbox_event (get_thread i s))\<rparr>"
  have g: "io_invar (get_thread i s)" using get_thread_ok(1) [OF ok i] by (simp add: thread_ok_def)
  then have "ev_valid (Drain (inbox_event (get_thread i s)))" by (simp add: io_invar_def io_queues_def)
  from set_inbox_event_invar(1) [OF g this] inbox have "thread_ok ?t" by (simp add: thread_ok_def get_thread_def)
  then have "server_ok (set_thread i ?t s)" by (rule set_thread_ok(1) [OF ok])
  moreover have "client_at (set_thread i ?t s) i fd c"
    using c i unfolding client_at_def thread_set_thread [OF i] by (simp add: get_thread_def set_thread_def)
  moreover have "outbox_msgs (io_threads s ! i) = []" using empty i by simp
  ultimately show ?thesis
    using pc empty_inbox_round [OF ok i inbox, of "[sends]"] same_elsewhere_set [of i s ?t] inbox
    by (intro exI [of _ "set_thread i ?t s"]) (simp add: thread_set_thread [OF i] get_thread_def)
qed

lemma answer_round:
  assumes ok: "server_ok s" and c: "client_at s i fd c" and inbox: "inbox_msgs (io_threads s ! i) = []" and h: "harmless sends"
    and m: "outboxes s ! i = (if vs = [] then [] else [CommandBatch fd vs])"
    and others: "\<forall>j < length (io_threads s). j \<noteq> i \<longrightarrow> outboxes s ! j = []"
    and d: "DispatchAll (timed clock (ticks s) vs) (srv_store s) = Inr (rs, data)"
  shows "\<exists>s2 s' c'. ProcessCommands clock s = Some (Inr s2) \<and> IoHandle i (InboxEvent [sends]) s2 = Some (Inr s') \<and> server_ok s' \<and>
    same_elsewhere i s s' \<and> client_at s' i fd c' \<and> parse_queue c' = parse_queue c \<and> srv_store s' = data \<and>
    ticks s' = ticks s + length vs \<and> inbox_msgs (io_threads s' ! i) = [] \<and> outbox_msgs (io_threads s' ! i) = [] \<and>
    replies (io_threads s' ! i) fd = replies (io_threads s ! i) fd @ concat (map Serialize rs)"
proof (cases "vs = []")
  case True
  have "\<forall>j < length (io_threads s). outboxes s ! j = []" using others m True by (metis (full_types))
  from quiet_round [OF ok c this inbox, of clock sends] obtain s' where
    "ProcessCommands clock s = Some (Inr s)" "IoHandle i (InboxEvent [sends]) s = Some (Inr s')" "server_ok s'"
    "same_elsewhere i s s'" "client_at s' i fd c" "srv_store s' = srv_store s" "ticks s' = ticks s"
    "inbox_msgs (io_threads s' ! i) = []" "outbox_msgs (io_threads s' ! i) = []"
    "replies (io_threads s' ! i) fd = replies (io_threads s ! i) fd" by blast
  moreover have "rs = []" "data = srv_store s" using d True by (simp_all add: timed_def)
  ultimately show ?thesis using True by (intro exI [of _ s] exI [of _ s'] exI [of _ c]) simp
next
  case False
  have m1: "outboxes s ! i = [CommandBatch fd vs]" using m False by simp
  obtain s2 where s2: "ProcessCommands clock s = Some (Inr s2)" "server_ok s2" "same_elsewhere i s s2" "client_at s2 i fd c"
    "srv_store s2 = data" "ticks s2 = ticks s + length vs" "outbox_msgs (io_threads s2 ! i) = []"
    "inbox_msgs (io_threads s2 ! i) = [WriteResponse fd (concat (map Serialize rs))]"
    "replies (io_threads s2 ! i) fd = replies (io_threads s ! i) fd"
    using respond_round [OF ok c m1 others inbox d] by blast
  obtain s3 rest where s3: "IoHandle i (InboxEvent [sends]) s2 = Some (Inr s3)" "server_ok s3" "same_elsewhere i s2 s3"
    "client_at s3 i fd (c\<lparr>out_buffer := rest\<rparr>)" "srv_store s3 = srv_store s2" "ticks s3 = ticks s2"
    "inbox_msgs (io_threads s3 ! i) = []" "outbox_msgs (io_threads s3 ! i) = outbox_msgs (io_threads s2 ! i)"
    "replies (io_threads s3 ! i) fd = replies (io_threads s2 ! i) fd @ concat (map Serialize rs)"
    using write_round [OF s2(2,4,8) h] by blast
  show ?thesis using s2 s3 same_elsewhere_trans [OF s2(3) s3(3)]
    by (intro exI [of _ s2] exI [of _ s3] exI [of _ "c\<lparr>out_buffer := rest\<rparr>"]) simp
qed

lemma serve_round_ok:
  assumes s: "server_ok s" and idle: "idle s" and c: "client_at s i fd c" and chunks: "[] \<notin> set chunks" and h: "harmless sends"
    and p: "PopAll (PushString (concat chunks) (parse_queue c)) = (Inr vs, pq)"
    and d: "DispatchAll (timed clock (ticks s) vs) (srv_store s) = Inr (rs, data)"
  shows "\<exists>s' c'. serve_round clock i fd (chunks, sends) s = Some (Inr s') \<and> server_ok s' \<and> idle s' \<and> client_at s' i fd c' \<and>
    parse_queue c' = pq \<and> srv_store s' = data \<and> ticks s' = ticks s + length vs \<and>
    replies (io_threads s' ! i) fd = replies (io_threads s ! i) fd @ concat (map Serialize rs)"
proof -
  have i: "i < length (io_threads s)" using c by (simp add: client_at_def)
  obtain t where t: "IoHandle i (ClientEvent fd (Some (map Received chunks)) None) s = Some (Inr (set_thread i t s))" "thread_ok t"
    "inbox_msgs t = []" "outbox_msgs t = (if vs = [] then [] else [CommandBatch fd vs])"
    "replies t fd = replies (io_threads s ! i) fd" "connections t fd = Some (c\<lparr>parse_queue := pq\<rparr>)"
    using read_round [OF s idle c chunks p] by blast
  let ?s1 = "(set_thread i t s)\<lparr>srv_event := Drain (srv_event (set_thread i t s))\<rparr>" and ?c = "c\<lparr>parse_queue := pq\<rparr>"
  have ok: "server_ok ?s1" by (rule drain_event_ok [OF set_thread_ok(1) [OF s t(2)]])
  have same: "same_elsewhere i s ?s1" using same_elsewhere_set [of i s t] by (simp add: same_elsewhere_def)
  have c1: "client_at ?s1 i fd ?c" using c t(6) thread_set_thread [OF i, of t] by (simp add: client_at_def set_thread_def)
  have at1: "outboxes ?s1 ! i = (if vs = [] then [] else [CommandBatch fd vs])" "inbox_msgs (io_threads ?s1 ! i) = []"
    "replies (io_threads ?s1 ! i) fd = replies (io_threads s ! i) fd" "ticks ?s1 = ticks s" "srv_store ?s1 = srv_store s"
    using t(3-5) i thread_set_thread [OF i, of t] by (simp_all add: set_thread_def)
  have others: "\<forall>j < length (io_threads ?s1). j \<noteq> i \<longrightarrow> outboxes ?s1 ! j = []"
    using same idle_outboxes [OF idle] by (auto simp: same_elsewhere_def)
  have d1: "DispatchAll (timed clock (ticks ?s1) vs) (srv_store ?s1) = Inr (rs, data)" using d at1(4,5) by simp
  obtain s2 s3 c' where s3: "ProcessCommands clock ?s1 = Some (Inr s2)" "IoHandle i (InboxEvent [sends]) s2 = Some (Inr s3)" "server_ok s3"
    "same_elsewhere i ?s1 s3" "client_at s3 i fd c'" "parse_queue c' = parse_queue ?c" "srv_store s3 = data" "ticks s3 = ticks ?s1 + length vs"
    "inbox_msgs (io_threads s3 ! i) = []" "outbox_msgs (io_threads s3 ! i) = []"
    "replies (io_threads s3 ! i) fd = replies (io_threads ?s1 ! i) fd @ concat (map Serialize rs)"
    using answer_round [OF ok c1 at1(2) h at1(1) others d1] by blast
  have "idle s3" using same_elsewhere_trans [OF same s3(4)] s3(9,10) idle by (auto simp: idle_def same_elsewhere_def all_set_conv_all_nth)
  moreover have "serve_round clock i fd (chunks, sends) s = Some (Inr s3)"
    using t(1) s3(1,2) by (simp add: serve_round_def then_do_def)
  ultimately show ?thesis using s3(3,5-8,11) at1(3,4) by (intro exI [of _ s3] exI [of _ c']) simp
qed

definition round_ok :: "string list \<times> send_result list \<Rightarrow> bool" where
  "round_ok rnd \<longleftrightarrow> [] \<notin> set (fst rnd) \<and> harmless (snd rnd)"

lemma serve_ok:
  assumes "server_ok s" and "idle s" and "client_at s i fd c" and "list_all round_ok rounds" and "list_all wf_resp reqs"
    and "rvq_values (parse_queue c) = []" and "FromString (rvq_buffer (parse_queue c)) = Inl (out_of_range m)"
    and "rvq_buffer (parse_queue c) @ concat (concat (map fst rounds)) = concat (map Serialize reqs)"
    and "DispatchAll (timed clock (ticks s) reqs) (srv_store s) = Inr (rs, data)"
  shows "\<exists>s' c'. serve clock i fd rounds s = Some (Inr s') \<and> server_ok s' \<and> idle s' \<and> client_at s' i fd c' \<and>
    srv_store s' = data \<and> ticks s' = ticks s + length reqs \<and>
    replies (io_threads s' ! i) fd = replies (io_threads s ! i) fd @ concat (map Serialize rs)"
  using assms
proof (induction rounds arbitrary: s c reqs rs m)
  case Nil
  have "reqs = []"
  proof (rule ccontr)
    assume "reqs \<noteq> []"
    then obtain v vs where "reqs = v # vs" by (cases reqs) auto
    with Nil.prems(5,7,8) FromString_Serialize [of v "concat (map Serialize vs)"] show False by simp
  qed
  with Nil.prems show ?case by (auto simp: timed_def)
next
  case (Cons rnd rounds)
  obtain chunks sends where rnd: "rnd = (chunks, sends)" by (cases rnd)
  have ok: "[] \<notin> set chunks" "harmless sends" using Cons.prems(4) by (auto simp: rnd round_ok_def)
  let ?q = "PushString (concat chunks) (parse_queue c)"
  have "rvq_values ?q = []" "rvq_buffer ?q @ concat (concat (map fst rounds)) = concat (map Serialize reqs)"
    using Cons.prems(6,8) by (simp_all add: PushString_def rnd)
  then obtain vs ws b m' where p: "reqs = vs @ ws" "b @ concat (concat (map fst rounds)) = concat (map Serialize ws)"
    "FromString b = Inl (out_of_range m')" "PopAll ?q = (Inr vs, \<lparr>rvq_buffer = b, rvq_values = []\<rparr>)"
    using PopAll_stream [OF Cons.prems(5)] by metis
  obtain rs1 data1 rs2 where d: "DispatchAll (timed clock (ticks s) vs) (srv_store s) = Inr (rs1, data1)"
    "DispatchAll (timed clock (ticks s + length vs) ws) data1 = Inr (rs2, data)" "rs = rs1 @ rs2"
    using Cons.prems(9) by (auto simp: p(1) timed_append DispatchAll_append bindE_eq_Inr)
  obtain s1 c1 where s1: "serve_round clock i fd (chunks, sends) s = Some (Inr s1)" "server_ok s1" "idle s1" "client_at s1 i fd c1"
    "parse_queue c1 = \<lparr>rvq_buffer = b, rvq_values = []\<rparr>" "srv_store s1 = data1" "ticks s1 = ticks s + length vs"
    "replies (io_threads s1 ! i) fd = replies (io_threads s ! i) fd @ concat (map Serialize rs1)"
    using serve_round_ok [OF Cons.prems(1-3) ok p(4) d(1)] by blast
  have "\<exists>s' c'. serve clock i fd rounds s1 = Some (Inr s') \<and> server_ok s' \<and> idle s' \<and> client_at s' i fd c' \<and>
      srv_store s' = data \<and> ticks s' = ticks s1 + length ws \<and>
      replies (io_threads s' ! i) fd = replies (io_threads s1 ! i) fd @ concat (map Serialize rs2)"
    by (rule Cons.IH [OF s1(2-4)]) (use Cons.prems(4,5) p d(2) s1(5-7) in \<open>simp_all\<close>)
  then obtain s' c' where "serve clock i fd rounds s1 = Some (Inr s')" "server_ok s'" "idle s'" "client_at s' i fd c'"
    "srv_store s' = data" "ticks s' = ticks s1 + length ws"
    "replies (io_threads s' ! i) fd = replies (io_threads s1 ! i) fd @ concat (map Serialize rs2)" by blast
  with s1(1,7,8) d(3) p(1) show ?case
    by (intro exI [of _ s'] exI [of _ c']) (simp add: rnd then_do_def)
qed

text \<open>A client whose socket takes all waiting bytes has got all its replies.\<close>

lemma IoHandle_delivers:
  assumes "server_ok s" and "client_at s i fd c" and "takes (length (out_buffer c)) sends"
  shows "\<exists>s'. IoHandle i (ClientEvent fd None (Some sends)) s = Some (Inr s') \<and> wire (io_threads s' ! i) fd = replies (io_threads s ! i) fd"
proof -
  have i: "i < length (io_threads s)" and c: "connections (get_thread i s) fd = Some c"
    using assms(2) by (simp_all add: client_at_def get_thread_def)
  have "io_invar (get_thread i s)" using get_thread_ok(1) [OF assms(1) i] by (simp add: thread_ok_def)
  from HandleEvent_delivers [OF this c assms(3)] obtain t where
    t: "HandleEvent (ClientEvent fd None (Some sends)) (get_thread i s) = Some (Inr t)" "wire t fd = replies (get_thread i s) fd"
    by blast
  then show ?thesis using thread_set_thread(5) [OF i, of t] by (simp add: IoHandle_def get_thread_def)
qed

section \<open>A run that connects a client\<close>

lemma connected_server:
  "\<exists>s. server_reachable clock s \<and> idle s \<and> client_at s 0 fd (Connection_new fd) \<and> srv_store s = [] \<and> ticks s = 0 \<and>
     io_threads s \<noteq> [] \<and> length (io_threads s) = 1 \<and> listen_fd s = 3 \<and> command_fd s = 4 \<and> replies (io_threads s ! 0) fd = []"
  if "0 \<le> fd"
proof -
  let ?new = "Server_new 1 True 3 4 (-1)"
  let ?s0 = "?new\<lparr>srv_store := [], io_threads := map Start (io_threads ?new)\<rparr>"
  have "Server_Start True (\<lambda>_. True) [] ?new = Some ?s0"
    by (simp add: Server_Start_def Restore_def LatestSnapshot_def Server_new_def)
  then have r0: "server_reachable clock ?s0" by (rule server_reachable.started)
  have ok0: "server_ok ?s0" using server_reachable_ok [OF r0] by simp
  have io0: "io_threads ?s0 = [Start (IoThread_new EventFd_new)]" by (simp add: Server_new_def NumIoThreads_def)
  let ?s0' = "?s0\<lparr>next_thread := 0, fd_to_thread := [fd \<mapsto> 0]\<rparr>"
  let ?t0 = "get_thread 0 ?s0'"
  have "io_invar (IoThread_new EventFd_new)" by (rule IoThread_new_invar) simp
  from set_inbox_event_invar(2) [OF set_inbox_event_invar(3) [OF this, of True], of EventFd_new]
  have t0: "io_invar ?t0" "inbox_msgs ?t0 = []" "outbox_msgs ?t0 = []" "connections ?t0 fd = None"
    by (simp_all add: get_thread_def Server_new_def NumIoThreads_def Start_def IoThread_new_def Spsc_new_correct)
  obtain t1 t2 where t: "PostAssign fd ?t0 = Inr t1" "HandleEvent (InboxEvent []) t1 = Some (Inr t2)"
    "connections t2 fd = Some (Connection_new fd)" "replies t2 fd = []" "inbox_msgs t2 = []" "outbox t2 = outbox ?t0"
    using assign_drain [OF t0(1,2,4)] by blast
  let ?s1 = "set_thread 0 t1 ?s0'"
  have "AcceptConnections [fd] ?s0 = Inr ?s1"
    using that t(1) by (simp add: AssignToIoThread_def with_thread_def Server_new_def NumIoThreads_def)
  then have "HandleMainEvent clock \<lparr>accepted_fds = [fd], timer_size = 0, fork_pid = None, child_pidfd = None\<rparr> 3 ?s0 = Some (Inr ?s1)"
    by (simp add: HandleMainEvent_def Server_new_def)
  then have r1: "server_reachable clock ?s1" by (blast intro: server_reachable.stepped [OF r0] sys_main)
  have len: "0 < length (io_threads ?s0')" by (simp add: Server_new_def NumIoThreads_def)
  let ?s2 = "set_thread 0 t2 ?s1"
  have "IoHandle 0 (InboxEvent []) ?s1 = Some (Inr ?s2)"
    using t(2) get_set_thread [OF len, of t1] by (simp add: IoHandle_def)
  moreover have len1: "0 < length (io_threads ?s1)" using len by (simp add: set_thread_def)
  ultimately have r2: "server_reachable clock ?s2" by (blast intro: server_reachable.stepped [OF r1] sys_io)
  have one: "length (io_threads ?s2) = 1" by (simp add: set_thread_def Server_new_def NumIoThreads_def)
  have "idle ?s2"
    using one t(5,6) t0(3) thread_set_thread(1,2) [OF len1, of t2] by (auto simp: idle_def all_set_conv_all_nth)
  moreover have "client_at ?s2 0 fd (Connection_new fd)"
    using one t(3) thread_set_thread(3) [OF len1, of t2] by (simp add: client_at_def set_thread_def)
  moreover have "replies (io_threads ?s2 ! 0) fd = []" using t(4) thread_set_thread(4) [OF len1, of t2] by simp
  ultimately show ?thesis using r2 one by (intro exI [of _ ?s2]) (auto simp: set_thread_def Server_new_def)
qed

lemma client_closed:
  assumes s: "server_ok s" and idle: "idle s" and c: "client_at s i fd c"
  shows "\<exists>t. IoHandle i (ErrorEvent fd) s = Some (Inr (set_thread i t s)) \<and> thread_ok t \<and>
    inbox_msgs t = [] \<and> outbox_msgs t = [Disconnect fd]"
proof -
  have i: "i < length (io_threads s)" using c by (simp add: client_at_def)
  note g = get_thread_ok [OF s i]
  have t: "io_invar (get_thread i s)" using g(1) by (simp add: thread_ok_def)
  have c': "connections (get_thread i s) fd = Some c" using c by (simp add: client_at_def get_thread_def)
  have empty: "outbox_msgs (get_thread i s) = []" "inbox_msgs (get_thread i s) = []"
    using idle_outboxes [OF idle i] g(2) by (simp_all add: get_thread_def)
  let ?t = "(get_thread i s)\<lparr>interest := (interest (get_thread i s))(fd := None), connections := (connections (get_thread i s))(fd := None)\<rparr>"
  have q: "io_queues ?t" using io_invarD(1) [OF t] by (simp add: io_queues_def)
  have room: "length (outbox_msgs ?t) < kQueueCapacity" using empty by (simp add: kQueueCapacity_def)
  obtain t1 where e: "Emit (Disconnect fd) ?t = Inr t1" using Emit_spec(1) [OF q room] by blast
  then have cl: "CloseConnection fd True (get_thread i s) = Inr t1" using c' by (simp add: CloseConnection_def)
  have h: "HandleEvent (ErrorEvent fd) (get_thread i s) = Some (Inr t1)" using cl by (simp add: HandleEvent_def)
  have "io_invar t1" using CloseConnection_progress [OF t cl] by (simp add: progress_def)
  moreover have "outbox_msgs t1 = [Disconnect fd]" "inbox_msgs t1 = []"
    using Emit_spec(2) [OF q e] empty by (auto simp: get_thread_def)
  ultimately show ?thesis using h by (intro exI [of _ t1]) (simp add: IoHandle_def thread_ok_def)
qed

lemma AcceptConnections_room:
  assumes "server_ok s" and "0 \<le> fd" and "inbox_msgs (io_threads s ! next_thread s) = []"
  shows "\<exists>s1. AcceptConnections [fd] s = Inr s1"
proof -
  let ?s = "s\<lparr>next_thread := (next_thread s + 1) mod length (io_threads s), fd_to_thread := (fd_to_thread s)(fd \<mapsto> next_thread s)\<rparr>"
  have i: "next_thread s < length (io_threads s)" using assms(1) by (simp add: server_ok_def)
  have t: "io_queues (get_thread (next_thread s) s)"
    using get_thread_ok(1) [OF assms(1) i] by (simp add: thread_ok_def io_invar_def)
  have g: "get_thread (next_thread s) ?s = get_thread (next_thread s) s" by (simp add: get_thread_def)
  have "length (inbox_msgs (get_thread (next_thread s) s)) < kQueueCapacity"
    using assms(3) by (simp add: get_thread_def kQueueCapacity_def)
  then obtain t1 where "PostAssign fd (get_thread (next_thread s) s) = Inr t1"
    using PostMsg_spec(2) [OF t] unfolding PostAssign_def by blast
  with g assms(2) show ?thesis by (simp add: AssignToIoThread_def with_thread_def Let_def)
qed

lemma disconnecting_server:
  assumes "0 \<le> fd"
  shows "\<exists>s s1. server_reachable clock s \<and> length (io_threads s) = 1 \<and> outboxes s ! 0 = [Disconnect fd] \<and> AcceptConnections [fd] s = Inr s1"
proof -
  obtain s where s: "server_reachable clock s" "idle s" "client_at s 0 fd (Connection_new fd)" "length (io_threads s) = 1"
    using connected_server [OF assms, of clock] by blast
  have ok: "server_ok s" using server_reachable_ok [OF s(1)] by simp
  obtain t where t: "IoHandle 0 (ErrorEvent fd) s = Some (Inr (set_thread 0 t s))" "thread_ok t"
    "inbox_msgs t = []" "outbox_msgs t = [Disconnect fd]" using client_closed [OF ok s(2,3)] by blast
  let ?s = "set_thread 0 t s"
  have len: "0 < length (io_threads s)" using s(4) by simp
  have r: "server_reachable clock ?s" using t(1) len by (blast intro: server_reachable.stepped [OF s(1)] sys_io)
  have ok': "server_ok ?s" using server_reachable_ok [OF r] by simp
  have one: "length (io_threads ?s) = 1" using s(4) by (simp add: set_thread_def)
  then have "next_thread ?s = 0" using ok' by (simp add: server_ok_def)
  then have "\<exists>s1. AcceptConnections [fd] ?s = Inr s1"
    using AcceptConnections_room [OF ok' assms] t(3) thread_set_thread(1) [OF len, of t] by simp
  moreover have "outboxes ?s ! 0 = [Disconnect fd]" using one t(4) thread_set_thread(2) [OF len, of t] by simp
  ultimately show ?thesis using r one by blast
qed

lemma Server_Loop_reachable:
  "server_reachable clock s \<Longrightarrow> Server_Loop clock waits s \<noteq> None \<and>
     (\<forall>b s'. Server_Loop clock waits s = Some (Inr (b, s')) \<longrightarrow> server_reachable clock s')"
proof (induction clock waits s rule: Server_Loop.induct)
  case (4 clock evs ws s)
  have events: "HandleMainEvents clock evs s \<noteq> None \<and>
      (\<forall>s'. HandleMainEvents clock evs s = Some (Inr s') \<longrightarrow> server_reachable clock s')" if "server_reachable clock s" for evs s
    using that
  proof (induction clock evs s rule: HandleMainEvents.induct)
    case (2 clock calls fd evs s)
    have "HandleMainEvent clock calls fd s \<noteq> None"
      using HandleMainEvent_total [of s clock calls fd] server_reachable_ok [OF 2(2)] by blast
    then obtain r where r: "HandleMainEvent clock calls fd s = Some r" by auto
    show ?case
    proof (cases r)
      case (Inr s1)
      with r have "server_reachable clock s1" by (blast intro: server_reachable.stepped [OF 2(2)] sys_main)
      with 2(1) [OF r Inr] r Inr show ?thesis by simp
    qed (use r in simp)
  qed simp
  obtain r where r: "HandleMainEvents clock evs s = Some r" "\<And>s1. r = Inr s1 \<Longrightarrow> server_reachable clock s1"
    using events [OF 4(2), of evs] by auto
  show ?case
  proof (cases r)
    case (Inr s1)
    with 4(1) [OF r(1) Inr r(2) [OF Inr]] r(1) show ?thesis by simp
  qed (use r(1) in simp)
qed simp_all

section \<open>Setting up and shutting down\<close>

lemma CreateListenSocket_closes:
  assumes "CreateListenSocket port sock bind_ok listen_ok = (fd, calls)"
  shows "(0 \<le> fd \<longrightarrow> fd = sock \<and> CloseFd sock \<notin> set calls \<and> last calls = Listen sock 16 \<and> SetNonBlock sock \<in> set calls)
    \<and> (fd < 0 \<longrightarrow> fd = -1 \<and> (0 \<le> sock \<longrightarrow> last calls = CloseFd sock))"
  using assms by (auto simp: CreateListenSocket_def kConnectionBacklog_def Let_def split: if_splits)

lemma Server_destroy_ends:
  assumes "t \<in> set (io_threads (Server_destroy s))"
  shows "Run_io waits t = Some (Inr t)" and "t = Stop t' \<Longrightarrow> ev_valid (inbox_event t') \<Longrightarrow> ev_readable (inbox_event t)"
proof -
  show "Run_io waits t = Some (Inr t)"
    using assms by (cases waits rule: list.exhaust) (auto simp: Server_destroy_def Stop_def)
  show "ev_readable (inbox_event t)" if "t = Stop t'" "ev_valid (inbox_event t')"
    using that Notify_readable [of "inbox_event t'"] by (simp add: Stop_def)
qed

section \<open>The snapshot timer\<close>

lemma ConvertMills_exact:
  assumes "0 \<le> mills" and "ConvertMills mills = (seconds, nanoseconds)"
  shows "seconds * 1000000000 + nanoseconds = mills * 1000000 \<and> 0 \<le> nanoseconds \<and> nanoseconds < 1000000000"
proof -
  have "seconds = mills div 1000" "nanoseconds = mills mod 1000 * 1000000"
    using assms by (auto simp: ConvertMills_def millisecondsInSecond_def nanosecondsInMillisecond_def
      signed_divide_int_def signed_modulo_int_def sgn_if split: if_splits)
  moreover have "mills = mills div 1000 * 1000 + mills mod 1000" "mills mod 1000 < 1000" "0 \<le> mills mod 1000" by auto
  ultimately show ?thesis by linarith
qed

text \<open>
  With the interval 0, which the documentation gives for no snapshots, the server watches
  descriptor 0, the standard input: what is typed there is taken for the timer.
\<close>

lemma zero_interval_watches_stdin:
  assumes "0 < listen" and "0 < command" and "CreateTimerIntervalFd 0 timerfd settime_ok = Some (fd, spec)"
    and "s = Server_new hardware True listen command fd"
  shows "0 \<in> set (watched s) \<and> spec = None \<and>
    (timer_size calls \<noteq> 8 \<longrightarrow> HandleMainEvent clock calls 0 s = Some (Inl AssertFailed)) \<and>
    (timer_size calls = 8 \<longrightarrow> HandleMainEvent clock calls 0 s = Some (Inr (CreateSnapshot (fork_pid calls) (child_pidfd calls) s)))"
  using assms by (auto simp: CreateTimerIntervalFd_def Server_new_def HandleMainEvent_def)

section \<open>Dealing out the clients\<close>

lemma AssignToIoThread_route:
  "AssignToIoThread fd s = Inr s' \<Longrightarrow> fd_to_thread s' = (fd_to_thread s)(fd \<mapsto> next_thread s) \<and>
     next_thread s' = (next_thread s + 1) mod length (io_threads s) \<and> length (io_threads s') = length (io_threads s)"
  by (auto simp: AssignToIoThread_def with_thread_def bindE_eq_Inr set_thread_def Let_def)

lemma AcceptConnections_route:
  "list_all (\<lambda>fd. 0 \<le> fd) fds \<Longrightarrow> distinct fds \<Longrightarrow> next_thread s < length (io_threads s) \<Longrightarrow> AcceptConnections fds s = Inr s' \<Longrightarrow>
     (\<forall>k < length fds. fd_to_thread s' (fds ! k) = Some ((next_thread s + k) mod length (io_threads s))) \<and>
     (\<forall>fd. fd \<notin> set fds \<longrightarrow> fd_to_thread s' fd = fd_to_thread s fd)"
proof (induction fds arbitrary: s)
  case (Cons fd fds)
  then obtain s1 where a: "AssignToIoThread fd s = Inr s1" "AcceptConnections fds s1 = Inr s'" by (auto simp: bindE_eq_Inr)
  note r = AssignToIoThread_route [OF a(1)]
  have "next_thread s1 < length (io_threads s1)" using r Cons.prems(3) by (metis gr_zeroI mod_less_divisor not_less0)
  from Cons.IH [OF _ _ this a(2)] Cons.prems(1,2) have IH:
    "\<And>k. k < length fds \<Longrightarrow> fd_to_thread s' (fds ! k) = Some ((next_thread s1 + k) mod length (io_threads s1))"
    "\<And>f. f \<notin> set fds \<Longrightarrow> fd_to_thread s' f = fd_to_thread s1 f" by auto
  have "fd_to_thread s' ((fd # fds) ! k) = Some ((next_thread s + k) mod length (io_threads s))" if "k < length (fd # fds)" for k
  proof (cases k)
    case 0
    with IH(2) [of fd] Cons.prems(2,3) r show ?thesis by simp
  next
    case (Suc j)
    with IH(1) [of j] that r show ?thesis by (simp add: mod_simps)
  qed
  with IH(2) r show ?case by simp
qed simp

section \<open>Properties\<close>



text \<open>
  \<^bold>\<open>C2\<close>. A client of an idle server gets the answers to its requests, in order. However the
  network cuts the stream of its requests into pieces and however many rounds of reading,
  executing and writing that takes, the store ends as if the requests had been executed one
  after the other, and what the client got together with what still waits in its buffer is
  what it had before and the serialised replies.
\<close>

theorem server_answers_client:
  assumes "server_reachable clock s" and "idle s" and "client_at s i fd c" and "parse_queue c = empty_queue"
    and "list_all round_ok rounds" and "list_all wf_resp reqs"
    and "concat (concat (map fst rounds)) = concat (map Serialize reqs)"
    and "DispatchAll (timed clock (ticks s) reqs) (srv_store s) = Inr (rs, data)"
  shows "\<exists>s' c'. serve clock i fd rounds s = Some (Inr s') \<and> client_at s' i fd c' \<and> srv_store s' = data
    \<and> wire (io_threads s' ! i) fd @ out_buffer c' = replies (io_threads s ! i) fd @ concat (map Serialize rs)"
proof -
  have ok: "server_ok s" using server_reachable_ok [OF assms(1)] by simp
  have q: "rvq_values (parse_queue c) = []" "rvq_buffer (parse_queue c) = []" using assms(4) by (simp_all add: empty_queue_def)
  have "FromString (rvq_buffer (parse_queue c)) = Inl (out_of_range ''Unexpected end of input while parsing RESP value'')"
    using q(2) by (simp add: FromString_def ParseVariant.simps)
  from serve_ok [OF ok assms(2,3,5,6) q(1) this _ assms(8)] q(2) assms(7) obtain s' c' where
    s': "serve clock i fd rounds s = Some (Inr s')" "server_ok s'" "client_at s' i fd c'" "srv_store s' = data"
      "replies (io_threads s' ! i) fd = replies (io_threads s ! i) fd @ concat (map Serialize rs)" by auto
  have "thread_ok (io_threads s' ! i)" using s'(2,3) by (simp add: server_ok_def client_at_def)
  then have "wire (io_threads s' ! i) fd @ out_buffer c' = replies (io_threads s' ! i) fd"
    using io_invarD(2) s'(3) by (metis thread_ok_def client_at_def)
  with s' show ?thesis by auto
qed

theorem server_answers_client_witness:
  "\<exists>s s' c'. server_reachable (\<lambda>_. 0) s \<and>
     serve (\<lambda>_. 0) 0 7 [([''*1'' @ CRLF @ ''$4'' @ CRLF], []), ([''PI'', ''NG'' @ CRLF], [Sent 3])] s = Some (Inr s') \<and>
     client_at s' 0 7 c' \<and> wire (io_threads s' ! 0) 7 @ out_buffer c' = ''+PONG'' @ CRLF"
proof -
  let ?rounds = "[([''*1'' @ CRLF @ ''$4'' @ CRLF], []), ([''PI'', ''NG'' @ CRLF], [Sent 3])]"
  let ?reqs = "[command_request ''PING'' []]"
  obtain s where s: "server_reachable (\<lambda>_. 0) s" "idle s" "client_at s 0 7 (Connection_new 7)" "srv_store s = []" "ticks s = 0"
    "replies (io_threads s ! 0) 7 = []"
    using connected_server [of 7 "\<lambda>_. 0"] by auto
  have q: "parse_queue (Connection_new 7) = empty_queue" by (simp add: Connection_new_def)
  have r: "list_all round_ok ?rounds" by (simp add: round_ok_def harmless_def)
  have wf: "list_all wf_resp ?reqs" by (simp add: command_request_def small_value_def int64_defs)
  have c: "concat (concat (map fst ?rounds)) = concat (map Serialize ?reqs)"
    by (simp add: command_request_def dec_string.simps digit_char_def)
  have d: "DispatchAll (timed (\<lambda>_. 0) (ticks s) ?reqs) (srv_store s) = Inr ([SimpleString ''PONG''], [])"
    by (simp add: s(4) timed_Cons timed_def Dispatch_ECHO_PING)
  from server_answers_client [OF s(1-3) q r wf c d] obtain s' c' where "serve (\<lambda>_. 0) 0 7 ?rounds s = Some (Inr s')" "client_at s' 0 7 c'"
    "wire (io_threads s' ! 0) 7 @ out_buffer c' = replies (io_threads s ! 0) 7 @ concat (map Serialize [SimpleString ''PONG''])"
    by blast
  with s(1,6) show ?thesis by (intro exI [of _ s] exI [of _ s'] exI [of _ c']) (simp add: SimpleString_def)
qed

text \<open>
  \<^bold>\<open>C30\<close>. A client can lose its replies when its descriptor is reused. If a thread has closed a
  client and the kernel gives the same descriptor to a new client before the main thread has seen
  the \<open>Disconnect\<close>, the \<open>Disconnect\<close> removes the route of the new client: its requests are still
  executed, but no reply is ever handed to its thread.
\<close>

theorem server_fd_reuse_loses_route:
  assumes "server_reachable clock s" and "i < length (io_threads s)" and "outboxes s ! i = [Disconnect fd]"
    and "\<forall>j < length (io_threads s). j \<noteq> i \<longrightarrow> outboxes s ! j = []" and "0 \<le> fd" and "AcceptConnections [fd] s = Inr s1"
  shows "fd_to_thread s1 fd = Some (next_thread s)
    \<and> (\<exists>s2. ProcessCommands clock s1 = Some (Inr s2) \<and> fd_to_thread s2 fd = None
        \<and> (\<forall>vs s3. ExecuteAndRespond clock fd vs s2 = Inr s3 \<longrightarrow> io_threads s3 = io_threads s2 \<and> fd_to_thread s3 fd = None))"
proof -
  have ok: "server_ok s" using server_reachable_ok [OF assms(1)] by simp
  have route: "fd_to_thread s1 fd = Some (next_thread s)" "length (io_threads s1) = length (io_threads s)"
    using assms(5,6) AssignToIoThread_route [of fd s] by (auto simp: bindE_eq_Inr)
  have s1: "server_ok s1" "outboxes s1 = outboxes s" using AcceptConnections_ok [OF ok assms(6)] by auto
  have i: "i < length (io_threads s1)" "outboxes s1 ! i = [Disconnect fd]"
    "\<forall>j < length (io_threads s1). j \<noteq> i \<longrightarrow> outboxes s1 ! j = []"
    using assms(2-4) route(2) s1(2) by simp_all
  let ?s' = "\<lambda>q. s1\<lparr>io_threads := (io_threads s1)[i := (io_threads s1 ! i)\<lparr>outbox := q\<rparr>]\<rparr>"
  obtain q where q: "server_ok (?s' q)" "ProcessCommands clock s1 = Some (HandleOutboxMsg clock (Disconnect fd) (?s' q))"
    using ProcessCommands_single [OF s1(1) i] by blast
  let ?s2 = "(?s' q)\<lparr>fd_to_thread := (fd_to_thread s1)(fd := None)\<rparr>"
  have s2: "ProcessCommands clock s1 = Some (Inr ?s2)" "fd_to_thread ?s2 fd = None" using q(2) by simp_all
  have ok2: "server_ok ?s2" using HandleOutboxMsg_ok [OF q(1), of clock "Disconnect fd" ?s2] by simp
  have "io_threads s3 = io_threads ?s2 \<and> fd_to_thread s3 fd = None" if r: "ExecuteAndRespond clock fd vs ?s2 = Inr s3" for vs s3
  proof -
    obtain bytes s' where e: "ExecuteAll clock vs [] ?s2 = Inr (bytes, s')"
      and k: "(case fd_to_thread s' fd of None \<Rightarrow> Inr s' | Some i \<Rightarrow> with_thread i (PostResponse fd bytes) s') = Inr s3"
      using r by (auto simp: ExecuteAndRespond_def bindE_eq_Inr)
    have "fd_to_thread s' = fd_to_thread ?s2" "io_threads s' = io_threads ?s2" using ExecuteAll_ok [OF ok2 e] by auto
    with k s2(2) show ?thesis by simp
  qed
  with route(1) s2 show ?thesis by blast
qed

theorem server_fd_reuse_loses_route_witness:
  "\<exists>s s1 s2. server_reachable (\<lambda>_. 0) s \<and> AcceptConnections [7] s = Inr s1 \<and> fd_to_thread s1 7 = Some (next_thread s) \<and>
     ProcessCommands (\<lambda>_. 0) s1 = Some (Inr s2) \<and> fd_to_thread s2 7 = None"
proof -
  obtain s s1 where s: "server_reachable (\<lambda>_. 0) s" "length (io_threads s) = 1" "outboxes s ! 0 = [Disconnect 7]"
    "AcceptConnections [7] s = Inr s1" using disconnecting_server [of 7 "\<lambda>_. 0"] by auto
  have "0 < length (io_threads s)" "\<forall>j < length (io_threads s). j \<noteq> 0 \<longrightarrow> outboxes s ! j = []" using s(2) by simp_all
  from server_fd_reuse_loses_route [OF s(1) this(1) s(3) this(2) _ s(4)] s(1,4) show ?thesis by auto
qed

end
