(* ===== verification/Striped_Hashmap.thy ===== *)
theory Striped_Hashmap
  imports Linked_List_Hashmap
begin

text \<open>
  \<open>StripedHashmap\<close> of \<open>v1/src/server/store/StripedHashmap.h\<close>, the map that the first version of the
  server shares between its worker threads: hashing with separate chaining, in which a key is
  protected by one of a fixed number of locks.

  The first part models the methods as they run when no other thread is active, and shows that
  they are those of \<open>LinkedListHashmap\<close>, so that the class satisfies the laws of \<open>Map<K, V>\<close>.
  The second part models threads whose calls interleave: between the moment a method walks the
  chain of a bucket and the moment it writes the bucket, every thread that does not need the same
  lock can run.
\<close>

record ('k, 'v) StripedHashmap =
  shm_hash :: "'k \<Rightarrow> nat"
  shm_size :: nat
  shm_entries :: "('k \<times> 'v) list list"
  shm_load_factor :: rat
  shm_locks :: nat

definition DEFAULT_LOAD_FACTOR :: rat where "DEFAULT_LOAD_FACTOR = 3 / 4"
definition DEFAULT_CAPACITY :: nat where "DEFAULT_CAPACITY = 16"

definition GetBucketIndex :: "('k, 'v) StripedHashmap \<Rightarrow> 'k \<Rightarrow> nat" where
  "GetBucketIndex m key = shm_hash m key mod length (shm_entries m)"

definition GetLockIndex :: "('k, 'v) StripedHashmap \<Rightarrow> 'k \<Rightarrow> nat" where
  "GetLockIndex m key = shm_hash m key mod shm_locks m"

text \<open>The walks along a chain are those of \<open>LinkedListHashmap\<close>.\<close>

definition StripedHashmap_InsertWithoutResize :: "'k \<Rightarrow> 'v \<Rightarrow> ('k, 'v) StripedHashmap \<Rightarrow> ('k, 'v) StripedHashmap" where
  "StripedHashmap_InsertWithoutResize key value m =
     (let bucket_index = GetBucketIndex m key;
          (chain, added) = InsertChain key value (shm_entries m ! bucket_index)
      in m\<lparr>shm_entries := (shm_entries m)[bucket_index := chain],
           shm_size := (if added then shm_size m + 1 else shm_size m)\<rparr>)"

definition StripedHashmap_Resize :: "('k, 'v) StripedHashmap \<Rightarrow> ('k, 'v) StripedHashmap" where
  "StripedHashmap_Resize m =
     (let flat_entries = concat (shm_entries m)
      in fold (\<lambda>(key, value). StripedHashmap_InsertWithoutResize key value) flat_entries
           (m\<lparr>shm_entries := replicate (max 2 (shm_size m * 2)) [], shm_size := 0\<rparr>))"

definition StripedHashmap_with_locks :: "rat \<Rightarrow> ('k \<Rightarrow> nat) \<Rightarrow> nat \<Rightarrow> ('k, 'v) StripedHashmap" where
  "StripedHashmap_with_locks load_factor hash num_locks =
     \<lparr>shm_hash = hash, shm_size = 0, shm_entries = replicate DEFAULT_CAPACITY [], shm_load_factor = load_factor,
      shm_locks = num_locks\<rparr>"

definition StripedHashmap_new :: "rat \<Rightarrow> ('k \<Rightarrow> nat) \<Rightarrow> ('k, 'v) StripedHashmap" where
  "StripedHashmap_new load_factor hash = StripedHashmap_with_locks load_factor hash DEFAULT_CAPACITY"

definition StripedHashmap_LookUp :: "('k, 'v) StripedHashmap \<Rightarrow> 'k \<Rightarrow> 'v option" where
  "StripedHashmap_LookUp m key =
     (if shm_entries m = [] then None else map_of (shm_entries m ! GetBucketIndex m key) key)"

text \<open>\<open>Insert\<close> looks whether the table is too full and, if so, doubles it.\<close>

definition too_full :: "('k, 'v) StripedHashmap \<Rightarrow> bool" where
  "too_full m \<longleftrightarrow> shm_entries m = [] \<or> of_nat (shm_size m) > of_nat (length (shm_entries m)) * shm_load_factor m"

definition StripedHashmap_Insert :: "'k \<Rightarrow> 'v \<Rightarrow> ('k, 'v) StripedHashmap \<Rightarrow> ('k, 'v) StripedHashmap" where
  "StripedHashmap_Insert key value m =
     StripedHashmap_InsertWithoutResize key value (if too_full m then StripedHashmap_Resize m else m)"

definition StripedHashmap_Remove :: "'k \<Rightarrow> ('k, 'v) StripedHashmap \<Rightarrow> ('k, 'v) StripedHashmap" where
  "StripedHashmap_Remove key m =
     (if shm_entries m = [] then m
      else let bucket_index = GetBucketIndex m key;
               (chain, removed) = RemoveChain key (shm_entries m ! bucket_index)
           in m\<lparr>shm_entries := (shm_entries m)[bucket_index := chain],
                shm_size := (if removed then shm_size m - 1 else shm_size m)\<rparr>)"

text \<open>A change of the object behind a pointer that \<open>LookUp\<close> returns.\<close>

definition StripedHashmap_Assign :: "('v \<Rightarrow> 'v) \<Rightarrow> 'k \<Rightarrow> ('k, 'v) StripedHashmap \<Rightarrow> ('k, 'v) StripedHashmap" where
  "StripedHashmap_Assign f key m =
     (if shm_entries m = [] then m
      else let bucket_index = GetBucketIndex m key
           in m\<lparr>shm_entries := (shm_entries m)[bucket_index := AList.map_entry key f (shm_entries m ! bucket_index)]\<rparr>)"

definition StripedHashmap_ForEach ::
    "('k \<Rightarrow> 'v \<Rightarrow> 's \<Rightarrow> 'v \<times> 's) \<Rightarrow> ('k, 'v) StripedHashmap \<Rightarrow> 's \<Rightarrow> ('k, 'v) StripedHashmap \<times> 's" where
  "StripedHashmap_ForEach action m s =
     (let (buckets, s') = ForEachBucket action (shm_entries m) s in (m\<lparr>shm_entries := buckets\<rparr>, s'))"

section \<open>The methods are those of \<open>LinkedListHashmap\<close>\<close>

definition shm_llh :: "('k, 'v) StripedHashmap \<Rightarrow> ('k, 'v) LinkedListHashmap" where
  "shm_llh m = \<lparr>llh_hash = shm_hash m, llh_size = shm_size m, llh_entries = shm_entries m, llh_load_factor = shm_load_factor m\<rparr>"

definition StripedHashmap_invar :: "('k, 'v) StripedHashmap \<Rightarrow> bool" where
  "StripedHashmap_invar m \<longleftrightarrow> LinkedListHashmap_invar (shm_llh m)"

lemma shm_llh_simps [simp]:
  "llh_hash (shm_llh m) = shm_hash m" "llh_size (shm_llh m) = shm_size m" "llh_entries (shm_llh m) = shm_entries m"
  "llh_load_factor (shm_llh m) = shm_load_factor m"
  by (simp_all add: shm_llh_def)

lemma shm_insert_llh: "shm_llh (StripedHashmap_InsertWithoutResize k v m) = InsertWithoutResize k v (shm_llh m)"
  by (simp add: StripedHashmap_InsertWithoutResize_def InsertWithoutResize_def GetBucketIndex_def shm_llh_def Let_def split_beta)

lemma shm_fold_llh:
  "shm_llh (fold (\<lambda>(k, v). StripedHashmap_InsertWithoutResize k v) es m) = fold (\<lambda>(k, v). InsertWithoutResize k v) es (shm_llh m)"
  by (induction es arbitrary: m) (auto simp: shm_insert_llh)

lemma shm_llh_refines:
  "shm_llh (StripedHashmap_Resize m) = Resize (shm_llh m)"
  "shm_llh (StripedHashmap_Insert k v m) = LinkedListHashmap_Insert k v (shm_llh m)"
  "shm_llh (StripedHashmap_Remove k m) = LinkedListHashmap_Remove k (shm_llh m)"
  "shm_llh (StripedHashmap_Assign f k m) = LinkedListHashmap_Assign f k (shm_llh m)"
  "StripedHashmap_LookUp m = LinkedListHashmap_LookUp (shm_llh m)"
  "map_prod shm_llh id (StripedHashmap_ForEach action m s) = LinkedListHashmap_ForEach action (shm_llh m) s"
proof -
  show r: "shm_llh (StripedHashmap_Resize m) = Resize (shm_llh m)" for m :: "('k, 'v) StripedHashmap"
    by (simp add: StripedHashmap_Resize_def Resize_def shm_fold_llh) (simp add: shm_llh_def)
  show "shm_llh (StripedHashmap_Insert k v m) = LinkedListHashmap_Insert k v (shm_llh m)"
    by (simp add: StripedHashmap_Insert_def LinkedListHashmap_Insert_def too_full_def shm_insert_llh r)
  show "shm_llh (StripedHashmap_Remove k m) = LinkedListHashmap_Remove k (shm_llh m)"
    "shm_llh (StripedHashmap_Assign f k m) = LinkedListHashmap_Assign f k (shm_llh m)"
    "map_prod shm_llh id (StripedHashmap_ForEach action m s) = LinkedListHashmap_ForEach action (shm_llh m) s"
    by (simp_all add: StripedHashmap_Remove_def LinkedListHashmap_Remove_def StripedHashmap_Assign_def
      LinkedListHashmap_Assign_def StripedHashmap_ForEach_def LinkedListHashmap_ForEach_def GetBucketIndex_def
      shm_llh_def Let_def split_beta)
  show "StripedHashmap_LookUp m = LinkedListHashmap_LookUp (shm_llh m)"
    by (rule ext) (simp add: StripedHashmap_LookUp_def LinkedListHashmap_LookUp_def GetBucketIndex_def)
qed

interpretation shm: dictionary StripedHashmap_invar StripedHashmap_LookUp StripedHashmap_Insert
  StripedHashmap_Assign "\<lambda>m. concat (shm_entries m)" StripedHashmap_ForEach StripedHashmap_Remove
proof
  fix m :: "('k, 'v) StripedHashmap" and action :: "'k \<Rightarrow> 'v \<Rightarrow> 's \<Rightarrow> 'v \<times> 's" and s
  assume "StripedHashmap_invar m"
  then have m: "LinkedListHashmap_invar (shm_llh m)" by (simp add: StripedHashmap_invar_def)
  have f: "LinkedListHashmap_ForEach action (shm_llh m) s = (shm_llh (fst (StripedHashmap_ForEach action m s)), snd (StripedHashmap_ForEach action m s))"
    using shm_llh_refines(6) [of action m s] by (metis apfst_conv apsnd_conv fst_map_prod id_apply prod.collapse snd_map_prod)
  from ForEach_correct(1) [OF m f] show "StripedHashmap_invar (fst (StripedHashmap_ForEach action m s))"
    by (simp add: StripedHashmap_invar_def)
  show "for_each action (concat (shm_entries m)) s = (concat (shm_entries m'), s')"
    if "StripedHashmap_ForEach action m s = (m', s')" for m' s'
    using ForEach_correct(2) [OF m f] that by simp
  show "distinct (map fst (concat (shm_entries m)))" using llh.entries_distinct [OF m] by simp
  show "map_of (concat (shm_entries m)) = StripedHashmap_LookUp m" using llh.entries_lookup [OF m] by (simp add: shm_llh_refines)
qed (simp_all add: StripedHashmap_invar_def shm_llh_refines Insert_correct Remove_correct Assign_correct)

section \<open>Interleaved calls\<close>

text \<open>
  A thread in a method has taken the lock of its key (\<open>Holding\<close>; the flag says that an \<open>Insert\<close> has
  looked at the load already), has walked the chain of the bucket and read \<open>size_\<close> (\<open>Walked\<close>), or has
  written both and still holds the lock (\<open>Finished\<close>). An \<open>Insert\<close> that finds the table too full
  gives up its lock (\<open>Resizing\<close>), takes all locks to resize, and then waits for its lock again
  (\<open>Waiting\<close>). \<open>size_\<close> is a plain \<open>size_t\<close>, which wraps around; reading it and writing it are two
  accesses, so increments under different locks can be lost.

  \<open>op_table\<close> is what a method writes: an \<open>Insert\<close> that finds its key writes the entry but not \<open>size_\<close>,
  a \<open>LookUp\<close> and a \<open>Remove\<close> that finds nothing write nothing. Threads with different locks can be in
  one bucket after a resize. \<open>clean_write\<close> says when the model describes a write after another
  thread has changed the bucket: when a new entry is linked behind the last entry of the chain as it
  was walked, which unlinks the entries that were appended since. Other overlapping writes to one
  bucket are data races with no defined outcome, and the relation has no step for them.

  \<open>LookUp\<close> returns a reference into the entry. The answer recorded is the value of the entry while
  the lock is held; what the caller reads through the reference afterwards, without the lock, is
  not part of the call.
\<close>

datatype ('k, 'v) stripe_call =
    Outside
  | Holding "('k, 'v) map_op" bool
  | Walked "('k, 'v) map_op" "('k \<times> 'v) list" nat
  | Finished "('k, 'v) map_op"
  | Resizing "('k, 'v) map_op"
  | Waiting "('k, 'v) map_op"

fun op_key :: "('k, 'v) map_op \<Rightarrow> 'k" where
  "op_key (LookUpOp k) = k"
| "op_key (InsertOp k v) = k"
| "op_key (RemoveOp k) = k"
| "op_key (AssignOp k v) = k"

fun is_insert :: "('k, 'v) map_op \<Rightarrow> bool" where
  "is_insert (InsertOp k v) = True"
| "is_insert _ = False"

fun is_call :: "('k, 'v) map_op \<Rightarrow> bool" where
  "is_call (AssignOp k v) = False"
| "is_call _ = True"

fun op_chain :: "('k, 'v) map_op \<Rightarrow> ('k \<times> 'v) list \<Rightarrow> ('k \<times> 'v) list" where
  "op_chain (InsertOp k v) chain = fst (InsertChain k v chain)"
| "op_chain (RemoveOp k) chain = fst (RemoveChain k chain)"
| "op_chain _ chain = chain"

definition put_chain :: "'k \<Rightarrow> ('k \<times> 'v) list \<Rightarrow> ('k, 'v) StripedHashmap \<Rightarrow> ('k, 'v) StripedHashmap" where
  "put_chain k chain m = m\<lparr>shm_entries := (shm_entries m)[GetBucketIndex m k := chain]\<rparr>"

fun op_table :: "('k, 'v) map_op \<Rightarrow> ('k \<times> 'v) list \<Rightarrow> nat \<Rightarrow> ('k, 'v) StripedHashmap \<Rightarrow> ('k, 'v) StripedHashmap" where
  "op_table (InsertOp k v) chain n m =
     (case InsertChain k v chain of
        (chain', True) \<Rightarrow> (put_chain k chain' m)\<lparr>shm_size := (n + 1) mod 2 ^ 64\<rparr>
      | (chain', False) \<Rightarrow> put_chain k chain' m)"
| "op_table (RemoveOp k) chain n m =
     (case RemoveChain k chain of
        (chain', True) \<Rightarrow> (put_chain k chain' m)\<lparr>shm_size := (n + (2 ^ 64 - 1)) mod 2 ^ 64\<rparr>
      | (_, False) \<Rightarrow> m)"
| "op_table _ chain n m = m"

fun clean_write :: "('k, 'v) map_op \<Rightarrow> ('k \<times> 'v) list \<Rightarrow> ('k \<times> 'v) list \<Rightarrow> bool" where
  "clean_write (InsertOp k v) chain current \<longleftrightarrow>
     current = chain \<or> snd (InsertChain k v chain) \<and> take (length chain) current = chain"
| "clean_write (RemoveOp k) chain current \<longleftrightarrow> current = chain \<or> \<not> snd (RemoveChain k chain)"
| "clean_write _ chain current \<longleftrightarrow> True"

fun op_answer :: "('k, 'v) map_op \<Rightarrow> ('k \<times> 'v) list \<Rightarrow> 'v option list" where
  "op_answer (LookUpOp k) chain = [map_of chain k]"
| "op_answer _ chain = []"

record ('k, 'v) stripe_sys =
  table :: "('k, 'v) StripedHashmap"
  owner :: "nat \<Rightarrow> nat option"
  stripe_calls :: "nat \<Rightarrow> ('k, 'v) stripe_call"
  hist :: "('k, 'v) map_op list"
  answers :: "'v option list"
  resized :: bool

definition stripe_init :: "('k, 'v) StripedHashmap \<Rightarrow> ('k, 'v) stripe_sys" where
  "stripe_init m = \<lparr>table = m, owner = (\<lambda>_. None), stripe_calls = (\<lambda>_. Outside), hist = [], answers = [], resized = False\<rparr>"

inductive stripe_step :: "('k, 'v) stripe_sys \<Rightarrow> ('k, 'v) stripe_sys \<Rightarrow> bool" where
  stripe_lock: "stripe_calls s t = Outside \<Longrightarrow> is_call op \<Longrightarrow> owner s (GetLockIndex (table s) (op_key op)) = None \<Longrightarrow>
    stripe_step s (s\<lparr>owner := (owner s)(GetLockIndex (table s) (op_key op) \<mapsto> t),
      stripe_calls := (stripe_calls s)(t := Holding op False)\<rparr>)"
| stripe_full: "stripe_calls s t = Holding op False \<Longrightarrow> is_insert op \<Longrightarrow> too_full (table s) \<Longrightarrow>
    stripe_step s (s\<lparr>owner := (owner s)(GetLockIndex (table s) (op_key op) := None),
      stripe_calls := (stripe_calls s)(t := Resizing op)\<rparr>)"
| stripe_resize: "stripe_calls s t = Resizing op \<Longrightarrow> \<forall>l. owner s l = None \<Longrightarrow>
    stripe_step s (s\<lparr>table := StripedHashmap_Resize (table s), stripe_calls := (stripe_calls s)(t := Waiting op), resized := True\<rparr>)"
| stripe_relock: "stripe_calls s t = Waiting op \<Longrightarrow> owner s (GetLockIndex (table s) (op_key op)) = None \<Longrightarrow>
    stripe_step s (s\<lparr>owner := (owner s)(GetLockIndex (table s) (op_key op) \<mapsto> t),
      stripe_calls := (stripe_calls s)(t := Holding op True)\<rparr>)"
| stripe_walk: "stripe_calls s t = Holding op checked \<Longrightarrow> checked \<or> \<not> is_insert op \<or> \<not> too_full (table s) \<Longrightarrow>
    stripe_step s (s\<lparr>stripe_calls := (stripe_calls s)
      (t := Walked op (shm_entries (table s) ! GetBucketIndex (table s) (op_key op)) (shm_size (table s)))\<rparr>)"
| stripe_write: "stripe_calls s t = Walked op chain n \<Longrightarrow>
    clean_write op chain (shm_entries (table s) ! GetBucketIndex (table s) (op_key op)) \<Longrightarrow>
    stripe_step s (s\<lparr>table := op_table op chain n (table s),
      stripe_calls := (stripe_calls s)(t := Finished op), hist := hist s @ [op], answers := answers s @ op_answer op chain\<rparr>)"
| stripe_unlock: "stripe_calls s t = Finished op \<Longrightarrow>
    stripe_step s (s\<lparr>owner := (owner s)(GetLockIndex (table s) (op_key op) := None),
      stripe_calls := (stripe_calls s)(t := Outside)\<rparr>)"

text \<open>The key whose lock a thread holds, if any.\<close>

fun held_key :: "('k, 'v) stripe_call \<Rightarrow> 'k option" where
  "held_key (Holding op checked) = Some (op_key op)"
| "held_key (Walked op chain n) = Some (op_key op)"
| "held_key (Finished op) = Some (op_key op)"
| "held_key _ = None"

text \<open>If the number of locks divides that of buckets, keys of one bucket have one lock.\<close>

lemma bucket_lock:
  assumes "shm_locks m dvd length (shm_entries m)" and "GetBucketIndex m k = GetBucketIndex m k'"
  shows "GetLockIndex m k = GetLockIndex m k'"
  using assms by (metis GetBucketIndex_def GetLockIndex_def mod_mod_cancel)

lemma run_ops_append:
  "run_ops lk ins rem asg (ops @ ops') m =
     (let (as, m1) = run_ops lk ins rem asg ops m; (bs, m2) = run_ops lk ins rem asg ops' m1 in (as @ bs, m2))"
  by (induction lk ins rem asg ops m rule: run_ops.induct) (auto split: prod.splits)

definition well_hashed :: "('k, 'v) StripedHashmap \<Rightarrow> bool" where
  "well_hashed m \<longleftrightarrow> hashed (shm_hash m) (shm_entries m) \<and> shm_entries m \<noteq> []"

lemma clean_write_same [simp]: "clean_write op chain chain"
  by (cases op) simp_all

lemma op_table_lock [simp]: "GetLockIndex (op_table op chain n m) k = GetLockIndex m k"
  by (cases op) (simp_all add: GetLockIndex_def put_chain_def split: prod.split bool.split)

lemma InsertChain_append: "map_of chain k = None \<Longrightarrow> InsertChain k v chain = (chain @ [(k, v)], True)"
  by (induction chain) auto

lemma RemoveChain_absent: "\<not> snd (RemoveChain k chain) \<Longrightarrow> fst (RemoveChain k chain) = chain"
  by (induction k chain rule: RemoveChain.induct) (auto split: prod.splits if_splits)

text \<open>When nobody has changed the bucket since, a write is the change of the chain.\<close>

lemma op_table_chain:
  assumes "chain = shm_entries m ! GetBucketIndex m (op_key op)"
  shows "\<exists>n'. op_table op chain n m = m\<lparr>shm_entries := (shm_entries m)[GetBucketIndex m (op_key op) := op_chain op chain], shm_size := n'\<rparr>"
proof -
  have same: "\<exists>n'. m = m\<lparr>shm_entries := (shm_entries m)[GetBucketIndex m (op_key op) := chain], shm_size := n'\<rparr>"
    by (rule exI [of _ "shm_size m"]) (simp add: assms)
  have put: "\<exists>n'. put_chain k c m = m\<lparr>shm_entries := (shm_entries m)[GetBucketIndex m k := c], shm_size := n'\<rparr>" for k c
    by (rule exI [of _ "shm_size m"]) (simp add: put_chain_def)
  show ?thesis
  proof (cases op)
    case (InsertOp k v)
    obtain c added where ic: "InsertChain k v chain = (c, added)" by (rule prod.exhaust)
    show ?thesis
    proof (cases added)
      case True
      with InsertOp ic show ?thesis by (auto simp: put_chain_def)
    next
      case False
      with InsertOp ic put [of k c] show ?thesis by simp
    qed
  next
    case (RemoveOp k)
    then show ?thesis
    proof (cases "snd (RemoveChain k chain)")
      case False
      then have "fst (RemoveChain k chain) = chain" by (simp add: RemoveChain_absent)
      with False have "RemoveChain k chain = (chain, False)" by (cases "RemoveChain k chain") simp
      with RemoveOp same show ?thesis by simp
    qed (cases "RemoveChain k chain"; auto simp: put_chain_def)
  qed (use same in auto)
qed

lemma write_chain:
  assumes m: "well_hashed m" and op: "is_call op" and c: "chain = shm_entries m ! GetBucketIndex m (op_key op)"
    and m': "m' = m\<lparr>shm_entries := (shm_entries m)[GetBucketIndex m (op_key op) := op_chain op chain], shm_size := n\<rparr>"
  shows "well_hashed m' \<and> run_spec [op] (StripedHashmap_LookUp m) = (op_answer op chain, StripedHashmap_LookUp m')"
proof -
  let ?l = "(shm_llh m)\<lparr>llh_size := length (concat (shm_entries m))\<rparr>"
  have l: "LinkedListHashmap_invar ?l" "llh_entries ?l \<noteq> []"
    using m by (simp_all add: LinkedListHashmap_invar_def well_hashed_def)
  have look: "StripedHashmap_LookUp m = LinkedListHashmap_LookUp ?l"
    by (rule ext) (simp add: StripedHashmap_LookUp_def LinkedListHashmap_LookUp_def GetBucketIndex_def)
  have same: "well_hashed m' \<and> StripedHashmap_LookUp m' = LinkedListHashmap_LookUp l'"
    if "LinkedListHashmap_invar l'" "llh_entries l' = shm_entries m'" "llh_hash l' = shm_hash m" for l'
    using that m m' by (auto simp: fun_eq_iff StripedHashmap_LookUp_def LinkedListHashmap_LookUp_def GetBucketIndex_def
      LinkedListHashmap_invar_def well_hashed_def)
  show ?thesis
  proof (cases op)
    case (LookUpOp k)
    have "m' = m\<lparr>shm_size := n\<rparr>" using m' c LookUpOp by simp
    with m have "well_hashed m'" "StripedHashmap_LookUp m' = StripedHashmap_LookUp m"
      by (auto simp: well_hashed_def StripedHashmap_LookUp_def GetBucketIndex_def fun_eq_iff)
    with c m LookUpOp show ?thesis by (simp add: StripedHashmap_LookUp_def well_hashed_def)
  next
    case (InsertOp k v)
    have "llh_entries (InsertWithoutResize k v ?l) = shm_entries m'" "llh_hash (InsertWithoutResize k v ?l) = shm_hash m"
      using InsertOp m' c by (simp_all add: InsertWithoutResize_def GetBucketIndex_def Let_def split_beta)
    with same [of "InsertWithoutResize k v ?l"] InsertWithoutResize_correct [OF l, of k v] look InsertOp show ?thesis
      by (simp add: spec_insert_def)
  next
    case (RemoveOp k)
    have "llh_entries (LinkedListHashmap_Remove k ?l) = shm_entries m'" "llh_hash (LinkedListHashmap_Remove k ?l) = shm_hash m"
      using RemoveOp m' c l(2) by (simp_all add: LinkedListHashmap_Remove_def GetBucketIndex_def Let_def split_beta)
    with same [of "LinkedListHashmap_Remove k ?l"] Remove_correct [OF l(1), of k] look RemoveOp show ?thesis
      by (simp add: spec_remove_def)
  qed (use op in simp)
qed

lemma index_table [simp]:
  "GetLockIndex (m\<lparr>shm_entries := es, shm_size := n\<rparr>) k = GetLockIndex m k"
  "length es = length (shm_entries m) \<Longrightarrow> GetBucketIndex (m\<lparr>shm_entries := es, shm_size := n\<rparr>) k = GetBucketIndex m k"
  by (simp_all add: GetLockIndex_def GetBucketIndex_def)

text \<open>
  As long as the table has not been resized, a thread that has walked a chain finds the bucket
  unchanged when it writes it.
\<close>

definition stripe_ok :: "('k, 'v) StripedHashmap \<Rightarrow> ('k, 'v) stripe_sys \<Rightarrow> bool" where
  "stripe_ok m s \<longleftrightarrow> well_hashed (table s) \<and> shm_locks (table s) dvd length (shm_entries (table s)) \<and>
     (\<forall>t k. held_key (stripe_calls s t) = Some k \<longrightarrow> owner s (GetLockIndex (table s) k) = Some t) \<and>
     (\<forall>t op checked. stripe_calls s t = Holding op checked \<longrightarrow> is_call op) \<and>
     (\<forall>t op. stripe_calls s t \<noteq> Waiting op) \<and>
     (\<forall>t op chain n. stripe_calls s t = Walked op chain n \<longrightarrow>
        is_call op \<and> chain = shm_entries (table s) ! GetBucketIndex (table s) (op_key op)) \<and>
     run_spec (hist s) (StripedHashmap_LookUp m) = (answers s, StripedHashmap_LookUp (table s))"

lemma stripe_okD:
  assumes "stripe_ok m s"
  shows "well_hashed (table s)" and "shm_locks (table s) dvd length (shm_entries (table s))"
    and "held_key (stripe_calls s t) = Some k \<Longrightarrow> owner s (GetLockIndex (table s) k) = Some t"
    and "stripe_calls s t = Holding op checked \<Longrightarrow> is_call op"
    and "stripe_calls s t \<noteq> Waiting op"
    and "stripe_calls s t = Walked op chain n \<Longrightarrow> is_call op"
    and "stripe_calls s t = Walked op chain n \<Longrightarrow> chain = shm_entries (table s) ! GetBucketIndex (table s) (op_key op)"
    and "run_spec (hist s) (StripedHashmap_LookUp m) = (answers s, StripedHashmap_LookUp (table s))"
  using assms unfolding stripe_ok_def by blast+

lemma stripe_init_ok:
  "well_hashed m \<Longrightarrow> shm_locks m dvd length (shm_entries m) \<Longrightarrow> stripe_ok m (stripe_init m)"
  by (simp add: stripe_ok_def stripe_init_def)

lemma stripe_write_ok:
  assumes ok: "stripe_ok m s" and c: "stripe_calls s t = Walked op chain n"
    and tab: "tab = (table s)\<lparr>shm_entries := (shm_entries (table s))[GetBucketIndex (table s) (op_key op) := op_chain op chain],
      shm_size := n'\<rparr>"
    and s': "s' = s\<lparr>table := tab, stripe_calls := (stripe_calls s)(t := Finished op), hist := hist s @ [op],
      answers := answers s @ op_answer op chain\<rparr>"
  shows "stripe_ok m s'"
proof -
  let ?m = "table s" and ?b = "GetBucketIndex (table s) (op_key op)"
  note D = stripe_okD [OF ok]
  note w = D(1) D(6) [OF c] D(7) [OF c]
  note wc = write_chain [OF w tab]
  have idx: "GetLockIndex tab k = GetLockIndex ?m k" "GetBucketIndex tab k = GetBucketIndex ?m k" for k by (simp_all add: tab)
  have own: "owner s (GetLockIndex ?m (op_key op)) = Some t" using D(3) [of t "op_key op"] c by simp
  have other: "chain' = shm_entries tab ! GetBucketIndex ?m (op_key op')"
    if t': "t' \<noteq> t" "stripe_calls s t' = Walked op' chain' n'" for t' op' chain' n'
  proof -
    have o: "owner s (GetLockIndex ?m (op_key op')) = Some t'" using D(3) [of t' "op_key op'"] t'(2) by simp
    have "GetLockIndex ?m (op_key op') \<noteq> GetLockIndex ?m (op_key op)" using o own t'(1) by auto
    then have "GetBucketIndex ?m (op_key op') \<noteq> ?b" using bucket_lock [OF D(2)] by blast
    with D(7) [OF t'(2)] show ?thesis by (simp add: tab)
  qed
  have "run_spec (hist s @ [op]) (StripedHashmap_LookUp m) = (answers s @ op_answer op chain, StripedHashmap_LookUp tab)"
    using D(8) wc by (simp add: run_ops_append)
  moreover have "shm_locks tab dvd length (shm_entries tab)" using D(2) by (simp add: tab)
  moreover have "owner s (GetLockIndex ?m k) = Some t'" if "held_key (((stripe_calls s)(t := Finished op)) t') = Some k" for t' k
    using that own D(3) [of t' k] by (auto split: if_splits)
  moreover have "is_call op'" if "((stripe_calls s)(t := Finished op)) t' = Holding op' checked" for t' op' checked
    using that D(4) by (auto split: if_splits)
  moreover have "is_call op' \<and> chain' = shm_entries tab ! GetBucketIndex ?m (op_key op')"
    if "((stripe_calls s)(t := Finished op)) t' = Walked op' chain' n'" for t' op' chain' n'
    using that D(6) other by (auto split: if_splits)
  ultimately show ?thesis using wc D(5) unfolding stripe_ok_def s' by (simp add: idx)
qed

lemma stripe_call_ok:
  assumes "stripe_ok m s" and "s' = s\<lparr>owner := own, stripe_calls := (stripe_calls s)(t := c)\<rparr>"
    and "\<And>t' k. t' \<noteq> t \<Longrightarrow> owner s (GetLockIndex (table s) k) = Some t' \<Longrightarrow> own (GetLockIndex (table s) k) = Some t'"
    and "\<And>k. held_key c = Some k \<Longrightarrow> own (GetLockIndex (table s) k) = Some t"
    and "\<And>op checked. c = Holding op checked \<Longrightarrow> is_call op" and "\<And>op. c \<noteq> Waiting op"
    and "\<And>op chain n. c = Walked op chain n \<Longrightarrow>
      is_call op \<and> chain = shm_entries (table s) ! GetBucketIndex (table s) (op_key op)"
  shows "stripe_ok m s'"
proof -
  note D = stripe_okD [OF assms(1)]
  have "own (GetLockIndex (table s) k) = Some t'" if "held_key (((stripe_calls s)(t := c)) t') = Some k" for t' k
    using that D(3) [of t' k] assms(3) [of t' k] assms(4) [of k] by (cases "t' = t") simp_all
  moreover have "is_call op" if "((stripe_calls s)(t := c)) t' = Holding op checked" for t' op checked
    using that D(4) [of t' op checked] assms(5) by (cases "t' = t") simp_all
  moreover have "((stripe_calls s)(t := c)) t' \<noteq> Waiting op" for t' op
    using D(5) [of t' op] assms(6) by (cases "t' = t") simp_all
  moreover have "is_call op \<and> chain = shm_entries (table s) ! GetBucketIndex (table s) (op_key op)"
    if "((stripe_calls s)(t := c)) t' = Walked op chain n" for t' op chain n
    using that D(6,7) [of t' op chain n] assms(7) [of op chain n] by (cases "t' = t") simp_all
  ultimately show ?thesis using D(1,2,8) unfolding stripe_ok_def assms(2) by simp
qed

lemma stripe_step_ok:
  assumes "stripe_step s s'" and "stripe_ok m s" and "\<not> resized s'"
  shows "stripe_ok m s'"
proof -
  note D = stripe_okD [OF assms(2)]
  show ?thesis using assms(1)
  proof cases
    case (stripe_lock t op)
    show ?thesis by (rule stripe_call_ok [OF assms(2) stripe_lock(1)]) (use stripe_lock(2-4) in \<open>auto split: if_splits\<close>)
  next
    case (stripe_full t op)
    have own: "owner s (GetLockIndex (table s) (op_key op)) = Some t" using D(3) [of t] stripe_full(2) by simp
    show ?thesis by (rule stripe_call_ok [OF assms(2) stripe_full(1)]) (use own in \<open>auto split: if_splits\<close>)
  next
    case (stripe_walk t op checked)
    let ?c = "Walked op (shm_entries (table s) ! GetBucketIndex (table s) (op_key op)) (shm_size (table s))"
    have s': "s' = s\<lparr>owner := owner s, stripe_calls := (stripe_calls s)(t := ?c)\<rparr>" using stripe_walk(1) by simp
    show ?thesis by (rule stripe_call_ok [OF assms(2) s']) (use D(3) [of t] D(4) stripe_walk(2) in auto)
  next
    case (stripe_write t op chain n)
    obtain n' where "op_table op chain n (table s) = (table s)
        \<lparr>shm_entries := (shm_entries (table s))[GetBucketIndex (table s) (op_key op) := op_chain op chain], shm_size := n'\<rparr>"
      using op_table_chain [OF D(7) [OF stripe_write(2)]] by blast
    from stripe_write_ok [OF assms(2) stripe_write(2) this] stripe_write(1) show ?thesis by blast
  next
    case (stripe_unlock t op)
    have own: "owner s (GetLockIndex (table s) (op_key op)) = Some t" using D(3) [of t] stripe_unlock(2) by simp
    show ?thesis by (rule stripe_call_ok [OF assms(2) stripe_unlock(1)]) (use own in \<open>auto split: if_splits\<close>)
  qed (use assms(3) D(5) in auto)
qed

lemma stripe_reachable_ok:
  assumes "well_hashed m" and "shm_locks m dvd length (shm_entries m)" and "stripe_step\<^sup>*\<^sup>* (stripe_init m) s" and "\<not> resized s"
  shows "stripe_ok m s"
  using assms(3,4)
proof (induction rule: rtranclp_induct)
  case base
  then show ?case using stripe_init_ok [OF assms(1,2)] by simp
next
  case (step s s')
  have "\<not> resized s" using step.hyps(2) step.prems by cases auto
  with step stripe_step_ok show ?case by blast
qed

lemma stripe_star: "stripe_step s s1 \<Longrightarrow> stripe_step\<^sup>*\<^sup>* s1 s2 \<Longrightarrow> stripe_step\<^sup>*\<^sup>* s s2"
  by (rule converse_rtranclp_into_rtranclp)

text \<open>Two inserts that walk the same chain under different locks.\<close>

lemma two_inserts:
  assumes m: "shm_entries m \<noteq> []" and room: "\<not> too_full m"
    and bucket: "GetBucketIndex m k = GetBucketIndex m k'" and locks: "GetLockIndex m k \<noteq> GetLockIndex m k'"
    and new: "StripedHashmap_LookUp m k = None" "StripedHashmap_LookUp m k' = None"
  defines "chain \<equiv> shm_entries m ! GetBucketIndex m k"
  shows "\<exists>s. stripe_step\<^sup>*\<^sup>* (stripe_init m) s \<and> stripe_calls s = (\<lambda>_. Outside) \<and> hist s = [InsertOp k v, InsertOp k' v'] \<and>
    table s = m\<lparr>shm_entries := (shm_entries m)[GetBucketIndex m k := chain @ [(k', v')]], shm_size := (shm_size m + 1) mod 2 ^ 64\<rparr>"
proof -
  let ?op = "InsertOp k v" and ?op' = "InsertOp k' v'" and ?l = "GetLockIndex m k" and ?l' = "GetLockIndex m k'"
  let ?b = "GetBucketIndex m k" and ?n = "shm_size m"
  let ?sys = "\<lambda>tab own calls h. \<lparr>table = tab, owner = own, stripe_calls = calls, hist = h, answers = [], resized = False\<rparr>"
  let ?m1 = "m\<lparr>shm_entries := (shm_entries m)[?b := chain @ [(k, v)]], shm_size := (?n + 1) mod 2 ^ 64\<rparr>"
  let ?m2 = "m\<lparr>shm_entries := (shm_entries m)[?b := chain @ [(k', v')]], shm_size := (?n + 1) mod 2 ^ 64\<rparr>"
  have "map_of chain k = None" "map_of chain k' = None" using m bucket new by (simp_all add: StripedHashmap_LookUp_def chain_def)
  then have app: "InsertChain k v chain = (chain @ [(k, v)], True)" "InsertChain k' v' chain = (chain @ [(k', v')], True)"
    by (simp_all add: InsertChain_append)
  have b: "?b < length (shm_entries m)" using m by (simp add: GetBucketIndex_def)
  let ?own = "[?l \<mapsto> 0, ?l' \<mapsto> 1]"
  let ?calls = "\<lambda>c c'. (\<lambda>_. Outside)(0 := c, 1 := c')"
  let ?W = "Walked ?op chain ?n" and ?W' = "Walked ?op' chain ?n"
  have s0: "stripe_init m = ?sys m (\<lambda>_. None) (?calls Outside Outside) []" by (auto simp: stripe_init_def)
  have 1: "stripe_step (?sys m (\<lambda>_. None) (?calls Outside Outside) []) (?sys m [?l \<mapsto> 0] (?calls (Holding ?op False) Outside) [])"
    using stripe_lock [of "?sys m (\<lambda>_. None) (?calls Outside Outside) []" 0 ?op] by (simp add: fun_upd_twist)
  have 2: "stripe_step (?sys m [?l \<mapsto> 0] (?calls (Holding ?op False) Outside) []) (?sys m ?own (?calls (Holding ?op False) (Holding ?op' False)) [])"
    using stripe_lock [of "?sys m [?l \<mapsto> 0] (?calls (Holding ?op False) Outside) []" 1 ?op'] locks by simp
  have 3: "stripe_step (?sys m ?own (?calls (Holding ?op False) (Holding ?op' False)) []) (?sys m ?own (?calls ?W (Holding ?op' False)) [])"
    using stripe_walk [of "?sys m ?own (?calls (Holding ?op False) (Holding ?op' False)) []" 0 ?op False] room
    by (simp add: chain_def fun_upd_twist)
  have 4: "stripe_step (?sys m ?own (?calls ?W (Holding ?op' False)) []) (?sys m ?own (?calls ?W ?W') [])"
    using stripe_walk [of "?sys m ?own (?calls ?W (Holding ?op' False)) []" 1 ?op' False] room bucket by (simp add: chain_def)
  have 5: "stripe_step (?sys m ?own (?calls ?W ?W') []) (?sys ?m1 ?own (?calls (Finished ?op) ?W') [?op])"
    using stripe_write [of "?sys m ?own (?calls ?W ?W') []" 0 ?op chain ?n]
    by (simp add: app put_chain_def chain_def [symmetric] fun_upd_twist)
  have 6: "stripe_step (?sys ?m1 ?own (?calls (Finished ?op) ?W') [?op]) (?sys ?m2 ?own (?calls (Finished ?op) (Finished ?op')) [?op, ?op'])"
    using stripe_write [of "?sys ?m1 ?own (?calls (Finished ?op) ?W') [?op]" 1 ?op' chain ?n] bucket b by (simp add: app put_chain_def)
  have 7: "stripe_step (?sys ?m2 ?own (?calls (Finished ?op) (Finished ?op')) [?op, ?op'])
      (?sys ?m2 (?own(?l := None)) (?calls Outside (Finished ?op')) [?op, ?op'])"
    using stripe_unlock [of "?sys ?m2 ?own (?calls (Finished ?op) (Finished ?op')) [?op, ?op']" 0 ?op] by (simp add: fun_upd_twist)
  have 8: "stripe_step (?sys ?m2 (?own(?l := None)) (?calls Outside (Finished ?op')) [?op, ?op'])
      (?sys ?m2 (?own(?l := None, ?l' := None)) (?calls Outside Outside) [?op, ?op'])"
    using stripe_unlock [of "?sys ?m2 (?own(?l := None)) (?calls Outside (Finished ?op')) [?op, ?op']" 1 ?op'] by simp
  have "stripe_step\<^sup>*\<^sup>* (stripe_init m) (?sys ?m2 (?own(?l := None, ?l' := None)) (?calls Outside Outside) [?op, ?op'])"
    unfolding s0
    by (rule stripe_star [OF 1 stripe_star [OF 2 stripe_star [OF 3 stripe_star [OF 4 stripe_star [OF 5
      stripe_star [OF 6 stripe_star [OF 7 stripe_star [OF 8 rtranclp.rtrancl_refl]]]]]]]])
  then show ?thesis by (intro exI) (auto simp: fun_eq_iff)
qed

lemma StripedHashmap_new_correct:
  "StripedHashmap_invar (StripedHashmap_new load_factor hash)"
  "StripedHashmap_LookUp (StripedHashmap_new load_factor hash) = Map.empty"
  "well_hashed (StripedHashmap_new load_factor hash)"
  "shm_locks (StripedHashmap_new load_factor hash) dvd length (shm_entries (StripedHashmap_new load_factor hash))"
  by (auto simp: StripedHashmap_new_def StripedHashmap_with_locks_def StripedHashmap_invar_def LinkedListHashmap_invar_def
    hashed_def well_hashed_def StripedHashmap_LookUp_def GetBucketIndex_def DEFAULT_CAPACITY_def fun_eq_iff)

text \<open>A table that \<open>Insert\<close> has resized has twice as many buckets as it had entries.\<close>

lemma StripedHashmap_Resize_buckets:
  "StripedHashmap_invar m \<Longrightarrow> length (shm_entries (StripedHashmap_Resize m)) = max 2 (2 * shm_size m)"
  using Resize_correct(4) [of "shm_llh m"] by (simp add: StripedHashmap_invar_def flip: shm_llh_refines(1))

text \<open>The table of the server after its first resize, at 13 entries.\<close>

definition resized_table :: "(nat, bool) StripedHashmap" where
  "resized_table = StripedHashmap_Resize
     (fold (\<lambda>k. StripedHashmap_Insert k False) [0..<13] (StripedHashmap_new DEFAULT_LOAD_FACTOR (\<lambda>k. k)))"

lemma resized_table_facts:
  "length (shm_entries resized_table) = 26" "\<not> too_full resized_table"
  "GetBucketIndex resized_table 13 = 13" "GetBucketIndex resized_table 39 = 13"
  "GetLockIndex resized_table 13 = 13" "GetLockIndex resized_table 39 = 7"
  "StripedHashmap_LookUp resized_table 13 = None" "StripedHashmap_LookUp resized_table 39 = None"
  by code_simp+

section \<open>Properties\<close>

text \<open>
  Whatever the hash function, a \<open>StripedHashmap\<close> that one thread uses answers every
  history of calls as the finite map of the specification does, and \<open>ForEach\<close> then visits exactly
  the bindings of that map, each key once.
\<close>

lemma striped_hashmap_refines:
  "let (as, m) = run_ops StripedHashmap_LookUp StripedHashmap_Insert StripedHashmap_Remove StripedHashmap_Assign ops
         (StripedHashmap_new load_factor hash);
       (spec_answers, spec) = run_spec ops Map.empty;
       visited = snd (StripedHashmap_ForEach (\<lambda>k v seen. (v, seen @ [(k, v)])) m [])
   in as = spec_answers \<and> StripedHashmap_LookUp m = spec \<and> distinct (map fst visited) \<and> map_of visited = spec"
proof -
  obtain as m where r: "run_ops StripedHashmap_LookUp StripedHashmap_Insert StripedHashmap_Remove StripedHashmap_Assign ops
      (StripedHashmap_new load_factor hash) = (as, m)" by (rule prod.exhaust)
  note h = shm.run_ops_refines [OF StripedHashmap_new_correct(1) r, unfolded StripedHashmap_new_correct(2)]
  let ?a = "\<lambda>k v seen. (v, seen @ [(k, v)])"
  obtain m' visited where f: "StripedHashmap_ForEach ?a m [] = (m', visited)" by (rule prod.exhaust)
  have "visited = concat (shm_entries m)"
    using shm.for_each_entries [OF conjunct1 [OF h] f] for_each_collect [of "concat (shm_entries m)" "[]"] by auto
  with h r f shm.entries_distinct [OF conjunct1 [OF h]] shm.entries_lookup [OF conjunct1 [OF h]] show ?thesis by simp
qed

text \<open>
  \<^bold>\<open>C36\<close>. In a table with buckets whose number of locks divides the number of buckets, as in a new
  table, and up to the first resize, the locks protect the chains: however the calls of any number
  of threads interleave, no two threads are ever at work on the same bucket, and what \<open>LookUp\<close> finds
  under its lock and what the calls make of the bindings is as if the calls had been made one after
  the other in the order in which they wrote their bucket. The statement is about the bindings, not
  about \<open>size_\<close>, and not about what a caller of \<open>LookUp\<close> reads later through the reference.
\<close>

theorem striped_hashmap_linearizable:
  assumes "StripedHashmap_invar m" and "shm_entries m \<noteq> []" and "shm_locks m dvd length (shm_entries m)"
    and "stripe_step\<^sup>*\<^sup>* (stripe_init m) s" and "\<not> resized s"
  shows "run_spec (hist s) (StripedHashmap_LookUp m) = (answers s, StripedHashmap_LookUp (table s))
    \<and> (\<forall>t t' k k'. t \<noteq> t' \<and> held_key (stripe_calls s t) = Some k \<and> held_key (stripe_calls s t') = Some k' \<longrightarrow>
        GetBucketIndex (table s) k \<noteq> GetBucketIndex (table s) k')"
proof -
  have w: "well_hashed m" using assms(1,2) by (simp add: StripedHashmap_invar_def LinkedListHashmap_invar_def well_hashed_def)
  note D = stripe_okD [OF stripe_reachable_ok [OF w assms(3-5)]]
  have "GetBucketIndex (table s) k \<noteq> GetBucketIndex (table s) k'"
    if "t \<noteq> t'" "held_key (stripe_calls s t) = Some k" "held_key (stripe_calls s t') = Some k'" for t t' k k'
    using that D(3) [of t k] D(3) [of t' k'] bucket_lock [OF D(2), of k k'] by auto
  with D(8) show ?thesis by blast
qed

theorem striped_hashmap_linearizable_witness:
  "\<exists>s. stripe_step\<^sup>*\<^sup>* (stripe_init (StripedHashmap_new DEFAULT_LOAD_FACTOR id)) s \<and> hist s = [InsertOp 5 True, LookUpOp 5]
     \<and> answers s = [Some True]"
proof -
  let ?m = "StripedHashmap_new DEFAULT_LOAD_FACTOR (id :: nat \<Rightarrow> nat)"
  let ?op = "InsertOp 5 True" and ?op' = "LookUpOp 5"
  define step where "step op s =
     (let c = shm_entries (table s) ! 5
      in s\<lparr>table := op_table op c (shm_size (table s)) (table s),
         hist := hist s @ [op], answers := answers s @ op_answer op c, owner := (owner s)(5 := None),
         stripe_calls := (stripe_calls s)(0 := Outside)\<rparr>)" for op and s :: "(nat, bool) stripe_sys"
  have run: "stripe_step\<^sup>*\<^sup>* s (step op s)"
    if "stripe_calls s 0 = Outside" "owner s 5 = None" "is_call op" "op_key op = 5" "\<not> too_full (table s)"
      "shm_locks (table s) = 16" "length (shm_entries (table s)) = 16" "shm_hash (table s) = id" for op s
  proof -
    have l: "GetLockIndex (table s) (op_key op) = 5" "GetBucketIndex (table s) (op_key op) = 5"
      using that by (simp_all add: GetLockIndex_def GetBucketIndex_def)
    let ?s1 = "s\<lparr>owner := (owner s)(5 \<mapsto> 0), stripe_calls := (stripe_calls s)(0 := Holding op False)\<rparr>"
    let ?c = "shm_entries (table s) ! 5"
    let ?s2 = "?s1\<lparr>stripe_calls := (stripe_calls ?s1)(0 := Walked op ?c (shm_size (table s)))\<rparr>"
    let ?s3 = "?s2\<lparr>table := op_table op ?c (shm_size (table s)) (table s),
      stripe_calls := (stripe_calls ?s2)(0 := Finished op), hist := hist s @ [op], answers := answers s @ op_answer op ?c\<rparr>"
    have 1: "stripe_step s ?s1" using stripe_lock [of s 0 op] that l by simp
    have 2: "stripe_step ?s1 ?s2" using stripe_walk [of ?s1 0 op False] that l by simp
    have 3: "stripe_step ?s2 ?s3" using stripe_write [of ?s2 0 op ?c "shm_size (table s)"] that l by simp
    have 4: "stripe_step ?s3 (step op s)" using stripe_unlock [of ?s3 0 op] that l by (simp add: step_def Let_def)
    show ?thesis by (rule stripe_star [OF 1 stripe_star [OF 2 stripe_star [OF 3 stripe_star [OF 4 rtranclp.rtrancl_refl]]]])
  qed
  let ?s = "step ?op' (step ?op (stripe_init ?m))"
  have r: "stripe_step\<^sup>*\<^sup>* (stripe_init ?m) ?s"
    by (rule rtranclp_trans [OF run run])
      (simp_all add: step_def stripe_init_def StripedHashmap_new_def StripedHashmap_with_locks_def too_full_def
        DEFAULT_LOAD_FACTOR_def DEFAULT_CAPACITY_def put_chain_def Let_def)
  have h: "hist ?s = [?op, ?op']" "\<not> resized ?s" by (simp_all add: step_def stripe_init_def Let_def)
  have ne: "shm_entries ?m \<noteq> []" by (simp add: StripedHashmap_new_def StripedHashmap_with_locks_def DEFAULT_CAPACITY_def)
  from striped_hashmap_linearizable [OF StripedHashmap_new_correct(1) ne StripedHashmap_new_correct(4) r h(2)]
  have "answers ?s = [Some True]" by (simp add: h(1) StripedHashmap_new_correct(2) spec_insert_def)
  with r h show ?thesis by blast
qed

text \<open>
  \<^bold>\<open>C37\<close>. Once the table has been resized, the locks no longer protect it. If two keys share a
  bucket but not a lock, two threads can insert them at the same time, both return, and one of
  the two entries is lost; \<open>size_\<close> counts one of them only. This happens in the server: the first
  resize of a table with 16 locks gives it 26 buckets.
\<close>

theorem striped_hashmap_lost_insert:
  assumes "shm_entries m \<noteq> []" and "\<not> too_full m" and "GetBucketIndex m k = GetBucketIndex m k'"
    and "GetLockIndex m k \<noteq> GetLockIndex m k'" and "StripedHashmap_LookUp m k = None" and "StripedHashmap_LookUp m k' = None"
  shows "\<exists>s. stripe_step\<^sup>*\<^sup>* (stripe_init m) s \<and> stripe_calls s = (\<lambda>_. Outside) \<and> hist s = [InsertOp k v, InsertOp k' v']
    \<and> StripedHashmap_LookUp (table s) k = None \<and> StripedHashmap_LookUp (table s) k' = Some v'
    \<and> shm_size (table s) = (shm_size m + 1) mod 2 ^ 64"
proof -
  let ?b = "GetBucketIndex m k" and ?chain = "shm_entries m ! GetBucketIndex m k"
  obtain s where s: "stripe_step\<^sup>*\<^sup>* (stripe_init m) s" "stripe_calls s = (\<lambda>_. Outside)" "hist s = [InsertOp k v, InsertOp k' v']"
    "table s = m\<lparr>shm_entries := (shm_entries m)[?b := ?chain @ [(k', v')]], shm_size := (shm_size m + 1) mod 2 ^ 64\<rparr>"
    using two_inserts [OF assms, of v v'] by blast
  have b: "?b < length (shm_entries m)" using assms(1) by (simp add: GetBucketIndex_def)
  have "k \<noteq> k'" using assms(4) by auto
  moreover have "map_of ?chain k = None" "map_of ?chain k' = None" using assms(1,3,5,6) by (simp_all add: StripedHashmap_LookUp_def)
  ultimately have "map_of (?chain @ [(k', v')]) k = None" "map_of (?chain @ [(k', v')]) k' = Some v'"
    by (simp_all add: map_add_def)
  with s b assms(1,3) show ?thesis by (intro exI [of _ s]) (simp add: StripedHashmap_LookUp_def)
qed

theorem striped_hashmap_lost_insert_witness:
  "\<exists>s. stripe_step\<^sup>*\<^sup>* (stripe_init resized_table) s \<and> hist s = [InsertOp 13 True, InsertOp 39 True]
    \<and> StripedHashmap_LookUp (table s) 13 = None"
proof -
  have "shm_entries resized_table \<noteq> []" using resized_table_facts(1) by auto
  from striped_hashmap_lost_insert [OF this resized_table_facts(2), of 13 39 True True] resized_table_facts show ?thesis
    by auto
qed

end
