(* ===== verification/Pub_Sub.thy ===== *)
theory Pub_Sub
  imports Striped_Hashmap Resp_Value
begin

text \<open>
  The publish/subscribe component of the first version of the server: \<open>MapBasedSet\<close> and
  \<open>StripedSetFactory\<close> of \<open>v1/src/server/store\<close>, \<open>SendResponse\<close> of \<open>HandlerHelpers.cpp\<close>, and
  \<open>PubSubChannels\<close> and \<open>PubSubResponse\<close> of \<open>v1/src/server/pubsub\<close>. The RESP values of the two
  versions are the same code up to names.

  A \<open>unique_ptr\<close> in a map is the object it points to; a change through the pointer is
  \<open>StripedHashmap_Assign\<close>. What the server hands to \<open>send\<close> is recorded in \<open>outgoing\<close>. The
  methods are modelled as they run when no two calls overlap. That is more than the source
  provides: \<open>PubSubChannels.h\<close> only asks that no two calls for the same client overlap, and calls
  for different clients do, from the workers of \<open>RequestExecutor\<close>. The lemma
  \<open>subscribe_overlap_loses\<close> shows what can go wrong then. The count of a client's connections, an
  \<open>int\<close> in the source, is taken not to leave its range.
\<close>

section \<open>Sets\<close>

type_synonym 'a MapBasedSet = "('a, unit) StripedHashmap"

definition MapBasedSet_Contains :: "'a MapBasedSet \<Rightarrow> 'a \<Rightarrow> bool" where
  "MapBasedSet_Contains m element \<longleftrightarrow> StripedHashmap_LookUp m element \<noteq> None"

definition MapBasedSet_Insert :: "'a \<Rightarrow> 'a MapBasedSet \<Rightarrow> 'a MapBasedSet" where
  "MapBasedSet_Insert element m = StripedHashmap_Insert element () m"

definition MapBasedSet_Remove :: "'a \<Rightarrow> 'a MapBasedSet \<Rightarrow> 'a MapBasedSet" where
  "MapBasedSet_Remove element m = StripedHashmap_Remove element m"

definition MapBasedSet_ForEach :: "('a \<Rightarrow> 's \<Rightarrow> 's) \<Rightarrow> 'a MapBasedSet \<Rightarrow> 's \<Rightarrow> 's" where
  "MapBasedSet_ForEach action m s = snd (StripedHashmap_ForEach (\<lambda>value empty s. (empty, action value s)) m s)"

definition int_hash :: "int \<Rightarrow> nat" where
  "int_hash key = nat (key mod 2 ^ 64)"

definition CreateSet :: "('a \<Rightarrow> nat) \<Rightarrow> 'a MapBasedSet" where
  "CreateSet hash = StripedHashmap_new DEFAULT_LOAD_FACTOR hash"

definition elements :: "'a MapBasedSet \<Rightarrow> 'a set" where
  "elements m = {a. MapBasedSet_Contains m a}"

lemma elements_dom: "elements m = dom (StripedHashmap_LookUp m)"
  by (auto simp: elements_def MapBasedSet_Contains_def)

lemma MapBasedSet_correct:
  assumes "StripedHashmap_invar m"
  shows "StripedHashmap_invar (MapBasedSet_Insert a m)" "StripedHashmap_invar (MapBasedSet_Remove a m)"
    and "elements (MapBasedSet_Insert a m) = insert a (elements m)" "elements (MapBasedSet_Remove a m) = elements m - {a}"
  using assms by (auto simp: elements_dom MapBasedSet_Insert_def MapBasedSet_Remove_def shm.insert_invar shm.remove_invar
    shm.lookup_insert shm.lookup_remove split: if_splits)

lemma CreateSet_correct: "StripedHashmap_invar (CreateSet hash)" "elements (CreateSet hash) = {}"
  by (simp_all add: CreateSet_def elements_dom StripedHashmap_new_correct)

text \<open>\<open>ForEach\<close> calls the action once for every element.\<close>

lemma MapBasedSet_ForEach_fold:
  assumes "StripedHashmap_invar m"
  shows "\<exists>as. distinct as \<and> set as = elements m \<and> MapBasedSet_ForEach action m s = fold action as s"
proof -
  let ?f = "\<lambda>value empty s. (empty, action value s)"
  obtain m' s' where f: "StripedHashmap_ForEach ?f m s = (m', s')" by (rule prod.exhaust)
  have "for_each ?f (concat (shm_entries m)) s = (concat (shm_entries m'), s')" by (rule shm.for_each_entries [OF assms f])
  then have "s' = fold (\<lambda>(k, v). action k) (concat (shm_entries m)) s"
    using for_each_read_only [of "\<lambda>k v. action k" "concat (shm_entries m)" s] by simp
  also have "\<dots> = fold action (map fst (concat (shm_entries m))) s" by (simp add: fold_map comp_def case_prod_unfold)
  finally have "MapBasedSet_ForEach action m s = fold action (map fst (concat (shm_entries m))) s"
    using f by (simp add: MapBasedSet_ForEach_def)
  moreover have "set (map fst (concat (shm_entries m))) = elements m"
    unfolding elements_dom shm.entries_lookup [OF assms, symmetric] by (simp add: dom_map_of_conv_image_fst)
  ultimately show ?thesis using shm.entries_distinct [OF assms] by blast
qed

section \<open>Channels\<close>

record PubSubChannels =
  channel_to_client_fds :: "(string, int MapBasedSet) StripedHashmap"
  client_fd_to_connection :: "(int, int) StripedHashmap"
  outgoing :: "(int \<times> string) list"

definition PubSubChannels_new :: "(string \<Rightarrow> nat) \<Rightarrow> PubSubChannels" where
  "PubSubChannels_new hash =
     \<lparr>channel_to_client_fds = StripedHashmap_new DEFAULT_LOAD_FACTOR hash,
      client_fd_to_connection = StripedHashmap_new DEFAULT_LOAD_FACTOR int_hash, outgoing = []\<rparr>"

definition SendResponse :: "int \<Rightarrow> string \<Rightarrow> PubSubChannels \<Rightarrow> PubSubChannels" where
  "SendResponse client_fd message p = p\<lparr>outgoing := outgoing p @ [(client_fd, message)]\<rparr>"

definition PubSubResponse :: "string \<Rightarrow> string \<Rightarrow> RespValue \<Rightarrow> RespValue" where
  "PubSubResponse action channel contents = Array [BulkString (Some action), BulkString (Some channel), contents]"

definition Subscribe :: "int \<Rightarrow> string \<Rightarrow> PubSubChannels \<Rightarrow> int \<times> PubSubChannels" where
  "Subscribe client_fd channel p =
     (let p1 =
        (case StripedHashmap_LookUp (channel_to_client_fds p) channel of
           None \<Rightarrow> p\<lparr>channel_to_client_fds :=
             StripedHashmap_Insert channel (MapBasedSet_Insert client_fd (CreateSet int_hash)) (channel_to_client_fds p)\<rparr>
         | Some _ \<Rightarrow> p\<lparr>channel_to_client_fds :=
             StripedHashmap_Assign (MapBasedSet_Insert client_fd) channel (channel_to_client_fds p)\<rparr>)
      in case StripedHashmap_LookUp (client_fd_to_connection p1) client_fd of
           None \<Rightarrow> (1, p1\<lparr>client_fd_to_connection := StripedHashmap_Insert client_fd 1 (client_fd_to_connection p1)\<rparr>)
         | Some n \<Rightarrow> (n + 1, p1\<lparr>client_fd_to_connection := StripedHashmap_Assign (\<lambda>n. n + 1) client_fd (client_fd_to_connection p1)\<rparr>))"

definition Publish :: "string \<Rightarrow> string \<Rightarrow> PubSubChannels \<Rightarrow> int \<times> PubSubChannels" where
  "Publish channel message p =
     (case StripedHashmap_LookUp (channel_to_client_fds p) channel of
        None \<Rightarrow> (0, p)
      | Some client_fds \<Rightarrow>
          let resp_message = BulkString (Some message)
          in MapBasedSet_ForEach
               (\<lambda>client_fd (number_clients_published_to, p).
                  (number_clients_published_to + 1,
                   SendResponse client_fd (Serialize (PubSubResponse ''message'' channel resp_message)) p))
               client_fds (0, p))"

definition Unsubscribe :: "int \<Rightarrow> string \<Rightarrow> PubSubChannels \<Rightarrow> int \<times> PubSubChannels" where
  "Unsubscribe client_fd channel p =
     (case StripedHashmap_LookUp (client_fd_to_connection p) client_fd of
        None \<Rightarrow> (0, p)
      | Some n \<Rightarrow>
          (case StripedHashmap_LookUp (channel_to_client_fds p) channel of
             None \<Rightarrow> (n, p)
           | Some _ \<Rightarrow>
               (n - 1, p\<lparr>channel_to_client_fds := StripedHashmap_Assign (MapBasedSet_Remove client_fd) channel (channel_to_client_fds p),
                  client_fd_to_connection := StripedHashmap_Assign (\<lambda>n. n - 1) client_fd (client_fd_to_connection p)\<rparr>)))"

section \<open>Subscribers\<close>

definition subscribers :: "PubSubChannels \<Rightarrow> string \<Rightarrow> int set" where
  "subscribers p channel =
     (case StripedHashmap_LookUp (channel_to_client_fds p) channel of None \<Rightarrow> {} | Some s \<Rightarrow> elements s)"

definition PubSub_invar :: "PubSubChannels \<Rightarrow> bool" where
  "PubSub_invar p \<longleftrightarrow> StripedHashmap_invar (channel_to_client_fds p) \<and> StripedHashmap_invar (client_fd_to_connection p) \<and>
     (\<forall>channel s. StripedHashmap_LookUp (channel_to_client_fds p) channel = Some s \<longrightarrow> StripedHashmap_invar s) \<and>
     (\<forall>channel fd. fd \<in> subscribers p channel \<longrightarrow> StripedHashmap_LookUp (client_fd_to_connection p) fd \<noteq> None)"

lemma PubSubChannels_new_invar: "PubSub_invar (PubSubChannels_new hash)" "subscribers (PubSubChannels_new hash) = (\<lambda>_. {})"
  by (simp_all add: PubSub_invar_def PubSubChannels_new_def subscribers_def StripedHashmap_new_correct fun_eq_iff)

text \<open>How often a client has subscribed minus how often it has unsubscribed, as the server counts.\<close>

definition connection_count :: "PubSubChannels \<Rightarrow> int \<Rightarrow> int option" where
  "connection_count p fd = StripedHashmap_LookUp (client_fd_to_connection p) fd"

lemma Subscribe_correct:
  assumes "PubSub_invar p" and "Subscribe fd channel p = (n, p')"
  shows "PubSub_invar p'" and "subscribers p' = (subscribers p)(channel := insert fd (subscribers p channel))"
    and "connection_count p' = (connection_count p)(fd \<mapsto> n)"
    and "n = (case connection_count p fd of None \<Rightarrow> 1 | Some n \<Rightarrow> n + 1)" and "outgoing p' = outgoing p"
proof -
  let ?c = "channel_to_client_fds p" and ?f = "client_fd_to_connection p"
  have inv: "StripedHashmap_invar ?c" "StripedHashmap_invar ?f" using assms(1) by (simp_all add: PubSub_invar_def)
  have sets: "StripedHashmap_invar s" if "StripedHashmap_LookUp ?c ch = Some s" for ch s
    using assms(1) that by (simp add: PubSub_invar_def)
  define c' where "c' = (case StripedHashmap_LookUp ?c channel of
      None \<Rightarrow> StripedHashmap_Insert channel (MapBasedSet_Insert fd (CreateSet int_hash)) ?c
    | Some _ \<Rightarrow> StripedHashmap_Assign (MapBasedSet_Insert fd) channel ?c)"
  define f' where "f' = (case StripedHashmap_LookUp ?f fd of
      None \<Rightarrow> StripedHashmap_Insert fd 1 ?f | Some n \<Rightarrow> StripedHashmap_Assign (\<lambda>n. n + 1) fd ?f)"
  have p': "p' = p\<lparr>channel_to_client_fds := c', client_fd_to_connection := f'\<rparr>"
    and n: "n = (case connection_count p fd of None \<Rightarrow> 1 | Some n \<Rightarrow> n + 1)"
    using assms(2) by (auto simp: Subscribe_def c'_def f'_def connection_count_def Let_def split: option.splits)
  define set' where "set' = (case StripedHashmap_LookUp ?c channel of None \<Rightarrow> CreateSet int_hash | Some s \<Rightarrow> s)"
  have set': "StripedHashmap_invar set'" "elements set' = subscribers p channel"
    using sets by (auto simp: set'_def subscribers_def CreateSet_correct split: option.split)
  have c: "StripedHashmap_invar c'" "StripedHashmap_LookUp c' = (StripedHashmap_LookUp ?c)(channel \<mapsto> MapBasedSet_Insert fd set')"
    using inv(1) by (auto simp: c'_def set'_def shm.insert_invar shm.assign_invar shm.lookup_insert shm.lookup_assign split: option.split)
  have f: "StripedHashmap_invar f'" "StripedHashmap_LookUp f' = (StripedHashmap_LookUp ?f)(fd \<mapsto> n)"
    using inv(2) n by (auto simp: f'_def connection_count_def shm.insert_invar shm.assign_invar shm.lookup_insert shm.lookup_assign
      split: option.split)
  show s: "subscribers p' = (subscribers p)(channel := insert fd (subscribers p channel))"
    using set' by (auto simp: subscribers_def p' c(2) MapBasedSet_correct(3) fun_eq_iff)
  show "connection_count p' = (connection_count p)(fd \<mapsto> n)" by (rule ext) (simp add: connection_count_def p' f(2))
  show "PubSub_invar p'"
    using c f sets MapBasedSet_correct(1) [OF set'(1), of fd] s assms(1)
    unfolding PubSub_invar_def by (auto simp: p' split: if_splits)
  show "n = (case connection_count p fd of None \<Rightarrow> 1 | Some n \<Rightarrow> n + 1)" by (rule n)
  show "outgoing p' = outgoing p" by (simp add: p')
qed

lemma Unsubscribe_correct:
  assumes "PubSub_invar p" and "Unsubscribe fd channel p = (n, p')"
  shows "PubSub_invar p'" and "subscribers p' = (subscribers p)(channel := subscribers p channel - {fd})"
    and "outgoing p' = outgoing p"
proof -
  let ?c = "channel_to_client_fds p" and ?f = "client_fd_to_connection p"
  have inv: "StripedHashmap_invar ?c" "StripedHashmap_invar ?f" using assms(1) by (simp_all add: PubSub_invar_def)
  have "PubSub_invar p' \<and> subscribers p' = (subscribers p)(channel := subscribers p channel - {fd}) \<and> outgoing p' = outgoing p"
  proof (cases "StripedHashmap_LookUp ?f fd = None \<or> StripedHashmap_LookUp ?c channel = None")
    case True
    have "fd \<notin> subscribers p channel"
    proof (cases "StripedHashmap_LookUp ?f fd = None")
      case True
      then show ?thesis using assms(1) unfolding PubSub_invar_def by blast
    next
      case False
      with True show ?thesis by (simp add: subscribers_def)
    qed
    then have "subscribers p = (subscribers p)(channel := subscribers p channel - {fd})" by simp
    moreover have "p' = p" using True assms(2) by (auto simp: Unsubscribe_def split: option.splits)
    ultimately show ?thesis using assms(1) by simp
  next
    case False
    then obtain m s where ms: "StripedHashmap_LookUp ?f fd = Some m" "StripedHashmap_LookUp ?c channel = Some s" by auto
    have s: "StripedHashmap_invar s" using assms(1) ms(2) by (simp add: PubSub_invar_def)
    let ?c' = "StripedHashmap_Assign (MapBasedSet_Remove fd) channel ?c" and ?f' = "StripedHashmap_Assign (\<lambda>n. n - 1) fd ?f"
    have p': "p' = p\<lparr>channel_to_client_fds := ?c', client_fd_to_connection := ?f'\<rparr>"
      using assms(2) ms by (simp add: Unsubscribe_def)
    have c: "StripedHashmap_invar ?c'" "StripedHashmap_LookUp ?c' = (StripedHashmap_LookUp ?c)(channel \<mapsto> MapBasedSet_Remove fd s)"
      using inv(1) ms(2) by (simp_all add: shm.assign_invar shm.lookup_assign)
    have f: "StripedHashmap_invar ?f'" "dom (StripedHashmap_LookUp ?f') = dom (StripedHashmap_LookUp ?f)"
      using inv(2) ms(1) by (auto simp: shm.assign_invar shm.lookup_assign split: if_splits)
    have sub: "subscribers p' = (subscribers p)(channel := subscribers p channel - {fd})"
      using ms(2) by (auto simp: subscribers_def p' c(2) MapBasedSet_correct(4) [OF s] fun_eq_iff)
    have "StripedHashmap_invar s'" if "StripedHashmap_LookUp ?c' ch = Some s'" for ch s'
      using that c(2) MapBasedSet_correct(2) [OF s, of fd] assms(1) by (auto simp: PubSub_invar_def split: if_splits)
    moreover have "StripedHashmap_LookUp ?f' fd' \<noteq> None" if "fd' \<in> subscribers p' ch" for ch fd'
    proof -
      have "fd' \<in> subscribers p ch" using that sub by (auto split: if_splits)
      then show ?thesis using assms(1) f(2) unfolding PubSub_invar_def by blast
    qed
    ultimately have "PubSub_invar p'" unfolding PubSub_invar_def p' using c(1) f(1) by (simp add: p')
    with sub show ?thesis by (simp add: p')
  qed
  then show "PubSub_invar p'" and "subscribers p' = (subscribers p)(channel := subscribers p channel - {fd})"
    and "outgoing p' = outgoing p" by blast+
qed

text \<open>The channels that have an entry; an entry stays when its last client leaves.\<close>

definition known_channel :: "PubSubChannels \<Rightarrow> string \<Rightarrow> bool" where
  "known_channel p channel \<longleftrightarrow> StripedHashmap_LookUp (channel_to_client_fds p) channel \<noteq> None"

lemma Unsubscribe_counts:
  assumes "PubSub_invar p" and "Unsubscribe fd channel p = (n, p')"
  shows "n = (case connection_count p fd of None \<Rightarrow> 0 | Some m \<Rightarrow> if known_channel p channel then m - 1 else m)"
    and "connection_count p' fd = map_option (\<lambda>_. n) (connection_count p fd)" and "known_channel p' = known_channel p"
proof -
  have inv: "StripedHashmap_invar (channel_to_client_fds p)" "StripedHashmap_invar (client_fd_to_connection p)"
    using assms(1) by (simp_all add: PubSub_invar_def)
  show "n = (case connection_count p fd of None \<Rightarrow> 0 | Some m \<Rightarrow> if known_channel p channel then m - 1 else m)"
    using assms(2) by (auto simp: Unsubscribe_def connection_count_def known_channel_def split: option.splits)
  show "connection_count p' fd = map_option (\<lambda>_. n) (connection_count p fd)"
    using assms(2) inv by (auto simp: Unsubscribe_def connection_count_def shm.lookup_assign split: option.splits)
  show "known_channel p' = known_channel p"
    using assms(2) inv by (auto simp: Unsubscribe_def known_channel_def shm.lookup_assign fun_eq_iff split: option.splits if_splits)
qed

lemma publish_fold:
  "fold (\<lambda>fd (n, p). (n + 1, SendResponse fd msg p)) fds (n, p) = (n + int (length fds), p\<lparr>outgoing := outgoing p @ map (\<lambda>fd. (fd, msg)) fds\<rparr>)"
  by (induction fds arbitrary: n p) (auto simp: SendResponse_def)

lemma Publish_correct:
  assumes "PubSub_invar p"
  shows "\<exists>fds. distinct fds \<and> set fds = subscribers p channel \<and>
    Publish channel message p = (int (length fds), p\<lparr>outgoing := outgoing p @
      map (\<lambda>fd. (fd, Serialize (PubSubResponse ''message'' channel (BulkString (Some message))))) fds\<rparr>)"
proof (cases "StripedHashmap_LookUp (channel_to_client_fds p) channel")
  case None
  then show ?thesis by (intro exI [of _ "[]"]) (simp add: Publish_def subscribers_def)
next
  case (Some s)
  have "StripedHashmap_invar s" using assms Some by (simp add: PubSub_invar_def)
  let ?send = "\<lambda>fd (n, p). (n + 1, SendResponse fd (Serialize (PubSubResponse ''message'' channel (BulkString (Some message)))) p)"
  obtain fds where "distinct fds" "set fds = elements s" "MapBasedSet_ForEach ?send s (0 :: int, p) = fold ?send fds (0, p)"
    using MapBasedSet_ForEach_fold [OF \<open>StripedHashmap_invar s\<close>, of ?send "(0 :: int, p)"] by blast
  with Some show ?thesis by (intro exI [of _ fds]) (simp add: Publish_def publish_fold subscribers_def)
qed

section \<open>Sequences of calls\<close>

datatype pubsub_op = SubscribeOp int string | UnsubscribeOp int string | PublishOp string string

fun pubsub_run :: "pubsub_op list \<Rightarrow> PubSubChannels \<Rightarrow> PubSubChannels" where
  "pubsub_run [] p = p"
| "pubsub_run (SubscribeOp fd channel # ops) p = pubsub_run ops (snd (Subscribe fd channel p))"
| "pubsub_run (UnsubscribeOp fd channel # ops) p = pubsub_run ops (snd (Unsubscribe fd channel p))"
| "pubsub_run (PublishOp channel message # ops) p = pubsub_run ops (snd (Publish channel message p))"

text \<open>The specification: a client is subscribed if its last call for the channel was \<open>Subscribe\<close>.\<close>

fun spec_subscribers :: "pubsub_op list \<Rightarrow> (string \<Rightarrow> int set) \<Rightarrow> string \<Rightarrow> int set" where
  "spec_subscribers [] subs = subs"
| "spec_subscribers (SubscribeOp fd channel # ops) subs = spec_subscribers ops (subs(channel := insert fd (subs channel)))"
| "spec_subscribers (UnsubscribeOp fd channel # ops) subs = spec_subscribers ops (subs(channel := subs channel - {fd}))"
| "spec_subscribers (PublishOp channel message # ops) subs = spec_subscribers ops subs"

lemma pubsub_run_correct:
  "PubSub_invar p \<Longrightarrow> PubSub_invar (pubsub_run ops p) \<and> subscribers (pubsub_run ops p) = spec_subscribers ops (subscribers p)"
proof (induction ops p rule: pubsub_run.induct)
  case (2 fd channel ops p)
  obtain n p' where r: "Subscribe fd channel p = (n, p')" by (rule prod.exhaust)
  from 2 Subscribe_correct(1,2) [OF "2.prems" r] r show ?case by (simp add: fun_upd_def)
next
  case (3 fd channel ops p)
  obtain n p' where r: "Unsubscribe fd channel p = (n, p')" by (rule prod.exhaust)
  from 3 Unsubscribe_correct(1,2) [OF "3.prems" r] r show ?case by (simp add: fun_upd_def)
next
  case (4 channel message ops p)
  obtain o' where r: "snd (Publish channel message p) = p\<lparr>outgoing := o'\<rparr>"    using Publish_correct [OF "4.prems", of channel message] by (metis snd_conv)
  have "PubSub_invar (p\<lparr>outgoing := o'\<rparr>)" "subscribers (p\<lparr>outgoing := o'\<rparr>) = subscribers p"
    using "4.prems" by (simp_all add: PubSub_invar_def subscribers_def fun_eq_iff)
  with 4 r show ?case by simp
qed simp

section \<open>Properties\<close>

text \<open>
  \<^bold>\<open>C38\<close>. Publish/subscribe delivers: after any sequence of calls, a message published on a channel is
  sent exactly once to each client whose last call for that channel was \<open>Subscribe\<close>, to nobody
  else, and the number returned is the number of these clients.
\<close>

theorem pubsub_delivers:
  "let p = pubsub_run ops (PubSubChannels_new hash);
       (n, p') = Publish channel message p;
       clients = spec_subscribers ops (\<lambda>_. {}) channel
   in finite clients \<and> n = int (card clients) \<and> subscribers p' = subscribers p \<and>
      (\<exists>fds. distinct fds \<and> set fds = clients \<and>
         outgoing p' = outgoing p @
           map (\<lambda>fd. (fd, Serialize (PubSubResponse ''message'' channel (BulkString (Some message))))) fds)"
proof -
  let ?p = "pubsub_run ops (PubSubChannels_new hash)"
  have p: "PubSub_invar ?p" "subscribers ?p = spec_subscribers ops (\<lambda>_. {})"
    using pubsub_run_correct [OF PubSubChannels_new_invar(1)] PubSubChannels_new_invar(2) by metis+
  obtain fds where fds: "distinct fds" "set fds = subscribers ?p channel"
    "Publish channel message ?p = (int (length fds), ?p\<lparr>outgoing := outgoing ?p @
      map (\<lambda>fd. (fd, Serialize (PubSubResponse ''message'' channel (BulkString (Some message))))) fds\<rparr>)"
    using Publish_correct [OF p(1)] by blast
  have "card (subscribers ?p channel) = length fds" "finite (subscribers ?p channel)"
    using distinct_card [OF fds(1)] finite_set [of fds] unfolding fds(2) by blast+
  moreover have "subscribers (?p\<lparr>outgoing := o'\<rparr>) = subscribers ?p" for o' by (simp add: subscribers_def fun_eq_iff)
  ultimately show ?thesis using fds p(2) by (auto simp: Let_def)
qed

text \<open>
  The number in the reply to \<open>SUBSCRIBE\<close> and \<open>UNSUBSCRIBE\<close> is not the number of channels the
  client is subscribed to: subscribing twice to one channel counts twice, and unsubscribing from
  a channel that somebody else uses counts down although nothing is removed, even below zero.
\<close>

lemma pubsub_counts_calls:
  assumes "PubSub_invar p" and "connection_count p fd = Some n" and "fd \<in> subscribers p channel"
    and "subscribers p other \<noteq> {}" and "fd \<notin> subscribers p other"
  shows "fst (Subscribe fd channel p) = n + 1 \<and> subscribers (snd (Subscribe fd channel p)) = subscribers p
    \<and> fst (Unsubscribe fd other p) = n - 1 \<and> subscribers (snd (Unsubscribe fd other p)) = subscribers p
    \<and> fst (Unsubscribe fd other (snd (Unsubscribe fd other p))) = n - 2"
proof -
  obtain m p1 where s: "Subscribe fd channel p = (m, p1)" by (rule prod.exhaust)
  obtain u p2 where u: "Unsubscribe fd other p = (u, p2)" by (rule prod.exhaust)
  obtain set where o: "StripedHashmap_LookUp (channel_to_client_fds p) other = Some set"
    using assms(4) by (auto simp: subscribers_def split: option.splits)
  have inv: "StripedHashmap_invar (channel_to_client_fds p)" "StripedHashmap_invar (client_fd_to_connection p)"
    using assms(1) by (simp_all add: PubSub_invar_def)
  have p2: "u = n - 1" "StripedHashmap_LookUp (client_fd_to_connection p2) fd = Some (n - 1)"
    "StripedHashmap_LookUp (channel_to_client_fds p2) other \<noteq> None"
    using u o assms(2) inv by (auto simp: Unsubscribe_def connection_count_def shm.lookup_assign)
  then have "fst (Unsubscribe fd other p2) = n - 1 - 1" by (auto simp: Unsubscribe_def)
  moreover have "subscribers p1 = subscribers p" "subscribers p2 = subscribers p"
    using Subscribe_correct(2) [OF assms(1) s] Unsubscribe_correct(2) [OF assms(1) u] assms(3,5) by (auto simp: insert_absorb)
  moreover have "m = n + 1" using Subscribe_correct(4) [OF assms(1) s] assms(2) by simp
  ultimately show ?thesis using s u p2(1) by simp
qed

text \<open>
  What calls that overlap can do. \<open>SubscribeAbsent\<close> is what \<open>Subscribe\<close> does to the channels once
  its \<open>LookUp\<close> has found no entry for the channel. When two clients have both looked a new channel
  up before either inserts, the set of the second replaces that of the first, whose subscription
  is lost.
\<close>

definition SubscribeAbsent :: "int \<Rightarrow> string \<Rightarrow> PubSubChannels \<Rightarrow> PubSubChannels" where
  "SubscribeAbsent client_fd channel p = p\<lparr>channel_to_client_fds :=
     StripedHashmap_Insert channel (MapBasedSet_Insert client_fd (CreateSet int_hash)) (channel_to_client_fds p)\<rparr>"

lemma subscribe_overlap_loses:
  assumes "PubSub_invar p" and "\<not> known_channel p channel" and "fd1 \<noteq> fd2"
  shows "channel_to_client_fds (snd (Subscribe fd channel p)) = channel_to_client_fds (SubscribeAbsent fd channel p)"
    and "fd1 \<notin> subscribers (SubscribeAbsent fd2 channel (SubscribeAbsent fd1 channel p)) channel"
proof -
  show "channel_to_client_fds (snd (Subscribe fd channel p)) = channel_to_client_fds (SubscribeAbsent fd channel p)"
    using assms(2) by (simp add: Subscribe_def SubscribeAbsent_def known_channel_def Let_def split: option.split)
  have "StripedHashmap_invar (channel_to_client_fds p)" using assms(1) by (simp add: PubSub_invar_def)
  then show "fd1 \<notin> subscribers (SubscribeAbsent fd2 channel (SubscribeAbsent fd1 channel p)) channel"
    using assms(3) by (simp add: SubscribeAbsent_def subscribers_def shm.insert_invar shm.lookup_insert MapBasedSet_correct CreateSet_correct)
qed

end
