(* ===== verification/V1_Handlers.thy ===== *)
theory V1_Handlers
  imports Pub_Sub
begin

text \<open>
  The requests and handlers of the first version of the server: \<open>OneArgRequest\<close>, \<open>VarArgRequest\<close> and
  the request classes of \<open>v1/src/server/requests\<close>, the handlers of \<open>v1/src/server/handler\<close> and
  \<open>HandlerDispatcher\<close>. A constructor of a request returns the arguments it stores, or throws. The
  handlers of a request type are modelled with every reply they send; the log, which nothing reads,
  is left out, and so is the failure of an allocation, which is what the \<open>try\<close> blocks around the
  map catch. No caller catches the exceptions of a handler: they end the server.
\<close>

section \<open>Requests with one argument\<close>

fun holds_bulk_string :: "RespValue \<Rightarrow> bool" where
  "holds_bulk_string (RespBulkString s) = True"
| "holds_bulk_string _ = False"

fun get_bulk_string :: "RespValue \<Rightarrow> string option" where
  "get_bulk_string (RespBulkString s) = s"
| "get_bulk_string _ = None"

text \<open>An optional string that is neither null nor empty.\<close>

fun valid_string :: "string option \<Rightarrow> bool" where
  "valid_string (Some (c # s)) = True"
| "valid_string _ = False"

definition one_arg_message :: "string \<Rightarrow> string" where
  "one_arg_message request_type = request_type @ '' request resp must be an array containing '' @ request_type @ '' and then the <key>''"

fun OneArgRequest_new :: "RespValue \<Rightarrow> string \<Rightarrow> string result" where
  "OneArgRequest_new (RespArray request_array) request_type =
     (if length request_array \<noteq> 2 then Inl (invalid_argument (one_arg_message request_type))
      else
        let get = request_array ! 0; key = request_array ! 1
        in if \<not> (holds_bulk_string get \<and> get_bulk_string get = Some request_type)
           then Inl (invalid_argument (one_arg_message request_type))
           else if \<not> holds_bulk_string key then Inl (invalid_argument ''Key is not a bulk string'')
           else if \<not> valid_string (get_bulk_string key) then Inl (invalid_argument ''Key is not a valid key'')
           else Inr (the (get_bulk_string key)))"
| "OneArgRequest_new _ request_type = Inl (invalid_argument (one_arg_message request_type))"

definition getFirstArg :: "string \<Rightarrow> string result" where
  "getFirstArg first_arg =
     (if first_arg \<noteq> [] then Inr first_arg else Inl (runtime_error ''Cannot get argument of IsRequest checker''))"

fun OneArgRequest_IsRequest :: "string \<Rightarrow> RespValue \<Rightarrow> bool" where
  "OneArgRequest_IsRequest request_type (RespArray request_array) =
     (if length request_array \<noteq> 2 then False
      else
        let get = request_array ! 0; key = request_array ! 1
        in if \<not> (holds_bulk_string get \<and> get_bulk_string get = Some request_type) then False
           else if \<not> holds_bulk_string key then False
           else if \<not> valid_string (get_bulk_string key) then False
           else True)"
| "OneArgRequest_IsRequest request_type _ = False"

definition GetRequest_new :: "RespValue \<Rightarrow> string result" where
  "GetRequest_new resp_value = OneArgRequest_new resp_value ''GET''"

definition GetRequest_IsRequest :: "RespValue \<Rightarrow> bool" where
  "GetRequest_IsRequest resp_value = OneArgRequest_IsRequest ''GET'' resp_value"

definition DelRequest_new :: "RespValue \<Rightarrow> string result" where
  "DelRequest_new resp_value = OneArgRequest_new resp_value ''DEL''"

definition DelRequest_IsRequest :: "RespValue \<Rightarrow> bool" where
  "DelRequest_IsRequest resp_value = OneArgRequest_IsRequest ''DEL'' resp_value"

section \<open>\<open>SetRequest\<close> and \<open>PublishRequest\<close>\<close>

definition set_message :: string where
  "set_message = ''Get request resp must be an array containing SET and then the <key>''"

fun SetRequest_new :: "RespValue \<Rightarrow> (string \<times> string option) result" where
  "SetRequest_new (RespArray request_array) =
     (if length request_array \<noteq> 3 then Inl (invalid_argument set_message)
      else
        let set = request_array ! 0; key = request_array ! 1; value = request_array ! 2
        in if \<not> (holds_bulk_string set \<and> get_bulk_string set = Some ''SET'') then Inl (invalid_argument set_message)
           else if \<not> (holds_bulk_string key \<and> holds_bulk_string value) then Inl (invalid_argument ''Key is not a bulk string'')
           else if \<not> valid_string (get_bulk_string key) then Inl (invalid_argument ''Key is not a valid key'')
           else Inr (the (get_bulk_string key), get_bulk_string value))"
| "SetRequest_new _ = Inl (invalid_argument set_message)"

fun SetRequest_IsRequest :: "RespValue \<Rightarrow> bool" where
  "SetRequest_IsRequest (RespArray request_array) =
     (if length request_array \<noteq> 3 then False
      else
        let set = request_array ! 0; key = request_array ! 1; value = request_array ! 2
        in if \<not> (holds_bulk_string set \<and> get_bulk_string set = Some ''SET'') then False
           else if \<not> (holds_bulk_string key \<and> holds_bulk_string value) then False
           else if \<not> valid_string (get_bulk_string key) then False
           else True)"
| "SetRequest_IsRequest _ = False"

fun PublishRequest_new :: "RespValue \<Rightarrow> (string \<times> string) result" where
  "PublishRequest_new (RespArray request_array) =
     (if length request_array \<noteq> 3
      then Inl (invalid_argument ''Publish must have exactly three elements: PUBLISH, channel, and message'')
      else
        let publish = request_array ! 0; channel = request_array ! 1; message = request_array ! 2
        in if \<not> (holds_bulk_string publish \<and> get_bulk_string publish = Some ''PUBLISH'')
           then Inl (invalid_argument ''Resp value is not a PUBLISH request'')
           else if \<not> (holds_bulk_string channel \<and> holds_bulk_string message)
           then Inl (invalid_argument ''Arguments are not strings'')
           else if \<not> valid_string (get_bulk_string channel) then Inl (invalid_argument ''Channel argument is empty'')
           else if \<not> valid_string (get_bulk_string message) then Inl (invalid_argument ''Message argument is empty'')
           else Inr (the (get_bulk_string channel), the (get_bulk_string message)))"
| "PublishRequest_new _ = Inl (invalid_argument ''Publish must be an array of values'')"

fun PublishRequest_IsRequest :: "RespValue \<Rightarrow> bool" where
  "PublishRequest_IsRequest (RespArray request_array) =
     (if length request_array \<noteq> 3 then False
      else
        let publish = request_array ! 0; channel = request_array ! 1; message = request_array ! 2
        in if \<not> (holds_bulk_string publish \<and> get_bulk_string publish = Some ''PUBLISH'') then False
           else if \<not> (holds_bulk_string channel \<and> holds_bulk_string message) then False
           else if \<not> valid_string (get_bulk_string channel) then False
           else if \<not> valid_string (get_bulk_string message) then False
           else True)"
| "PublishRequest_IsRequest _ = False"

section \<open>Requests with any number of arguments\<close>

text \<open>
  The constructor moves its parameter \<open>request_type\<close> into the member before it builds its error
  messages from it; the parameter is empty then.
\<close>

definition var_arg_message :: string where
  "var_arg_message = '' request resp must be an array containing '' @ '' and then the arguments''"

fun VarArgs :: "RespValue list \<Rightarrow> string list result" where
  "VarArgs [] = Inr []"
| "VarArgs (value # values') =
     (if \<not> holds_bulk_string value then Inl (invalid_argument ''Element is not a bulk string'')
      else if \<not> valid_string (get_bulk_string value) then Inl (invalid_argument ''Empty argument not allowed'')
      else bindE (VarArgs values') (\<lambda>args. Inr (the (get_bulk_string value) # args)))"

fun VarArgRequest_new :: "RespValue \<Rightarrow> string \<Rightarrow> string list result" where
  "VarArgRequest_new (RespArray request_array) request_type =
     (if length request_array \<le> 1 then Inl (invalid_argument var_arg_message)
      else
        let get = request_array ! 0
        in if \<not> (holds_bulk_string get \<and> get_bulk_string get = Some request_type) then Inl (invalid_argument var_arg_message)
           else VarArgs (tl request_array))"
| "VarArgRequest_new _ request_type = Inl (invalid_argument var_arg_message)"

definition getArg :: "string list \<Rightarrow> int \<Rightarrow> string result" where
  "getArg args index =
     (if index < 0 \<or> int (length args) \<le> index then Inl (out_of_range ''Index out of range'') else Inr (args ! nat index))"

fun VarArgRequest_IsRequest :: "string \<Rightarrow> RespValue \<Rightarrow> bool" where
  "VarArgRequest_IsRequest request_type (RespArray request_array) =
     (if length request_array \<le> 1 then False
      else let get = request_array ! 0 in holds_bulk_string get \<and> get_bulk_string get = Some request_type)"
| "VarArgRequest_IsRequest request_type _ = False"

definition SubscribeRequest_new :: "RespValue \<Rightarrow> string list result" where
  "SubscribeRequest_new resp_value = VarArgRequest_new resp_value ''SUBSCRIBE''"

definition SubscribeRequest_IsRequest :: "RespValue \<Rightarrow> bool" where
  "SubscribeRequest_IsRequest resp_value = VarArgRequest_IsRequest ''SUBSCRIBE'' resp_value"

definition UnsubscribeRequest_new :: "RespValue \<Rightarrow> string list result" where
  "UnsubscribeRequest_new resp_value = VarArgRequest_new resp_value ''UNSUBSCRIBE''"

definition UnsubscribeRequest_IsRequest :: "RespValue \<Rightarrow> bool" where
  "UnsubscribeRequest_IsRequest resp_value = VarArgRequest_IsRequest ''UNSUBSCRIBE'' resp_value"

section \<open>Handlers\<close>

record V1_State =
  v1_data :: "(string, string option) StripedHashmap"
  v1_channels :: PubSubChannels

definition V1_State_new :: "(string \<Rightarrow> nat) \<Rightarrow> V1_State" where
  "V1_State_new hash =
     \<lparr>v1_data = StripedHashmap_new DEFAULT_LOAD_FACTOR hash, v1_channels = PubSubChannels_new hash\<rparr>"

definition V1_SendResponse :: "int \<Rightarrow> string \<Rightarrow> V1_State \<Rightarrow> V1_State" where
  "V1_SendResponse client_fd message s = s\<lparr>v1_channels := SendResponse client_fd message (v1_channels s)\<rparr>"

definition OK_RESP :: string where "OK_RESP = ''+OK'' @ CRLF"

definition V1_Get_Handle :: "int \<Rightarrow> RespValue \<Rightarrow> V1_State \<Rightarrow> V1_State result" where
  "V1_Get_Handle client_fd resp_value s =
     bindE (GetRequest_new resp_value) (\<lambda>request. bindE (getFirstArg request) (\<lambda>key.
       case StripedHashmap_LookUp (v1_data s) key of
         None \<Rightarrow> Inr (V1_SendResponse client_fd (Serialize NullBulkString) s)
       | Some value \<Rightarrow>
           (case value of
              None \<Rightarrow> Inr (V1_SendResponse client_fd (Serialize NullBulkString) s)
            | Some _ \<Rightarrow> Inr (V1_SendResponse client_fd (Serialize (BulkString value)) s))))"

definition V1_Set_Handle :: "int \<Rightarrow> RespValue \<Rightarrow> V1_State \<Rightarrow> V1_State result" where
  "V1_Set_Handle client_fd resp_value s =
     bindE (SetRequest_new resp_value) (\<lambda>(key, value).
       Inr (V1_SendResponse client_fd OK_RESP (s\<lparr>v1_data := StripedHashmap_Insert key value (v1_data s)\<rparr>)))"

definition V1_Del_Handle :: "int \<Rightarrow> RespValue \<Rightarrow> V1_State \<Rightarrow> V1_State result" where
  "V1_Del_Handle client_fd resp_value s =
     bindE (DelRequest_new resp_value) (\<lambda>request. bindE (getFirstArg request) (\<lambda>key.
       Inr (V1_SendResponse client_fd (Serialize (Integer 1)) (s\<lparr>v1_data := StripedHashmap_Remove key (v1_data s)\<rparr>))))"

text \<open>The loops over the channels of \<open>SUBSCRIBE\<close> and \<open>UNSUBSCRIBE\<close>.\<close>

fun SubscribeLoop :: "int \<Rightarrow> string list \<Rightarrow> PubSubChannels \<Rightarrow> PubSubChannels" where
  "SubscribeLoop client_fd [] p = p"
| "SubscribeLoop client_fd (channel # channels) p =
     (let (num_channels, p1) = Subscribe client_fd channel p
      in SubscribeLoop client_fd channels
           (SendResponse client_fd (Serialize (PubSubResponse ''subscribe'' channel (Integer num_channels))) p1))"

fun UnsubscribeLoop :: "int \<Rightarrow> string list \<Rightarrow> PubSubChannels \<Rightarrow> PubSubChannels" where
  "UnsubscribeLoop client_fd [] p = p"
| "UnsubscribeLoop client_fd (channel # channels) p =
     (let (num_channels, p1) = Unsubscribe client_fd channel p
      in UnsubscribeLoop client_fd channels
           (SendResponse client_fd (Serialize (PubSubResponse ''unsubscribe'' channel (Integer num_channels))) p1))"

definition V1_Subscribe_Handle :: "int \<Rightarrow> RespValue \<Rightarrow> V1_State \<Rightarrow> V1_State result" where
  "V1_Subscribe_Handle client_fd resp_value s =
     bindE (SubscribeRequest_new resp_value) (\<lambda>channels.
       Inr (s\<lparr>v1_channels := SubscribeLoop client_fd channels (v1_channels s)\<rparr>))"

definition V1_Publish_Handle :: "int \<Rightarrow> RespValue \<Rightarrow> V1_State \<Rightarrow> V1_State result" where
  "V1_Publish_Handle client_fd resp_value s =
     bindE (PublishRequest_new resp_value) (\<lambda>(channel, message).
       let (num_published_to, p) = Publish channel message (v1_channels s)
       in Inr (V1_SendResponse client_fd (Serialize (Integer num_published_to)) (s\<lparr>v1_channels := p\<rparr>)))"

definition V1_Unsubscribe_Handle :: "int \<Rightarrow> RespValue \<Rightarrow> V1_State \<Rightarrow> V1_State result" where
  "V1_Unsubscribe_Handle client_fd resp_value s =
     bindE (UnsubscribeRequest_new resp_value) (\<lambda>channels.
       Inr (s\<lparr>v1_channels := UnsubscribeLoop client_fd channels (v1_channels s)\<rparr>))"

definition V1_Unknown_Handle :: "int \<Rightarrow> RespValue \<Rightarrow> V1_State \<Rightarrow> V1_State result" where
  "V1_Unknown_Handle client_fd resp_value s =
     Inr (V1_SendResponse client_fd (Serialize (Error ''Unknown subcommand or command'')) s)"

datatype V1_Handler = V1_Get | V1_Set | V1_Del | V1_Subscribe | V1_Publish | V1_Unsubscribe | V1_Unknown

fun V1_IsHandler :: "V1_Handler \<Rightarrow> RespValue \<Rightarrow> bool" where
  "V1_IsHandler V1_Get resp_value = GetRequest_IsRequest resp_value"
| "V1_IsHandler V1_Set resp_value = SetRequest_IsRequest resp_value"
| "V1_IsHandler V1_Del resp_value = DelRequest_IsRequest resp_value"
| "V1_IsHandler V1_Subscribe resp_value = SubscribeRequest_IsRequest resp_value"
| "V1_IsHandler V1_Publish resp_value = PublishRequest_IsRequest resp_value"
| "V1_IsHandler V1_Unsubscribe resp_value = UnsubscribeRequest_IsRequest resp_value"
| "V1_IsHandler V1_Unknown resp_value = True"

fun V1_Handle :: "V1_Handler \<Rightarrow> int \<Rightarrow> RespValue \<Rightarrow> V1_State \<Rightarrow> V1_State result" where
  "V1_Handle V1_Get = V1_Get_Handle"
| "V1_Handle V1_Set = V1_Set_Handle"
| "V1_Handle V1_Del = V1_Del_Handle"
| "V1_Handle V1_Subscribe = V1_Subscribe_Handle"
| "V1_Handle V1_Publish = V1_Publish_Handle"
| "V1_Handle V1_Unsubscribe = V1_Unsubscribe_Handle"
| "V1_Handle V1_Unknown = V1_Unknown_Handle"

text \<open>The handlers that \<open>ServerApp\<close> registers, in its order.\<close>

definition V1_handlers :: "V1_Handler list" where
  "V1_handlers = [V1_Get, V1_Set, V1_Del, V1_Subscribe, V1_Publish, V1_Unsubscribe, V1_Unknown]"

fun V1_DispatchLoop :: "V1_Handler list \<Rightarrow> int \<Rightarrow> RespValue \<Rightarrow> V1_State \<Rightarrow> V1_State result" where
  "V1_DispatchLoop [] client_fd resp_value s = Inr s"
| "V1_DispatchLoop (handler # handlers) client_fd resp_value s =
     (if V1_IsHandler handler resp_value then V1_Handle handler client_fd resp_value s
      else V1_DispatchLoop handlers client_fd resp_value s)"

definition DispatchRequest :: "int \<Rightarrow> RespValue \<Rightarrow> V1_State \<Rightarrow> V1_State result" where
  "DispatchRequest client_fd resp_value s = V1_DispatchLoop V1_handlers client_fd resp_value s"

section \<open>Constructors and \<open>IsRequest\<close>\<close>

lemma valid_string_iff: "valid_string a \<longleftrightarrow> (\<exists>s. a = Some s \<and> s \<noteq> [])"
  by (cases a rule: valid_string.cases) auto

lemma OneArgRequest_accepts:
  "(\<exists>key. OneArgRequest_new v t = Inr key) \<longleftrightarrow> OneArgRequest_IsRequest t v"
  "OneArgRequest_new v t = Inr key \<longleftrightarrow> v = RespArray [RespBulkString (Some t), RespBulkString (Some key)] \<and> key \<noteq> []"
proof -
  show "(\<exists>key. OneArgRequest_new v t = Inr key) \<longleftrightarrow> OneArgRequest_IsRequest t v"
    by (cases v) (auto simp: Let_def)
  show "OneArgRequest_new v t = Inr key \<longleftrightarrow> v = RespArray [RespBulkString (Some t), RespBulkString (Some key)] \<and> key \<noteq> []"
  proof (cases v)
    case (RespArray vs)
    show ?thesis
    proof (cases "length vs = 2")
      case True
      then obtain g k where vs: "vs = [g, k]" by (auto simp: numeral_2_eq_2 length_Suc_conv)
      show ?thesis by (cases g; cases k) (auto simp: RespArray vs valid_string_iff Let_def split: if_splits)
    qed (auto simp: RespArray)
  qed auto
qed

lemma SetRequest_accepts:
  "(\<exists>kv. SetRequest_new v = Inr kv) \<longleftrightarrow> SetRequest_IsRequest v"
  "SetRequest_new v = Inr (key, x) \<longleftrightarrow> v = RespArray [RespBulkString (Some ''SET''), RespBulkString (Some key), RespBulkString x] \<and> key \<noteq> []"
proof -
  show "(\<exists>kv. SetRequest_new v = Inr kv) \<longleftrightarrow> SetRequest_IsRequest v"
    by (cases v) (auto simp: Let_def)
  show "SetRequest_new v = Inr (key, x) \<longleftrightarrow> v = RespArray [RespBulkString (Some ''SET''), RespBulkString (Some key), RespBulkString x] \<and> key \<noteq> []"
  proof (cases v)
    case (RespArray vs)
    show ?thesis
    proof (cases "length vs = 3")
      case True
      then obtain g k y where vs: "vs = [g, k, y]" by (auto simp: numeral_3_eq_3 length_Suc_conv)
      show ?thesis by (cases g; cases k; cases y) (auto simp: RespArray vs valid_string_iff Let_def split: if_splits)
    qed (auto simp: RespArray)
  qed auto
qed

lemma PublishRequest_accepts:
  "(\<exists>cm. PublishRequest_new v = Inr cm) \<longleftrightarrow> PublishRequest_IsRequest v"
  "PublishRequest_new v = Inr (channel, message) \<longleftrightarrow>
     v = RespArray [RespBulkString (Some ''PUBLISH''), RespBulkString (Some channel), RespBulkString (Some message)] \<and> channel \<noteq> [] \<and> message \<noteq> []"
proof -
  show "(\<exists>cm. PublishRequest_new v = Inr cm) \<longleftrightarrow> PublishRequest_IsRequest v"
    by (cases v) (auto simp: Let_def)
  show "PublishRequest_new v = Inr (channel, message) \<longleftrightarrow>
     v = RespArray [RespBulkString (Some ''PUBLISH''), RespBulkString (Some channel), RespBulkString (Some message)] \<and> channel \<noteq> [] \<and> message \<noteq> []"
  proof (cases v)
    case (RespArray vs)
    show ?thesis
    proof (cases "length vs = 3")
      case True
      then obtain g k y where vs: "vs = [g, k, y]" by (auto simp: numeral_3_eq_3 length_Suc_conv)
      show ?thesis by (cases g; cases k; cases y) (auto simp: RespArray vs valid_string_iff Let_def split: if_splits)
    qed (auto simp: RespArray)
  qed auto
qed

definition bad_argument :: "RespValue \<Rightarrow> bool" where
  "bad_argument a \<longleftrightarrow> (\<forall>s. a = RespBulkString (Some s) \<longrightarrow> s = [])"

lemma bad_argument_iff: "bad_argument a \<longleftrightarrow> \<not> holds_bulk_string a \<or> \<not> valid_string (get_bulk_string a)"
  by (cases a) (auto simp: bad_argument_def valid_string_iff)

lemma VarArgs_throws: "(\<exists>e. VarArgs vs = Inl e) \<longleftrightarrow> (\<exists>a \<in> set vs. bad_argument a)"
  by (induction vs) (auto simp: bad_argument_iff bindE_eq_Inl)

lemma VarArgs_strings: "[] \<notin> set ss \<Longrightarrow> VarArgs (map (\<lambda>s. RespBulkString (Some s)) ss) = Inr ss"
  by (induction ss) (auto simp: valid_string_iff)

text \<open>A \<open>SUBSCRIBE\<close> or \<open>UNSUBSCRIBE\<close> with an argument that is not a bulk string, or null, or empty.\<close>

definition bad_subscription :: "RespValue \<Rightarrow> bool" where
  "bad_subscription v \<longleftrightarrow> (\<exists>t args. v = RespArray (RespBulkString (Some t) # args) \<and> t \<in> {''SUBSCRIBE'', ''UNSUBSCRIBE''} \<and>
     (\<exists>a \<in> set args. bad_argument a))"

lemma VarArgRequest_IsRequest_iff:
  "VarArgRequest_IsRequest t v \<longleftrightarrow> (\<exists>args. v = RespArray (RespBulkString (Some t) # args) \<and> args \<noteq> [])"
proof (cases v)
  case (RespArray vs)
  show ?thesis
  proof (cases vs)
    case (Cons g args)
    then show ?thesis by (cases g) (auto simp: RespArray Let_def)
  qed (simp add: RespArray)
qed auto

lemma VarArgRequest_throws:
  assumes "VarArgRequest_IsRequest t v"
  shows "(\<exists>e. VarArgRequest_new v t = Inl e) \<longleftrightarrow> (\<exists>args. v = RespArray (RespBulkString (Some t) # args) \<and> (\<exists>a \<in> set args. bad_argument a))"
proof -
  obtain args where v: "v = RespArray (RespBulkString (Some t) # args)" "args \<noteq> []" using assms VarArgRequest_IsRequest_iff by blast
  then have "VarArgRequest_new v t = VarArgs args" by (auto simp: Let_def Suc_le_eq)
  with VarArgs_throws [of args] v show ?thesis by simp
qed

text \<open>No two handlers but the last claim the same request.\<close>

lemmas IsRequest_defs = GetRequest_IsRequest_def DelRequest_IsRequest_def SubscribeRequest_IsRequest_def UnsubscribeRequest_IsRequest_def

definition first_word :: "RespValue \<Rightarrow> string \<Rightarrow> bool" where
  "first_word v t \<longleftrightarrow> (\<exists>args. v = RespArray (RespBulkString (Some t) # args))"

lemma first_word_unique: "first_word v t \<Longrightarrow> first_word v t' \<Longrightarrow> t = t'"
  by (auto simp: first_word_def)

lemma first_word_OneArg: "OneArgRequest_IsRequest t v \<Longrightarrow> first_word v t"
  using OneArgRequest_accepts [of v t] by (auto simp: first_word_def)

lemma first_word_Set: "SetRequest_IsRequest v \<Longrightarrow> first_word v ''SET''"
  using SetRequest_accepts [of v] by (auto simp: first_word_def)

lemma first_word_Publish: "PublishRequest_IsRequest v \<Longrightarrow> first_word v ''PUBLISH''"
  using PublishRequest_accepts [of v] by (auto simp: first_word_def)

lemma first_word_VarArg: "VarArgRequest_IsRequest t v \<Longrightarrow> first_word v t"
  using VarArgRequest_IsRequest_iff [of t v] by (auto simp: first_word_def)

lemma first_word_request:
  assumes "first_word v t"
  shows "GetRequest_IsRequest v \<Longrightarrow> t = ''GET''" "DelRequest_IsRequest v \<Longrightarrow> t = ''DEL''" "SetRequest_IsRequest v \<Longrightarrow> t = ''SET''"
    "PublishRequest_IsRequest v \<Longrightarrow> t = ''PUBLISH''" "SubscribeRequest_IsRequest v \<Longrightarrow> t = ''SUBSCRIBE''"
    "UnsubscribeRequest_IsRequest v \<Longrightarrow> t = ''UNSUBSCRIBE''"
  unfolding IsRequest_defs
  by (erule first_word_unique [OF assms first_word_OneArg] first_word_unique [OF assms first_word_Set]
    first_word_unique [OF assms first_word_Publish] first_word_unique [OF assms first_word_VarArg])+

lemma DispatchRequest_cases:
  "DispatchRequest fd v s =
     (if GetRequest_IsRequest v then V1_Get_Handle fd v s
      else if SetRequest_IsRequest v then V1_Set_Handle fd v s
      else if DelRequest_IsRequest v then V1_Del_Handle fd v s
      else if SubscribeRequest_IsRequest v then V1_Subscribe_Handle fd v s
      else if PublishRequest_IsRequest v then V1_Publish_Handle fd v s
      else if UnsubscribeRequest_IsRequest v then V1_Unsubscribe_Handle fd v s
      else V1_Unknown_Handle fd v s)"
  by (simp add: DispatchRequest_def V1_handlers_def)

lemma handlers_return:
  "GetRequest_IsRequest v \<Longrightarrow> \<exists>s'. V1_Get_Handle fd v s = Inr s'"
  "SetRequest_IsRequest v \<Longrightarrow> \<exists>s'. V1_Set_Handle fd v s = Inr s'"
  "DelRequest_IsRequest v \<Longrightarrow> \<exists>s'. V1_Del_Handle fd v s = Inr s'"
  "PublishRequest_IsRequest v \<Longrightarrow> \<exists>s'. V1_Publish_Handle fd v s = Inr s'"
proof -
  show "\<exists>s'. V1_Get_Handle fd v s = Inr s'" if r: "GetRequest_IsRequest v"
  proof -
    obtain key where k: "GetRequest_new v = Inr key"
      using r OneArgRequest_accepts(1) [of v "''GET''"] unfolding GetRequest_IsRequest_def GetRequest_new_def by blast
    then have "key \<noteq> []" using OneArgRequest_accepts(2) [of v "''GET''" key] by (simp add: GetRequest_new_def)
    with k show ?thesis by (auto simp: V1_Get_Handle_def getFirstArg_def split: option.split)
  qed
  show "\<exists>s'. V1_Del_Handle fd v s = Inr s'" if r: "DelRequest_IsRequest v"
  proof -
    obtain key where k: "DelRequest_new v = Inr key"
      using r OneArgRequest_accepts(1) [of v "''DEL''"] unfolding DelRequest_IsRequest_def DelRequest_new_def by blast
    then have "key \<noteq> []" using OneArgRequest_accepts(2) [of v "''DEL''" key] by (simp add: DelRequest_new_def)
    with k show ?thesis by (auto simp: V1_Del_Handle_def getFirstArg_def)
  qed
  show "\<exists>s'. V1_Set_Handle fd v s = Inr s'" if "SetRequest_IsRequest v"
    using that SetRequest_accepts(1) [of v] by (auto simp: V1_Set_Handle_def)
  show "\<exists>s'. V1_Publish_Handle fd v s = Inr s'" if "PublishRequest_IsRequest v"
    using that PublishRequest_accepts(1) [of v] by (auto simp: V1_Publish_Handle_def split: prod.split)
qed

text \<open>
  Whether dispatching a request throws. \<open>DispatchThrows\<close> computes it from the request alone: the
  state and the client do not matter.
\<close>

definition DispatchThrows :: "RespValue \<Rightarrow> bool" where
  "DispatchThrows request \<longleftrightarrow>
     SubscribeRequest_IsRequest request \<and> isl (SubscribeRequest_new request) \<or>
     UnsubscribeRequest_IsRequest request \<and> isl (UnsubscribeRequest_new request)"

lemma DispatchRequest_throws: "(\<exists>e. DispatchRequest client_fd request s = Inl e) \<longleftrightarrow> DispatchThrows request"
proof -
  note h = handlers_return [of request client_fd s] and c = DispatchRequest_cases [of client_fd request s]
  have first: "\<exists>t. first_word request t" if "SubscribeRequest_IsRequest request \<or> UnsubscribeRequest_IsRequest request"
    using that first_word_VarArg by (auto simp: IsRequest_defs)
  consider (sub) "SubscribeRequest_IsRequest request" | (unsub) "UnsubscribeRequest_IsRequest request"
    | (other) "\<not> SubscribeRequest_IsRequest request" "\<not> UnsubscribeRequest_IsRequest request" by blast
  then show ?thesis
  proof cases
    case sub
    then obtain t where "first_word request t" using first by blast
    note w = first_word_request [OF this]
    have "\<not> GetRequest_IsRequest request" "\<not> SetRequest_IsRequest request" "\<not> DelRequest_IsRequest request"
      "\<not> UnsubscribeRequest_IsRequest request" using w sub by auto
    with sub show ?thesis unfolding c by (cases "SubscribeRequest_new request") (auto simp: V1_Subscribe_Handle_def DispatchThrows_def)
  next
    case unsub
    then obtain t where "first_word request t" using first by blast
    note w = first_word_request [OF this]
    have "\<not> GetRequest_IsRequest request" "\<not> SetRequest_IsRequest request" "\<not> DelRequest_IsRequest request"
      "\<not> SubscribeRequest_IsRequest request" "\<not> PublishRequest_IsRequest request" using w unsub by auto
    with unsub show ?thesis unfolding c
      by (cases "UnsubscribeRequest_new request") (auto simp: V1_Unsubscribe_Handle_def DispatchThrows_def)
  next
    case other
    with h show ?thesis unfolding c by (auto simp: V1_Unknown_Handle_def DispatchThrows_def)
  qed
qed

lemma DispatchThrows_iff: "DispatchThrows request \<longleftrightarrow> bad_subscription request"
proof -
  have s: "VarArgRequest_IsRequest t request \<and> isl (VarArgRequest_new request t) \<longleftrightarrow>
      (\<exists>args. request = RespArray (RespBulkString (Some t) # args) \<and> (\<exists>a \<in> set args. bad_argument a))" for t
  proof (cases "VarArgRequest_IsRequest t request")
    case True
    then show ?thesis using VarArgRequest_throws [OF True] by (auto simp: isl_def)
  next
    case False
    then show ?thesis using VarArgRequest_IsRequest_iff [of t request] by fastforce
  qed
  show ?thesis
    unfolding DispatchThrows_def SubscribeRequest_IsRequest_def UnsubscribeRequest_IsRequest_def SubscribeRequest_new_def
      UnsubscribeRequest_new_def s bad_subscription_def by blast
qed

lemmas DispatchRequest_throws_iff = DispatchRequest_throws [unfolded DispatchThrows_iff]

text \<open>
  The replies of \<open>SUBSCRIBE\<close> and \<open>UNSUBSCRIBE\<close>: one for every channel, in order, each with the count
  of the client's connections after the channel. \<open>UNSUBSCRIBE\<close> counts down only for a channel that
  has an entry, and replies \<open>0\<close> to a client that has never subscribed.
\<close>

fun subscribe_replies :: "int \<Rightarrow> string list \<Rightarrow> int \<Rightarrow> (int \<times> string) list" where
  "subscribe_replies fd [] count = []"
| "subscribe_replies fd (channel # channels) count =
     (fd, Serialize (PubSubResponse ''subscribe'' channel (Integer (count + 1)))) # subscribe_replies fd channels (count + 1)"

fun unsubscribe_replies :: "int \<Rightarrow> (string \<Rightarrow> bool) \<Rightarrow> string list \<Rightarrow> int option \<Rightarrow> (int \<times> string) list" where
  "unsubscribe_replies fd known [] count = []"
| "unsubscribe_replies fd known (channel # channels) count =
     (let count' = map_option (\<lambda>n. if known channel then n - 1 else n) count
      in (fd, Serialize (PubSubResponse ''unsubscribe'' channel (Integer (case count' of None \<Rightarrow> 0 | Some n \<Rightarrow> n)))) #
         unsubscribe_replies fd known channels count')"

lemma SendResponse_keeps [simp]:
  "PubSub_invar (SendResponse fd msg p) = PubSub_invar p" "subscribers (SendResponse fd msg p) = subscribers p"
  "connection_count (SendResponse fd msg p) = connection_count p" "known_channel (SendResponse fd msg p) = known_channel p"
  "outgoing (SendResponse fd msg p) = outgoing p @ [(fd, msg)]"
  by (simp_all add: PubSub_invar_def subscribers_def connection_count_def known_channel_def SendResponse_def fun_eq_iff)

lemma SubscribeLoop_subscribers:
  "PubSub_invar p \<Longrightarrow> PubSub_invar (SubscribeLoop fd channels p) \<and>
     subscribers (SubscribeLoop fd channels p) = (\<lambda>c. if c \<in> set channels then insert fd (subscribers p c) else subscribers p c) \<and>
     outgoing (SubscribeLoop fd channels p) =
       outgoing p @ subscribe_replies fd channels (case connection_count p fd of None \<Rightarrow> 0 | Some n \<Rightarrow> n)"
proof (induction fd channels p rule: SubscribeLoop.induct)
  case (2 fd channel channels p)
  obtain n p1 where r: "Subscribe fd channel p = (n, p1)" by (rule prod.exhaust)
  note c = Subscribe_correct [OF "2.prems" r]
  have n: "(case connection_count p fd of None \<Rightarrow> 0 | Some n \<Rightarrow> n) = n - 1" using c(4) by (simp split: option.split)
  from 2(1) [OF r [symmetric] refl] r c(1,2,3,5) show ?case unfolding n by (auto simp: fun_eq_iff)
qed simp

lemma UnsubscribeLoop_subscribers:
  "PubSub_invar p \<Longrightarrow> PubSub_invar (UnsubscribeLoop fd channels p) \<and>
     subscribers (UnsubscribeLoop fd channels p) = (\<lambda>c. if c \<in> set channels then subscribers p c - {fd} else subscribers p c) \<and>
     outgoing (UnsubscribeLoop fd channels p) =
       outgoing p @ unsubscribe_replies fd (known_channel p) channels (connection_count p fd)"
proof (induction fd channels p rule: UnsubscribeLoop.induct)
  case (2 fd channel channels p)
  obtain n p1 where r: "Unsubscribe fd channel p = (n, p1)" by (rule prod.exhaust)
  note c = Unsubscribe_correct [OF "2.prems" r] and k = Unsubscribe_counts [OF "2.prems" r]
  have n: "map_option (\<lambda>n. if known_channel p channel then n - 1 else n) (connection_count p fd) = connection_count p1 fd"
    "(case connection_count p1 fd of None \<Rightarrow> 0 | Some n \<Rightarrow> n) = n"
    using k(1,2) by (simp_all split: option.splits)
  from 2(1) [OF r [symmetric] refl] r c k(3) n show ?case by (auto simp: fun_eq_iff Let_def)
qed simp

abbreviation word :: "string \<Rightarrow> RespValue" where
  "word s \<equiv> RespBulkString (Some s)"

lemma Dispatch_v1:
  assumes "key \<noteq> []"
  shows "DispatchRequest fd (RespArray [word ''SET'', word key, RespBulkString x]) s =
      Inr (V1_SendResponse fd OK_RESP (s\<lparr>v1_data := StripedHashmap_Insert key x (v1_data s)\<rparr>))"
    and "DispatchRequest fd (RespArray [word ''DEL'', word key]) s =
      Inr (V1_SendResponse fd (Serialize (Integer 1)) (s\<lparr>v1_data := StripedHashmap_Remove key (v1_data s)\<rparr>))"
    and "DispatchRequest fd (RespArray [word ''GET'', word key]) s =
      Inr (V1_SendResponse fd (Serialize (BulkString (case StripedHashmap_LookUp (v1_data s) key of None \<Rightarrow> None | Some v \<Rightarrow> v))) s)"
  using assms by (simp_all add: DispatchRequest_cases IsRequest_defs V1_Set_Handle_def V1_Del_Handle_def V1_Get_Handle_def
    DelRequest_new_def GetRequest_new_def getFirstArg_def valid_string_iff Let_def NullBulkString_def BulkString_def split: option.split)

lemma Dispatch_v1_channels:
  assumes "channels \<noteq> []" and "[] \<notin> set channels"
  shows "DispatchRequest fd (RespArray (word ''SUBSCRIBE'' # map word channels)) s =
      Inr (s\<lparr>v1_channels := SubscribeLoop fd channels (v1_channels s)\<rparr>)"
    and "DispatchRequest fd (RespArray (word ''UNSUBSCRIBE'' # map word channels)) s =
      Inr (s\<lparr>v1_channels := UnsubscribeLoop fd channels (v1_channels s)\<rparr>)"
  using assms VarArgs_strings [OF assms(2)]
  by (simp_all add: DispatchRequest_cases IsRequest_defs V1_Subscribe_Handle_def V1_Unsubscribe_Handle_def
    SubscribeRequest_new_def UnsubscribeRequest_new_def Let_def)

definition V1_invar :: "V1_State \<Rightarrow> bool" where
  "V1_invar s \<longleftrightarrow> StripedHashmap_invar (v1_data s) \<and> PubSub_invar (v1_channels s)"

abbreviation v1_sent :: "V1_State \<Rightarrow> (int \<times> string) list" where
  "v1_sent s \<equiv> outgoing (v1_channels s)"

lemma V1_SendResponse_simps [simp]:
  "v1_data (V1_SendResponse fd msg s) = v1_data s" "v1_sent (V1_SendResponse fd msg s) = v1_sent s @ [(fd, msg)]"
  "V1_invar (V1_SendResponse fd msg s) = V1_invar s"
  by (simp_all add: V1_SendResponse_def SendResponse_def V1_invar_def PubSub_invar_def subscribers_def)

section \<open>Properties\<close>

text \<open>
  \<^bold>\<open>C39\<close>. Which requests make the dispatcher throw: exactly \<open>SUBSCRIBE\<close> and \<open>UNSUBSCRIBE\<close> with an
  argument that is not a bulk string, or is null or empty, whatever the state. \<open>IsRequest\<close> does not look at
  the arguments and the constructor of the request then throws. Nothing catches the exception, so
  one such request of one client ends the server. Every other request is handled.
\<close>

theorem v1_dispatch_throws:
  "(\<exists>e. DispatchRequest client_fd request s = Inl e) \<longleftrightarrow> bad_subscription request"
  by (rule DispatchRequest_throws_iff)

text \<open>
  \<^bold>\<open>C40\<close>. What the commands of the first server do, on a well-formed state, with a key and channels
  that are not empty, when no other request runs at the same time: \<open>SET\<close> and \<open>DEL\<close> change the
  binding of their key and nothing else and reply \<open>OK\<close> and \<open>1\<close>, \<open>GET\<close> replies with the value of its
  key or null, and \<open>SUBSCRIBE\<close> and \<open>UNSUBSCRIBE\<close> add the client to and remove it from exactly the
  channels they name and reply once for every channel with the count of the client's
  connections. The state stays well-formed.
\<close>

theorem v1_commands:
  assumes "V1_invar s" and "key \<noteq> []" and "channels \<noteq> []" and "[] \<notin> set channels"
  shows "(\<exists>s1. DispatchRequest fd (RespArray [word ''SET'', word key, RespBulkString x]) s = Inr s1 \<and> V1_invar s1
        \<and> StripedHashmap_LookUp (v1_data s1) = (StripedHashmap_LookUp (v1_data s))(key \<mapsto> x) \<and> v1_sent s1 = v1_sent s @ [(fd, OK_RESP)])
    \<and> (\<exists>s1. DispatchRequest fd (RespArray [word ''DEL'', word key]) s = Inr s1 \<and> V1_invar s1
        \<and> StripedHashmap_LookUp (v1_data s1) = (StripedHashmap_LookUp (v1_data s))(key := None)
        \<and> v1_sent s1 = v1_sent s @ [(fd, Serialize (Integer 1))])
    \<and> (\<exists>s1. DispatchRequest fd (RespArray [word ''GET'', word key]) s = Inr s1 \<and> V1_invar s1 \<and> v1_data s1 = v1_data s
        \<and> v1_sent s1 = v1_sent s @ [(fd, Serialize (BulkString (case StripedHashmap_LookUp (v1_data s) key of None \<Rightarrow> None | Some v \<Rightarrow> v)))])
    \<and> (\<exists>s1. DispatchRequest fd (RespArray (word ''SUBSCRIBE'' # map word channels)) s = Inr s1 \<and> V1_invar s1 \<and> v1_data s1 = v1_data s
        \<and> subscribers (v1_channels s1) = (\<lambda>c. subscribers (v1_channels s) c \<union> (if c \<in> set channels then {fd} else {}))
        \<and> v1_sent s1 = v1_sent s @ subscribe_replies fd channels (case connection_count (v1_channels s) fd of None \<Rightarrow> 0 | Some n \<Rightarrow> n))
    \<and> (\<exists>s1. DispatchRequest fd (RespArray (word ''UNSUBSCRIBE'' # map word channels)) s = Inr s1 \<and> V1_invar s1 \<and> v1_data s1 = v1_data s
        \<and> subscribers (v1_channels s1) = (\<lambda>c. subscribers (v1_channels s) c - (if c \<in> set channels then {fd} else {}))
        \<and> v1_sent s1 = v1_sent s @
            unsubscribe_replies fd (known_channel (v1_channels s)) channels (connection_count (v1_channels s) fd))"
proof -
  have d: "StripedHashmap_invar (v1_data s)" and p: "PubSub_invar (v1_channels s)" using assms(1) by (simp_all add: V1_invar_def)
  note sub = SubscribeLoop_subscribers [OF p, of fd channels] and unsub = UnsubscribeLoop_subscribers [OF p, of fd channels]
  have "V1_invar (s\<lparr>v1_data := StripedHashmap_Insert key x (v1_data s)\<rparr>)" "V1_invar (s\<lparr>v1_data := StripedHashmap_Remove key (v1_data s)\<rparr>)"
    "V1_invar (s\<lparr>v1_channels := SubscribeLoop fd channels (v1_channels s)\<rparr>)"
    "V1_invar (s\<lparr>v1_channels := UnsubscribeLoop fd channels (v1_channels s)\<rparr>)"
    using d p sub unsub by (simp_all add: V1_invar_def shm.insert_invar shm.remove_invar)
  with assms(1) sub unsub show ?thesis
    by (simp add: Dispatch_v1 [OF assms(2)] Dispatch_v1_channels [OF assms(3,4)] shm.lookup_insert [OF d] shm.lookup_remove [OF d] fun_eq_iff)
qed

lemma V1_State_new_invar: "V1_invar (V1_State_new hash)"
  by (simp add: V1_invar_def V1_State_new_def StripedHashmap_new_correct PubSubChannels_new_invar)

theorem v1_commands_witness:
  "\<exists>s1. DispatchRequest 7 (RespArray [word ''SET'', word ''k'', RespBulkString (Some ''v'')]) (V1_State_new length) = Inr s1
    \<and> StripedHashmap_LookUp (v1_data s1) ''k'' = Some (Some ''v'')"
proof -
  have "''k'' \<noteq> []" "[''c''] \<noteq> []" "[] \<notin> set [''c'']" by simp_all
  from v1_commands [OF V1_State_new_invar this, of 7 "Some ''v''" length] show ?thesis by auto
qed

end
