(* ===== verification/Request_Executor.thy ===== *)
theory Request_Executor
  imports Resp_Value_Queue Socket_Io Striped_Hashmap V1_Handlers
begin

text \<open>
  The executor of the first version of the server: \<open>ConcurrentQueue\<close> of \<open>v1/src/concurrent\<close>,
  \<open>RequestExecutor\<close> of \<open>v1/src/server\<close> and the event loop of \<open>ServerApp\<close> that feeds it. The
  main thread reads bytes and submits them as jobs; worker threads take jobs, append the bytes
  to the parser of the client, and one of them executes the requests that are complete.

  The workers interleave. A step is what a thread does under one mutex, or one call of the map of
  the connections, or one call of the dispatcher: taking a job, looking a connection up, inserting
  one, entering a connection, taking the next request, executing it. Calls of the map are single
  steps here, as \<open>Striped_Hashmap\<close> justifies for a table that has not been resized; what overlapping
  calls do to a table after a resize is shown there.

  What the handlers do to the store and the channels is the subject of \<open>V1_Handlers\<close>. For the
  executor it matters only whether the call of the dispatcher returns, and that depends on the
  request alone (\<open>DispatchRequest_throws\<close>). No worker catches an exception, so one that leaves
  \<open>DispatchRequest\<close> or \<open>PopValue\<close> ends the program; \<open>exec_ends\<close> collects these endings.

  \<open>LookUp\<close> returns a reference to the \<open>unique_ptr\<close> inside an entry of the map, and the worker
  dereferences it anew in every block. So what a worker holds is the address of the entry.
  Inserting over an existing binding replaces the connection in the entry; a \<open>Resize\<close> of the map
  moves every connection into a new entry and destroys the old ones. The fields \<open>cc_pushed\<close>,
  \<open>cc_taken\<close>, \<open>executed\<close>, \<open>arrived\<close> and \<open>disturbed\<close> record what happened and influence nothing.
\<close>

section \<open>Connections\<close>

record ClientConnection =
  being_processed :: bool
  resp_value_queue :: RespValueQueue
  cc_pushed :: string
  cc_taken :: "RespValue list"

definition ClientConnection_new :: ClientConnection where
  "ClientConnection_new = \<lparr>being_processed = False, resp_value_queue = empty_queue, cc_pushed = [], cc_taken = []\<rparr>"

text \<open>
  The two blocks of \<open>HandleConnection\<close> that run under the mutex of the connection. The first
  result of \<open>EnterConnection\<close> says whether the worker goes on to execute requests.
\<close>

definition EnterConnection :: "string \<Rightarrow> ClientConnection \<Rightarrow> bool \<times> ClientConnection" where
  "EnterConnection request connection =
     (let connection = connection\<lparr>resp_value_queue := PushString request (resp_value_queue connection),
            cc_pushed := cc_pushed connection @ request\<rparr>
      in if being_processed connection then (False, connection) else (True, connection\<lparr>being_processed := True\<rparr>))"

definition NextRequest :: "ClientConnection \<Rightarrow> RespValue option result \<times> ClientConnection" where
  "NextRequest connection =
     (case PopValue (resp_value_queue connection) of
        (Inl e, q) \<Rightarrow> (Inl e, connection\<lparr>resp_value_queue := q\<rparr>)
      | (Inr None, q) \<Rightarrow> (Inr None, connection\<lparr>resp_value_queue := q, being_processed := False\<rparr>)
      | (Inr (Some resp_request), q) \<Rightarrow>
          (Inr (Some resp_request), connection\<lparr>resp_value_queue := q, cc_taken := cc_taken connection @ [resp_request]\<rparr>))"

section \<open>The executor\<close>

text \<open>
  Where a worker is: waiting for a job, with a job, with a job whose connection was not found,
  after the insertion of a connection, with the entry of the connection, in the loop of
  \<open>HandleConnection\<close>, and with a request to execute.
\<close>

datatype worker =
    WIdle
  | WPopped int string
  | WMissing int string
  | WInserted int string
  | WEntering int nat string
  | WProcessing int nat
  | WDispatching int nat RespValue

fun holds :: "worker \<Rightarrow> (int \<times> nat) option" where
  "holds (WEntering fd e r) = Some (fd, e)"
| "holds (WProcessing fd e) = Some (fd, e)"
| "holds (WDispatching fd e v) = Some (fd, e)"
| "holds _ = None"

record RequestExecutor =
  jobs :: "(int \<times> string) list"
  entry_of :: "int \<rightharpoonup> nat"
  entry_conn :: "nat \<rightharpoonup> ClientConnection"
  next_entry :: nat
  map_size :: nat
  map_buckets :: nat
  workers :: "nat \<Rightarrow> worker"
  executed :: "(int \<times> RespValue) list"
  arrived :: "int \<Rightarrow> string"
  disturbed :: bool

definition RequestExecutor_new :: RequestExecutor where
  "RequestExecutor_new = \<lparr>jobs = [], entry_of = Map.empty, entry_conn = Map.empty, next_entry = 0,
     map_size = 0, map_buckets = DEFAULT_CAPACITY, workers = (\<lambda>_. WIdle), executed = [], arrived = (\<lambda>_. []), disturbed = False\<rparr>"

definition Submit :: "int \<Rightarrow> string \<Rightarrow> RequestExecutor \<Rightarrow> RequestExecutor" where
  "Submit client_fd request s = s\<lparr>jobs := jobs s @ [(client_fd, request)],
     arrived := (arrived s)(client_fd := arrived s client_fd @ request)\<rparr>"

text \<open>
  \<open>Insert\<close> of a new connection into the map, with the \<open>Resize\<close> it may need: the entries get new
  addresses.
\<close>

definition MapFull :: "RequestExecutor \<Rightarrow> bool" where
  "MapFull s \<longleftrightarrow> map_buckets s = 0 \<or> of_nat (map_size s) > of_nat (map_buckets s) * DEFAULT_LOAD_FACTOR"

definition MapResize :: "RequestExecutor \<Rightarrow> RequestExecutor" where
  "MapResize s = s\<lparr>entry_of := (\<lambda>fd. map_option ((+) (next_entry s)) (entry_of s fd)),
     entry_conn := (\<lambda>e. if e < next_entry s then None else entry_conn s (e - next_entry s)),
     next_entry := next_entry s + next_entry s, map_buckets := max 2 (map_size s * 2)\<rparr>"

definition InsertConnection :: "int \<Rightarrow> RequestExecutor \<Rightarrow> RequestExecutor" where
  "InsertConnection client_fd s =
     (let s = (if MapFull s then MapResize s else s)
      in case entry_of s client_fd of
           None \<Rightarrow> s\<lparr>entry_of := (entry_of s)(client_fd \<mapsto> next_entry s),
             entry_conn := (entry_conn s)(next_entry s \<mapsto> ClientConnection_new),
             next_entry := next_entry s + 1, map_size := map_size s + 1\<rparr>
         | Some e \<Rightarrow> s\<lparr>entry_conn := (entry_conn s)(e \<mapsto> ClientConnection_new)\<rparr>)"

text \<open>An insertion disturbs when it replaces a connection or destroys an entry that one of \<open>n\<close> workers holds.\<close>

definition Disturbs :: "nat \<Rightarrow> int \<Rightarrow> RequestExecutor \<Rightarrow> bool" where
  "Disturbs n client_fd s \<longleftrightarrow> entry_of s client_fd \<noteq> None \<or> (MapFull s \<and> (\<exists>t<n. holds (workers s t) \<noteq> None))"

abbreviation move :: "nat \<Rightarrow> worker \<Rightarrow> RequestExecutor \<Rightarrow> RequestExecutor" where
  "move t w s \<equiv> s\<lparr>workers := (workers s)(t := w)\<rparr>"

text \<open>
  One step of the main thread or of one of \<open>n\<close> workers. A worker whose \<open>PopValue\<close> or whose
  \<open>DispatchRequest\<close> throws, or that fails an assertion, ends the program (\<open>exec_ends\<close>); for a worker
  that uses an entry that has been destroyed there is no step.
\<close>

inductive exec_step :: "nat \<Rightarrow> RequestExecutor \<Rightarrow> RequestExecutor \<Rightarrow> bool" for n where
  ex_submit: "exec_step n s (Submit client_fd request s)"
| ex_pop: "t < n \<Longrightarrow> workers s t = WIdle \<Longrightarrow> jobs s = (client_fd, request) # rest \<Longrightarrow>
    exec_step n s (move t (WPopped client_fd request) (s\<lparr>jobs := rest\<rparr>))"
| ex_found: "t < n \<Longrightarrow> workers s t = WPopped client_fd request \<Longrightarrow> entry_of s client_fd = Some e \<Longrightarrow>
    exec_step n s (move t (WEntering client_fd e request) s)"
| ex_missing: "t < n \<Longrightarrow> workers s t = WPopped client_fd request \<Longrightarrow> entry_of s client_fd = None \<Longrightarrow>
    exec_step n s (move t (WMissing client_fd request) s)"
| ex_insert: "t < n \<Longrightarrow> workers s t = WMissing client_fd request \<Longrightarrow>
    exec_step n s (move t (WInserted client_fd request)
      ((InsertConnection client_fd s)\<lparr>disturbed := disturbed s \<or> Disturbs n client_fd s\<rparr>))"
| ex_lookup: "t < n \<Longrightarrow> workers s t = WInserted client_fd request \<Longrightarrow> entry_of s client_fd = Some e \<Longrightarrow>
    exec_step n s (move t (WEntering client_fd e request) s)"
| ex_enter: "t < n \<Longrightarrow> workers s t = WEntering client_fd e request \<Longrightarrow> entry_conn s e = Some conn \<Longrightarrow>
    EnterConnection request conn = (go, conn') \<Longrightarrow>
    exec_step n s (move t (if go then WProcessing client_fd e else WIdle) (s\<lparr>entry_conn := (entry_conn s)(e \<mapsto> conn')\<rparr>))"
| ex_drained: "t < n \<Longrightarrow> workers s t = WProcessing client_fd e \<Longrightarrow> entry_conn s e = Some conn \<Longrightarrow> being_processed conn \<Longrightarrow>
    NextRequest conn = (Inr None, conn') \<Longrightarrow>
    exec_step n s (move t WIdle (s\<lparr>entry_conn := (entry_conn s)(e \<mapsto> conn')\<rparr>))"
| ex_take: "t < n \<Longrightarrow> workers s t = WProcessing client_fd e \<Longrightarrow> entry_conn s e = Some conn \<Longrightarrow> being_processed conn \<Longrightarrow>
    NextRequest conn = (Inr (Some resp_request), conn') \<Longrightarrow>
    exec_step n s (move t (WDispatching client_fd e resp_request) (s\<lparr>entry_conn := (entry_conn s)(e \<mapsto> conn')\<rparr>))"
| ex_dispatch: "t < n \<Longrightarrow> workers s t = WDispatching client_fd e resp_request \<Longrightarrow> \<not> DispatchThrows resp_request \<Longrightarrow>
    exec_step n s (move t (WProcessing client_fd e) (s\<lparr>executed := executed s @ [(client_fd, resp_request)]\<rparr>))"

inductive exec_ends :: "nat \<Rightarrow> RequestExecutor \<Rightarrow> bool" for n where
  end_lookup: "t < n \<Longrightarrow> workers s t = WInserted client_fd request \<Longrightarrow> entry_of s client_fd = None \<Longrightarrow> exec_ends n s"
| end_mark: "t < n \<Longrightarrow> workers s t = WProcessing client_fd e \<Longrightarrow> entry_conn s e = Some conn \<Longrightarrow> \<not> being_processed conn \<Longrightarrow> exec_ends n s"
| end_parse: "t < n \<Longrightarrow> workers s t = WProcessing client_fd e \<Longrightarrow> entry_conn s e = Some conn \<Longrightarrow> being_processed conn \<Longrightarrow>
    NextRequest conn = (Inl exception, conn') \<Longrightarrow> exec_ends n s"
| end_dispatch: "t < n \<Longrightarrow> workers s t = WDispatching client_fd e resp_request \<Longrightarrow> DispatchThrows resp_request \<Longrightarrow> exec_ends n s"

abbreviation exec_reachable :: "nat \<Rightarrow> RequestExecutor \<Rightarrow> bool" where
  "exec_reachable n s \<equiv> (exec_step n)\<^sup>*\<^sup>* RequestExecutor_new s"

section \<open>The stream of a connection\<close>

definition stream_ok :: "RespValue list \<Rightarrow> RespValue list \<Rightarrow> RespValueQueue \<Rightarrow> string \<Rightarrow> bool" where
  "stream_ok reqs taken q fut \<longleftrightarrow>
     (\<exists>ws. reqs = taken @ rvq_values q @ ws \<and> rvq_buffer q @ fut = concat (map Serialize ws))"

lemma PopLoop_values: "PopLoop q = (e, q') \<Longrightarrow> q' = q \<or> rvq_values q' \<noteq> []"
proof (induction q rule: PopLoop.induct)
  case (1 q)
  show ?case
  proof (cases "FromString (rvq_buffer q)")
    case (Inl x)
    with 1 show ?thesis by (simp add: PopLoop.simps [of q])
  next
    case (Inr vp)
    obtain v p where vp: "vp = (v, p)" by (cases vp)
    let ?q = "q\<lparr>rvq_values := rvq_values q @ [v],
      rvq_buffer := (if p < length (rvq_buffer q) then drop p (rvq_buffer q) else [])\<rparr>"
    have "PopLoop ?q = (e, q')" using "1.prems" Inr vp by (simp add: PopLoop.simps [of q])
    with "1.IH" [OF Inr, of v p] vp have "q' = ?q \<or> rvq_values q' \<noteq> []" by simp
    then show ?thesis by auto
  qed
qed

lemma PopValue_None:
  assumes "PopValue q = (Inr None, q')"
  shows "q' = q" and "rvq_values q = []" and "\<exists>m. FromString (rvq_buffer q) = Inl (out_of_range m)"
proof -
  obtain e q1 where p: "PopLoop q = (e, q1)" by (rule prod.exhaust)
  with assms have e: "is_out_of_range e" "rvq_values q1 = []" "q' = q1"
    by (auto simp: PopValue_def split: if_splits list.splits)
  have q: "q1 = q" using PopLoop_values [OF p] e(2) by blast
  with e show "q' = q" and "rvq_values q = []" by simp_all
  show "\<exists>m. FromString (rvq_buffer q) = Inl (out_of_range m)" using PopLoop_stops [OF p] e(1) q by (cases e) simp_all
qed

lemma PopValue_stream:
  assumes "list_all wf_resp reqs" and "stream_ok reqs taken q fut"
  obtains r q' where "PopValue q = (Inr r, q')" "stream_ok reqs (taken @ (case r of None \<Rightarrow> [] | Some v \<Rightarrow> [v])) q' fut"
proof -
  obtain ws where ws: "reqs = taken @ rvq_values q @ ws" "rvq_buffer q @ fut = concat (map Serialize ws)"
    using assms(2) by (auto simp: stream_ok_def)
  have wf: "list_all wf_resp ws" using assms(1) ws(1) by simp
  obtain vs ws' b m where h: "ws = vs @ ws'" "b @ fut = concat (map Serialize ws')" and "FromString b = Inl (out_of_range m)"
    and p: "PopLoop q = (out_of_range m, q\<lparr>rvq_values := rvq_values q @ vs, rvq_buffer := b\<rparr>)"
    by (rule PopLoop_stream [OF wf ws(2)])
  show thesis
  proof (cases "rvq_values q @ vs")
    case Nil
    let ?q = "q\<lparr>rvq_values := rvq_values q @ vs, rvq_buffer := b\<rparr>"
    have "PopValue q = (Inr None, ?q)" using p Nil by (simp add: PopValue_def)
    moreover have "stream_ok reqs taken ?q fut" using h ws Nil by (auto simp: stream_ok_def)
    ultimately show ?thesis using that [of None ?q] by simp
  next
    case (Cons v us)
    let ?q = "q\<lparr>rvq_values := us, rvq_buffer := b\<rparr>"
    have "PopValue q = (Inr (Some v), ?q)" using p Cons by (simp add: PopValue_def)
    moreover have "reqs = (taken @ [v]) @ us @ ws'" using h(1) ws(1) Cons by (metis append.assoc append_Cons append_Nil)
    then have "stream_ok reqs (taken @ [v]) ?q fut" using h(2) by (auto simp: stream_ok_def)
    ultimately show ?thesis using that [of "Some v" ?q] by simp
  qed
qed

lemma stream_ok_push: "stream_ok reqs taken q (b @ fut) \<Longrightarrow> stream_ok reqs taken (PushString b q) fut"
  by (simp add: stream_ok_def PushString_def)

lemma stream_ok_end:
  assumes "stream_ok reqs taken q []" and "list_all wf_resp reqs" and "PopValue q = (Inr None, q)"
  shows "taken = reqs"
proof -
  obtain ws where ws: "reqs = taken @ ws" "rvq_buffer q = concat (map Serialize ws)"
    using assms(1) PopValue_None(2) [OF assms(3)] by (auto simp: stream_ok_def)
  have "ws = []"
  proof (rule ccontr)
    assume "ws \<noteq> []"
    then obtain w ws' where w: "ws = w # ws'" by (cases ws) auto
    with PopValue_None(3) [OF assms(3)] FromString_Serialize [of w "concat (map Serialize ws')"] assms(2) ws show False by auto
  qed
  with ws show ?thesis by simp
qed

section \<open>The invariant of the executor\<close>

fun busy :: "worker \<Rightarrow> int option" where
  "busy (WProcessing fd e) = Some fd"
| "busy (WDispatching fd e v) = Some fd"
| "busy _ = None"

fun dispatching :: "worker \<Rightarrow> (int \<times> RespValue) option" where
  "dispatching (WDispatching fd e v) = Some (fd, v)"
| "dispatching _ = None"

definition exec_of :: "(int \<times> RespValue) list \<Rightarrow> int \<Rightarrow> RespValue list" where
  "exec_of E fd = map snd (filter (\<lambda>(fd', v). fd' = fd) E)"

lemma exec_of_simps [simp]:
  "exec_of [] fd = []" "exec_of (E @ [(fd', v)]) fd = exec_of E fd @ (if fd' = fd then [v] else [])"
  by (auto simp: exec_of_def)

text \<open>
  A connection, given which client each worker is busy with, what it is about to execute, and
  what has been executed: a connection is marked as being processed exactly when a worker is busy
  with it; when none is, nothing that can be executed is left in its queue; and the requests
  taken from it are those its bytes encode, in order.
\<close>

definition cc_ok :: "(nat \<Rightarrow> int option) \<Rightarrow> (nat \<Rightarrow> (int \<times> RespValue) option) \<Rightarrow> (int \<times> RespValue) list \<Rightarrow> int \<Rightarrow> ClientConnection \<Rightarrow> bool" where
  "cc_ok B D E c conn \<longleftrightarrow> (being_processed conn \<longleftrightarrow> (\<exists>t. B t = Some c)) \<and>
     (\<not> being_processed conn \<longrightarrow> PopValue (resp_value_queue conn) = (Inr None, resp_value_queue conn)) \<and>
     (\<forall>reqs fut. list_all wf_resp reqs \<and> cc_pushed conn @ fut = concat (map Serialize reqs) \<longrightarrow>
        stream_ok reqs (cc_taken conn) (resp_value_queue conn) fut) \<and>
     (\<forall>t v. D t = Some (c, v) \<longrightarrow> cc_taken conn = exec_of E c @ [v]) \<and>
     ((\<forall>t v. D t \<noteq> Some (c, v)) \<longrightarrow> cc_taken conn = exec_of E c)"

definition exec_inv :: "(nat \<Rightarrow> int option) \<Rightarrow> (nat \<Rightarrow> (int \<times> RespValue) option) \<Rightarrow> (int \<rightharpoonup> ClientConnection) \<Rightarrow>
    (int \<times> RespValue) list \<Rightarrow> bool" where
  "exec_inv B D G E \<longleftrightarrow> (\<forall>t t' c. B t = Some c \<and> B t' = Some c \<longrightarrow> t = t') \<and> (\<forall>t c. B t = Some c \<longrightarrow> (\<exists>conn. G c = Some conn)) \<and>
     (\<forall>c v. (c, v) \<in> set E \<longrightarrow> (\<exists>conn. G c = Some conn)) \<and> (\<forall>t c v. D t = Some (c, v) \<longrightarrow> B t = Some c) \<and>
     (\<forall>c conn. G c = Some conn \<longrightarrow> cc_ok B D E c conn)"

lemma exec_invD:
  assumes "exec_inv B D G E"
  shows "B t = Some c \<Longrightarrow> B t' = Some c \<Longrightarrow> t = t'" and "B t = Some c \<Longrightarrow> \<exists>conn. G c = Some conn"
    and "(c, v) \<in> set E \<Longrightarrow> \<exists>conn. G c = Some conn" and "D t = Some (c, v) \<Longrightarrow> B t = Some c"
    and "G c = Some conn \<Longrightarrow> cc_ok B D E c conn"
  using assms unfolding exec_inv_def by blast+

lemma exec_invI:
  assumes "\<And>t t' c. B t = Some c \<Longrightarrow> B t' = Some c \<Longrightarrow> t = t'" and "\<And>t c. B t = Some c \<Longrightarrow> \<exists>conn. G c = Some conn"
    and "\<And>c v. (c, v) \<in> set E \<Longrightarrow> \<exists>conn. G c = Some conn"
    and "\<And>t c v. D t = Some (c, v) \<Longrightarrow> B t = Some c" and "\<And>c conn. G c = Some conn \<Longrightarrow> cc_ok B D E c conn"
  shows "exec_inv B D G E"
  using assms unfolding exec_inv_def by blast

lemma cc_okD:
  assumes "cc_ok B D E c conn"
  shows "being_processed conn \<longleftrightarrow> (\<exists>t. B t = Some c)"
    and "\<not> being_processed conn \<Longrightarrow> PopValue (resp_value_queue conn) = (Inr None, resp_value_queue conn)"
    and "list_all wf_resp reqs \<Longrightarrow> cc_pushed conn @ fut = concat (map Serialize reqs) \<Longrightarrow>
      stream_ok reqs (cc_taken conn) (resp_value_queue conn) fut"
    and "D t = Some (c, v) \<Longrightarrow> cc_taken conn = exec_of E c @ [v]"
    and "(\<And>t v. D t \<noteq> Some (c, v)) \<Longrightarrow> cc_taken conn = exec_of E c"
  using assms unfolding cc_ok_def by blast+

lemma new_conn_ok:
  assumes "exec_inv B D G E" and "G c = None"
  shows "cc_ok B D E c ClientConnection_new"
proof -
  note d = exec_invD [OF assms(1)]
  have "(c, v) \<notin> set E" for v using d(3) assms(2) by fastforce
  then have "exec_of E c = []" by (auto simp: exec_of_def filter_empty_conv)
  moreover have "B t \<noteq> Some c" "D t \<noteq> Some (c, v)" for t v using d(2,4) assms(2) by fastforce+
  moreover have "PopValue empty_queue = (Inr None, empty_queue)"
    by (simp add: PopValue_def PopLoop.simps FromString_def ParseVariant.simps empty_queue_def)
  ultimately show ?thesis
    by (auto simp: cc_ok_def ClientConnection_new_def stream_ok_def empty_queue_def)
qed

text \<open>A step that concerns one connection only.\<close>

lemma exec_inv_update:
  assumes inv: "exec_inv B D G E"
    and others: "\<And>c'. c' \<noteq> c \<Longrightarrow> G' c' = G c'" "\<And>t c'. c' \<noteq> c \<Longrightarrow> B' t = Some c' \<longleftrightarrow> B t = Some c'"
      "\<And>t c' v. c' \<noteq> c \<Longrightarrow> D' t = Some (c', v) \<longleftrightarrow> D t = Some (c', v)"
      "\<And>c'. c' \<noteq> c \<Longrightarrow> exec_of E' c' = exec_of E c'" "\<And>c' v. c' \<noteq> c \<Longrightarrow> (c', v) \<in> set E' \<Longrightarrow> (c', v) \<in> set E"
    and own: "\<And>t t'. B' t = Some c \<Longrightarrow> B' t' = Some c \<Longrightarrow> t = t'" "\<And>t v. D' t = Some (c, v) \<Longrightarrow> B' t = Some c"
      "G' c = Some conn" "cc_ok B' D' E' c conn"
  shows "exec_inv B' D' G' E'"
proof (rule exec_invI)
  note d = exec_invD [OF inv]
  show "t = t'" if "B' t = Some c'" "B' t' = Some c'" for t t' c'
    using that own(1) others(2) d(1) by (cases "c' = c") blast+
  show "\<exists>conn. G' c' = Some conn" if "B' t = Some c'" for t c'
    using that own(3) others(1,2) d(2) by (cases "c' = c") auto
  show "\<exists>conn. G' c' = Some conn" if "(c', v) \<in> set E'" for c' v
    using that own(3) others(1) [of c'] d(3) [OF others(5)] by (cases "c' = c") auto
  show "B' t = Some c'" if "D' t = Some (c', v)" for t c' v using that own(2) others(2,3) d(4) by (cases "c' = c") blast+
  show "cc_ok B' D' E' c' conn'" if h: "G' c' = Some conn'" for c' conn'
  proof (cases "c' = c")
    case False
    have "cc_ok B D E c' conn'" using d(5) h others(1) [OF False] by simp
    then show ?thesis unfolding cc_ok_def others(2,3,4) [OF False] .
  qed (use h own(3,4) in simp)
qed

lemma insert_conn_ok:
  assumes "exec_inv B D G E" and "G c = None"
  shows "exec_inv B D (G(c \<mapsto> ClientConnection_new)) E"
  by (rule exec_inv_update [where c = c, OF assms(1)])
    (use exec_invD(1,4) [OF assms(1)] new_conn_ok [OF assms] in \<open>auto\<close>)

lemma enter_ok:
  assumes inv: "exec_inv B D G E" and c: "G c = Some conn" and t: "B t = None" "D t = None"
    and e: "EnterConnection request conn = (go, conn')"
  shows "exec_inv (B(t := if go then Some c else None)) (D(t := None)) (G(c \<mapsto> conn')) E"
proof (rule exec_inv_update [where c = c, OF inv])
  note d = exec_invD [OF inv] and k = cc_okD [OF exec_invD(5) [OF inv c]]
  let ?B = "B(t := if go then Some c else None)"
  have go: "go \<longleftrightarrow> \<not> being_processed conn" and conn': "being_processed conn'" "cc_taken conn' = cc_taken conn"
    "resp_value_queue conn' = PushString request (resp_value_queue conn)" "cc_pushed conn' = cc_pushed conn @ request"
    using e by (auto simp: EnterConnection_def Let_def split: if_splits)
  have busy': "?B t' = Some c \<longleftrightarrow> (if go then t' = t else B t' = Some c)" for t'
    using t k(1) go by (cases "t' = t") auto
  show "t1 = t2" if "?B t1 = Some c" "?B t2 = Some c" for t1 t2
    using that d(1) busy' [of t1] busy' [of t2] by (auto split: if_splits)
  show "?B t' = Some c" if "(D(t := None)) t' = Some (c, v)" for t' v
    using that d(4) [of t' c v] k(1) go by (auto split: if_splits)
  have "\<exists>t'. ?B t' = Some c" using busy' k(1) go by (metis (full_types))
  moreover have "stream_ok reqs (cc_taken conn') (resp_value_queue conn') fut"
    if "list_all wf_resp reqs" "cc_pushed conn' @ fut = concat (map Serialize reqs)" for reqs fut
    using k(3) [OF that(1), of "request @ fut"] that(2) stream_ok_push by (simp add: conn')
  moreover have "(D(t := None)) = D" using t(2) by auto
  ultimately show "cc_ok ?B (D(t := None)) E c conn'"
    using conn'(1,2) k(4,5) by (simp add: cc_ok_def)
qed (use t in \<open>auto split: if_splits\<close>)

lemma drained_ok:
  assumes inv: "exec_inv B D G E" and c: "G c = Some conn" and t: "B t = Some c" "D t = None"
    and e: "NextRequest conn = (Inr None, conn')"
  shows "exec_inv (B(t := None)) (D(t := None)) (G(c \<mapsto> conn')) E"
proof (rule exec_inv_update [where c = c, OF inv])
  note d = exec_invD [OF inv] and k = cc_okD [OF exec_invD(5) [OF inv c]]
  obtain q where q: "PopValue (resp_value_queue conn) = (Inr None, q)" "conn' = conn\<lparr>resp_value_queue := q, being_processed := False\<rparr>"
    using e by (auto simp: NextRequest_def split: prod.splits sum.splits option.splits)
  note n = PopValue_None [OF q(1)]
  have free: "(B(t := None)) t' \<noteq> Some c" for t' using d(1) [OF t(1), of t'] by auto
  then show "t1 = t2" if "(B(t := None)) t1 = Some c" "(B(t := None)) t2 = Some c" for t1 t2 using that by blast
  have none: "D t' \<noteq> Some (c, v)" for t' v using d(4) [of t' c v] d(1) [OF t(1), of t'] t(2) by auto
  then show "(B(t := None)) t' = Some c" if "(D(t := None)) t' = Some (c, v)" for t' v using that by (auto split: if_splits)
  have "(D(t := None)) = D" using t(2) by auto
  then show "cc_ok (B(t := None)) (D(t := None)) E c conn'"
    using free none k(3,5) q n(1) by (auto simp: cc_ok_def)
qed (use t in \<open>auto split: if_splits\<close>)

lemma take_ok:
  assumes inv: "exec_inv B D G E" and c: "G c = Some conn" and t: "B t = Some c" "D t = None"
    and e: "NextRequest conn = (Inr (Some v), conn')"
  shows "exec_inv (B(t := Some c)) (D(t := Some (c, v))) (G(c \<mapsto> conn')) E"
proof (rule exec_inv_update [where c = c, OF inv])
  note d = exec_invD [OF inv] and k = cc_okD [OF exec_invD(5) [OF inv c]]
  obtain q where q: "PopValue (resp_value_queue conn) = (Inr (Some v), q)"
      "conn' = conn\<lparr>resp_value_queue := q, cc_taken := cc_taken conn @ [v]\<rparr>"
    using e by (auto simp: NextRequest_def split: prod.splits sum.splits option.splits)
  have B: "B(t := Some c) = B" using t(1) by auto
  show "t1 = t2" if "(B(t := Some c)) t1 = Some c" "(B(t := Some c)) t2 = Some c" for t1 t2 using that d(1) unfolding B by blast
  have none: "D t' \<noteq> Some (c, v')" for t' v' using d(4) [of t' c v'] d(1) [OF t(1), of t'] t(2) by auto
  then show "(B(t := Some c)) t' = Some c" if "(D(t := Some (c, v))) t' = Some (c, v')" for t' v' using that by (auto split: if_splits)
  have "stream_ok reqs (cc_taken conn @ [v]) q fut"
    if "list_all wf_resp reqs" "cc_pushed conn @ fut = concat (map Serialize reqs)" for reqs fut
    using PopValue_stream [OF that(1) k(3) [OF that]] q(1) by (metis Inr_inject option.simps(5) prod.inject)
  then show "cc_ok (B(t := Some c)) (D(t := Some (c, v))) E c conn'"
    using none k(1,5) q(2) t(1) unfolding B by (auto simp: cc_ok_def)
qed (use t in \<open>auto split: if_splits\<close>)

lemma dispatch_ok:
  assumes inv: "exec_inv B D G E" and t: "D t = Some (c, v)"
  shows "exec_inv (B(t := Some c)) (D(t := None)) G (E @ [(c, v)])"
proof -
  note d = exec_invD [OF inv]
  have b: "B t = Some c" using d(4) [OF t] .
  then obtain conn where c: "G c = Some conn" using d(2) by blast
  have B: "B(t := Some c) = B" using b by auto
  have none: "(D(t := None)) t' \<noteq> Some (c, v')" for t' v' using d(4) [of t' c v'] d(1) [OF b, of t'] by auto
  have "cc_ok B (D(t := None)) (E @ [(c, v)]) c conn" using cc_okD [OF d(5) [OF c]] none t by (auto simp: cc_ok_def)
  then show ?thesis unfolding B using t d(1,4) none c by (intro exec_inv_update [where c = c, OF inv]) (auto split: if_splits)
qed

section \<open>Entries\<close>

definition conn_at :: "(int \<rightharpoonup> nat) \<Rightarrow> (nat \<rightharpoonup> ClientConnection) \<Rightarrow> int \<rightharpoonup> ClientConnection" where
  "conn_at M H fd = (case M fd of None \<Rightarrow> None | Some e \<Rightarrow> H e)"

abbreviation client_conn :: "RequestExecutor \<Rightarrow> int \<rightharpoonup> ClientConnection" where
  "client_conn s \<equiv> conn_at (entry_of s) (entry_conn s)"

definition entries_ok :: "(int \<rightharpoonup> nat) \<Rightarrow> (nat \<rightharpoonup> ClientConnection) \<Rightarrow> nat \<Rightarrow> (nat \<Rightarrow> (int \<times> nat) option) \<Rightarrow> bool" where
  "entries_ok M H N A \<longleftrightarrow> (\<forall>fd e. M fd = Some e \<longrightarrow> e < N) \<and> (\<forall>fd e. M fd = Some e \<longrightarrow> (\<exists>conn. H e = Some conn)) \<and>
     (\<forall>fd fd' e. M fd = Some e \<and> M fd' = Some e \<longrightarrow> fd = fd') \<and> (\<forall>t fd e. A t = Some (fd, e) \<longrightarrow> M fd = Some e)"

lemma entries_okD:
  assumes "entries_ok M H N A"
  shows "M fd = Some e \<Longrightarrow> e < N" and "M fd = Some e \<Longrightarrow> \<exists>conn. H e = Some conn"
    and "M fd = Some e \<Longrightarrow> M fd' = Some e \<Longrightarrow> fd = fd'" and "A t = Some (fd, e) \<Longrightarrow> M fd = Some e"
  using assms unfolding entries_ok_def by blast+

lemma entries_okI:
  assumes "\<And>fd e. M fd = Some e \<Longrightarrow> e < N" and "\<And>fd e. M fd = Some e \<Longrightarrow> \<exists>conn. H e = Some conn"
    and "\<And>fd fd' e. M fd = Some e \<Longrightarrow> M fd' = Some e \<Longrightarrow> fd = fd'" and "\<And>t fd e. A t = Some (fd, e) \<Longrightarrow> M fd = Some e"
  shows "entries_ok M H N A"
  using assms unfolding entries_ok_def by blast

lemma entries_ok_hold:
  "entries_ok M H N A \<Longrightarrow> (\<And>fd e. h = Some (fd, e) \<Longrightarrow> M fd = Some e) \<Longrightarrow> entries_ok M H N (A(t := h))"
  by (simp add: entries_ok_def)

lemma entries_ok_conn:
  assumes "entries_ok M H N A" and "M fd = Some e"
  shows "entries_ok M (H(e \<mapsto> conn)) N A" and "conn_at M (H(e \<mapsto> conn)) = (conn_at M H)(fd \<mapsto> conn)"
proof -
  note d = entries_okD [OF assms(1)]
  have 2: "\<exists>conn'. (H(e \<mapsto> conn)) e' = Some conn'" if "M fd' = Some e'" for fd' e' using d(2) [OF that] by simp
  show "entries_ok M (H(e \<mapsto> conn)) N A" by (rule entries_okI [OF d(1) 2 d(3) d(4)])
  show "conn_at M (H(e \<mapsto> conn)) = (conn_at M H)(fd \<mapsto> conn)"
  proof (rule ext)
    fix x
    show "conn_at M (H(e \<mapsto> conn)) x = ((conn_at M H)(fd \<mapsto> conn)) x"
      using d(3) [OF assms(2), of x] assms(2) by (cases "M x") (auto simp: conn_at_def)
  qed
qed

lemma entries_ok_new:
  assumes "entries_ok M H N A" and "M fd = None"
  shows "entries_ok (M(fd \<mapsto> N)) (H(N \<mapsto> conn)) (N + 1) A"
    and "conn_at (M(fd \<mapsto> N)) (H(N \<mapsto> conn)) = (conn_at M H)(fd \<mapsto> conn)"
proof -
  note d = entries_okD [OF assms(1)]
  have 1: "e < N + 1" "\<exists>conn'. (H(N \<mapsto> conn)) e = Some conn'" if "(M(fd \<mapsto> N)) fd' = Some e" for fd' e
    using that d(1,2) [of fd' e] by (auto split: if_splits)
  have 2: "fd1 = fd2" if "(M(fd \<mapsto> N)) fd1 = Some e" "(M(fd \<mapsto> N)) fd2 = Some e" for fd1 fd2 e
    using that d(1) [of fd1 e] d(1) [of fd2 e] d(3) [of fd1 e fd2] by (auto split: if_splits)
  have 3: "(M(fd \<mapsto> N)) fd' = Some e" if "A t = Some (fd', e)" for t fd' e using d(4) [OF that] assms(2) by auto
  show "entries_ok (M(fd \<mapsto> N)) (H(N \<mapsto> conn)) (N + 1) A" by (rule entries_okI [OF 1(1) 1(2) 2 3])
  show "conn_at (M(fd \<mapsto> N)) (H(N \<mapsto> conn)) = (conn_at M H)(fd \<mapsto> conn)"
  proof (rule ext)
    fix x
    show "conn_at (M(fd \<mapsto> N)) (H(N \<mapsto> conn)) x = ((conn_at M H)(fd \<mapsto> conn)) x"
      using d(1) [of x N] by (cases "M x") (auto simp: conn_at_def)
  qed
qed

lemma MapResize_simps [simp]:
  "workers (MapResize s) = workers s" "executed (MapResize s) = executed s" "jobs (MapResize s) = jobs s"
  "arrived (MapResize s) = arrived s" "map_size (MapResize s) = map_size s" "client_conn (MapResize s) = client_conn s"
  "entry_of (MapResize s) fd = None \<longleftrightarrow> entry_of s fd = None"
  by (auto simp: MapResize_def conn_at_def fun_eq_iff split: option.splits)

lemma MapResize_entries:
  assumes "entries_ok (entry_of s) (entry_conn s) (next_entry s) A" and "A = (\<lambda>_. None)"
  shows "entries_ok (entry_of (MapResize s)) (entry_conn (MapResize s)) (next_entry (MapResize s)) A"
  using entries_okD(1-3) [OF assms(1)] assms(2) by (intro entries_okI) (auto simp: MapResize_def)

text \<open>Every entry a worker holds is destroyed by a \<open>Resize\<close>, whatever becomes of its connection.\<close>

lemma MapResize_destroys:
  "e < next_entry s \<Longrightarrow> entry_conn (MapResize s) e = None"
  by (simp add: MapResize_def)

definition exec_ok :: "nat \<Rightarrow> RequestExecutor \<Rightarrow> bool" where
  "exec_ok n s \<longleftrightarrow> (\<forall>t. n \<le> t \<longrightarrow> workers s t = WIdle) \<and> (\<not> disturbed s \<longrightarrow>
     entries_ok (entry_of s) (entry_conn s) (next_entry s) (\<lambda>t. holds (workers s t)) \<and>
     exec_inv (\<lambda>t. busy (workers s t)) (\<lambda>t. dispatching (workers s t)) (client_conn s) (executed s))"

lemma exec_okD:
  assumes "exec_ok n s" and "\<not> disturbed s"
  shows "entries_ok (entry_of s) (entry_conn s) (next_entry s) (\<lambda>t. holds (workers s t))"
    and "exec_inv (\<lambda>t. busy (workers s t)) (\<lambda>t. dispatching (workers s t)) (client_conn s) (executed s)"
  using assms unfolding exec_ok_def by blast+

lemma upd_worker: "(\<lambda>t'. f ((W(t := w)) t')) = (\<lambda>t'. f (W t'))(t := f w)"
  by auto

lemma exec_ok_moveI:
  assumes "exec_ok n s" and "t < n" and "workers s' = workers s" and "disturbed s' \<longleftrightarrow> disturbed s"
    and "\<not> disturbed s \<Longrightarrow> entries_ok (entry_of s') (entry_conn s') (next_entry s') (\<lambda>t. holds (workers s t))"
    and "\<not> disturbed s \<Longrightarrow> holds w = None \<or> (\<exists>fd e. holds w = Some (fd, e) \<and> entry_of s' fd = Some e)"
    and "\<not> disturbed s \<Longrightarrow> exec_inv ((\<lambda>t. busy (workers s t))(t := busy w)) ((\<lambda>t. dispatching (workers s t))(t := dispatching w))
      (client_conn s') (executed s')"
  shows "exec_ok n (move t w s')"
proof -
  have "entries_ok (entry_of s') (entry_conn s') (next_entry s') ((\<lambda>t. holds (workers s t))(t := holds w))" if "\<not> disturbed s"
    by (rule entries_ok_hold [OF assms(5) [OF that]]) (use assms(6) [OF that] in auto)
  moreover have "((workers s)(t := w)) t' = WIdle" if "n \<le> t'" for t' using assms(1,2) that by (simp add: exec_ok_def)
  ultimately show ?thesis using assms(3,4,7) by (simp add: exec_ok_def upd_worker del: fun_upd_apply)
qed

lemma busy_None: "busy w = None \<Longrightarrow> dispatching w = None"
  by (cases w) simp_all

lemma exec_inv_same: "exec_inv B D G E \<Longrightarrow> B t = b \<Longrightarrow> D t = d \<Longrightarrow> exec_inv (B(t := b)) (D(t := d)) G E"
  by auto


lemma exec_ok_idle_move:
  assumes "exec_ok n s" and "t < n" and "busy (workers s t) = None" and "busy w = None"
    and "s' = s\<lparr>jobs := jobs s'\<rparr>" and "\<And>fd e. holds w = Some (fd, e) \<Longrightarrow> entry_of s fd = Some e"
  shows "exec_ok n (move t w s')"
proof (rule exec_ok_moveI [OF assms(1,2)])
  have s': "workers s' = workers s" "disturbed s' \<longleftrightarrow> disturbed s" "entry_of s' = entry_of s" "entry_conn s' = entry_conn s"
    "next_entry s' = next_entry s" "executed s' = executed s" by (subst assms(5), simp)+
  show "workers s' = workers s" "disturbed s' \<longleftrightarrow> disturbed s" using s' by simp_all
  show "holds w = None \<or> (\<exists>fd e. holds w = Some (fd, e) \<and> entry_of s' fd = Some e)"
    using assms(6) s'(3) by (cases "holds w") auto
  assume "\<not> disturbed s"
  note k = exec_okD [OF assms(1) this]
  show "entries_ok (entry_of s') (entry_conn s') (next_entry s') (\<lambda>t. holds (workers s t))" using k(1) by (simp add: s')
  show "exec_inv ((\<lambda>t. busy (workers s t))(t := busy w)) ((\<lambda>t. dispatching (workers s t))(t := dispatching w)) (client_conn s') (executed s')"
    unfolding s' by (rule exec_inv_same [OF k(2)]) (simp_all add: assms(3,4) busy_None)
qed

text \<open>An insertion that does not disturb.\<close>

lemma InsertConnection_ok:
  assumes "exec_ok n s" and "\<not> disturbed s" and "\<not> Disturbs n fd s"
  shows "entries_ok (entry_of (InsertConnection fd s)) (entry_conn (InsertConnection fd s)) (next_entry (InsertConnection fd s))
      (\<lambda>t. holds (workers s t))"
    and "client_conn (InsertConnection fd s) = (client_conn s)(fd \<mapsto> ClientConnection_new)"
    and "client_conn s fd = None"
proof -
  note k = exec_okD [OF assms(1,2)]
  let ?s = "if MapFull s then MapResize s else s"
  have free: "entry_of s fd = None" using assms(3) by (simp add: Disturbs_def)
  then show "client_conn s fd = None" by (simp add: conn_at_def)
  have none: "(\<lambda>t. holds (workers s t)) = (\<lambda>_. None)" if "MapFull s"
  proof (rule ext)
    fix t
    show "holds (workers s t) = None"
    proof (cases "t < n")
      case True
      then show ?thesis using assms(3) that unfolding Disturbs_def by blast
    qed (use assms(1) in \<open>simp add: exec_ok_def\<close>)
  qed
  have e: "entries_ok (entry_of ?s) (entry_conn ?s) (next_entry ?s) (\<lambda>t. holds (workers s t))"
    using k(1) MapResize_entries [OF k(1) none] by simp
  have f: "entry_of ?s fd = None" using free by simp
  have "InsertConnection fd s = ?s\<lparr>entry_of := (entry_of ?s)(fd \<mapsto> next_entry ?s),
      entry_conn := (entry_conn ?s)(next_entry ?s \<mapsto> ClientConnection_new), next_entry := next_entry ?s + 1, map_size := map_size ?s + 1\<rparr>"
    using f by (simp only: InsertConnection_def Let_def option.case)
  then have i: "entry_of (InsertConnection fd s) = (entry_of ?s)(fd \<mapsto> next_entry ?s)" "next_entry (InsertConnection fd s) = next_entry ?s + 1"
      "entry_conn (InsertConnection fd s) = (entry_conn ?s)(next_entry ?s \<mapsto> ClientConnection_new)" by simp_all
  show "entries_ok (entry_of (InsertConnection fd s)) (entry_conn (InsertConnection fd s)) (next_entry (InsertConnection fd s))
      (\<lambda>t. holds (workers s t))" unfolding i by (rule entries_ok_new(1) [OF e f])
  have "client_conn (InsertConnection fd s) = (client_conn ?s)(fd \<mapsto> ClientConnection_new)"
    unfolding i by (rule entries_ok_new(2) [OF e f])
  also have "client_conn ?s = client_conn s" by simp
  finally show "client_conn (InsertConnection fd s) = (client_conn s)(fd \<mapsto> ClientConnection_new)" .
qed

lemma InsertConnection_simps [simp]:
  "workers (InsertConnection fd s) = workers s" "executed (InsertConnection fd s) = executed s"
  "jobs (InsertConnection fd s) = jobs s" "arrived (InsertConnection fd s) = arrived s"
  by (simp_all add: InsertConnection_def Let_def split: option.split)

lemma insert_step_ok:
  assumes inv: "exec_ok n s" and t: "t < n" "workers s t = WMissing fd r"
  shows "exec_ok n (move t (WInserted fd r) ((InsertConnection fd s)\<lparr>disturbed := disturbed s \<or> Disturbs n fd s\<rparr>))" (is "exec_ok n ?s'")
proof (cases "disturbed s \<or> Disturbs n fd s")
  case True
  then show ?thesis using inv t(1) by (simp add: exec_ok_def)
next
  case False
  then have f: "\<not> disturbed s" "\<not> Disturbs n fd s" by simp_all
  note k = exec_okD(2) [OF inv f(1)] and i = InsertConnection_ok [OF inv f]
  have w: "(\<lambda>t'. f (((workers s)(t := WInserted fd r)) t')) = (\<lambda>t'. f (workers s t'))" if "f (WInserted fd r) = f (WMissing fd r)"
    for f :: "worker \<Rightarrow> 'a" using that t(2) by (auto simp: fun_eq_iff)
  have "exec_inv (\<lambda>t. busy (workers s t)) (\<lambda>t. dispatching (workers s t)) (client_conn (InsertConnection fd s)) (executed s)"
    unfolding i(2) by (rule insert_conn_ok [OF k i(3)])
  with i(1) show ?thesis using inv t(1) by (simp add: exec_ok_def w del: fun_upd_apply) (simp add: exec_ok_def)
qed

text \<open>A step on the connection a worker holds.\<close>

lemma conn_step_ok:
  assumes inv: "exec_ok n s" and t: "t < n" "holds (workers s t) = Some (fd, e)" and c: "entry_conn s e = Some conn"
    and w: "holds w = Some (fd, e) \<or> holds w = None"
    and step: "client_conn s fd = Some conn \<Longrightarrow>
      exec_inv (\<lambda>t. busy (workers s t)) (\<lambda>t. dispatching (workers s t)) (client_conn s) (executed s) \<Longrightarrow>
      exec_inv ((\<lambda>t. busy (workers s t))(t := busy w)) ((\<lambda>t. dispatching (workers s t))(t := dispatching w))
        ((client_conn s)(fd \<mapsto> conn')) E'"
  shows "exec_ok n (move t w (s\<lparr>entry_conn := (entry_conn s)(e \<mapsto> conn'), executed := E'\<rparr>))"
proof (rule exec_ok_moveI [OF inv t(1)])
  assume d: "\<not> disturbed s"
  note k = exec_okD [OF inv d]
  have fd: "entry_of s fd = Some e" by (rule entries_okD(4) [OF k(1) t(2)])
  note u = entries_ok_conn [OF k(1) fd]
  show "entries_ok (entry_of (s\<lparr>entry_conn := (entry_conn s)(e \<mapsto> conn'), executed := E'\<rparr>))
      (entry_conn (s\<lparr>entry_conn := (entry_conn s)(e \<mapsto> conn'), executed := E'\<rparr>))
      (next_entry (s\<lparr>entry_conn := (entry_conn s)(e \<mapsto> conn'), executed := E'\<rparr>)) (\<lambda>t. holds (workers s t))" using u(1) by simp
  show "holds w = None \<or> (\<exists>fd' e'. holds w = Some (fd', e') \<and>
      entry_of (s\<lparr>entry_conn := (entry_conn s)(e \<mapsto> conn'), executed := E'\<rparr>) fd' = Some e')" using w fd by auto
  have "client_conn s fd = Some conn" using fd c by (simp add: conn_at_def)
  from step [OF this k(2)] show "exec_inv ((\<lambda>t. busy (workers s t))(t := busy w)) ((\<lambda>t. dispatching (workers s t))(t := dispatching w))
      (client_conn (s\<lparr>entry_conn := (entry_conn s)(e \<mapsto> conn'), executed := E'\<rparr>))
      (executed (s\<lparr>entry_conn := (entry_conn s)(e \<mapsto> conn'), executed := E'\<rparr>))" by (simp add: u(2))
qed simp_all


lemma enter_step_ok:
  assumes "exec_ok n s" and "t < n" "workers s t = WEntering fd e r" and "entry_conn s e = Some conn"
    and "EnterConnection r conn = (go, conn')"
  shows "exec_ok n (move t (if go then WProcessing fd e else WIdle) (s\<lparr>entry_conn := (entry_conn s)(e \<mapsto> conn')\<rparr>))"
proof -
  let ?w = "if go then WProcessing fd e else WIdle"
  have "exec_ok n (move t ?w (s\<lparr>entry_conn := (entry_conn s)(e \<mapsto> conn'), executed := executed s\<rparr>))"
  proof (rule conn_step_ok [OF assms(1,2) _ assms(4)])
    assume "client_conn s fd = Some conn" "exec_inv (\<lambda>t. busy (workers s t)) (\<lambda>t. dispatching (workers s t)) (client_conn s) (executed s)"
    from enter_ok [OF this(2,1) _ _ assms(5), of t] assms(3)
    show "exec_inv ((\<lambda>t. busy (workers s t))(t := busy ?w)) ((\<lambda>t. dispatching (workers s t))(t := dispatching ?w))
        ((client_conn s)(fd \<mapsto> conn')) (executed s)" by (cases go) simp_all
  qed (simp_all add: assms(3))
  then show ?thesis by simp
qed

lemma drained_step_ok:
  assumes "exec_ok n s" and "t < n" "workers s t = WProcessing fd e" and "entry_conn s e = Some conn"
    and "NextRequest conn = (Inr None, conn')"
  shows "exec_ok n (move t WIdle (s\<lparr>entry_conn := (entry_conn s)(e \<mapsto> conn')\<rparr>))"
proof -
  have "exec_ok n (move t WIdle (s\<lparr>entry_conn := (entry_conn s)(e \<mapsto> conn'), executed := executed s\<rparr>))"
  proof (rule conn_step_ok [OF assms(1,2) _ assms(4)])
    assume "client_conn s fd = Some conn" "exec_inv (\<lambda>t. busy (workers s t)) (\<lambda>t. dispatching (workers s t)) (client_conn s) (executed s)"
    from drained_ok [OF this(2,1) _ _ assms(5), of t] assms(3)
    show "exec_inv ((\<lambda>t. busy (workers s t))(t := busy WIdle)) ((\<lambda>t. dispatching (workers s t))(t := dispatching WIdle))
        ((client_conn s)(fd \<mapsto> conn')) (executed s)" by simp
  qed (simp_all add: assms(3))
  then show ?thesis by simp
qed

lemma take_step_ok:
  assumes "exec_ok n s" and "t < n" "workers s t = WProcessing fd e" and "entry_conn s e = Some conn"
    and "NextRequest conn = (Inr (Some v), conn')"
  shows "exec_ok n (move t (WDispatching fd e v) (s\<lparr>entry_conn := (entry_conn s)(e \<mapsto> conn')\<rparr>))"
proof -
  have "exec_ok n (move t (WDispatching fd e v) (s\<lparr>entry_conn := (entry_conn s)(e \<mapsto> conn'), executed := executed s\<rparr>))"
  proof (rule conn_step_ok [OF assms(1,2) _ assms(4)])
    assume "client_conn s fd = Some conn" "exec_inv (\<lambda>t. busy (workers s t)) (\<lambda>t. dispatching (workers s t)) (client_conn s) (executed s)"
    from take_ok [OF this(2,1) _ _ assms(5), of t] assms(3)
    show "exec_inv ((\<lambda>t. busy (workers s t))(t := busy (WDispatching fd e v)))
        ((\<lambda>t. dispatching (workers s t))(t := dispatching (WDispatching fd e v))) ((client_conn s)(fd \<mapsto> conn')) (executed s)" by simp
  qed (simp_all add: assms(3))
  then show ?thesis by simp
qed

lemma dispatch_step_ok:
  assumes "exec_ok n s" and "t < n" "workers s t = WDispatching fd e v"
  shows "exec_ok n (move t (WProcessing fd e) (s\<lparr>executed := executed s @ [(fd, v)]\<rparr>))"
proof (rule exec_ok_moveI [OF assms(1,2)])
  assume "\<not> disturbed s"
  note k = exec_okD [OF assms(1) this]
  have "holds (workers s t) = Some (fd, e)" using assms(3) by simp
  from entries_okD(4) [OF k(1) this]
  show "holds (WProcessing fd e) = None \<or> (\<exists>fd' e'. holds (WProcessing fd e) = Some (fd', e') \<and>
      entry_of (s\<lparr>executed := executed s @ [(fd, v)]\<rparr>) fd' = Some e')" by simp
  from k(1) show "entries_ok (entry_of (s\<lparr>executed := executed s @ [(fd, v)]\<rparr>)) (entry_conn (s\<lparr>executed := executed s @ [(fd, v)]\<rparr>))
      (next_entry (s\<lparr>executed := executed s @ [(fd, v)]\<rparr>)) (\<lambda>t. holds (workers s t))" by simp
  from dispatch_ok [OF k(2), of t fd v] assms(3)
  show "exec_inv ((\<lambda>t. busy (workers s t))(t := busy (WProcessing fd e))) ((\<lambda>t. dispatching (workers s t))(t := dispatching (WProcessing fd e)))
      (client_conn (s\<lparr>executed := executed s @ [(fd, v)]\<rparr>)) (executed (s\<lparr>executed := executed s @ [(fd, v)]\<rparr>))" by simp
qed simp_all

lemma exec_step_ok: "exec_step n s s' \<Longrightarrow> exec_ok n s \<Longrightarrow> exec_ok n s'"
proof (induction rule: exec_step.induct)
  case (ex_submit s client_fd request)
  then show ?case by (simp add: Submit_def exec_ok_def)
next
  case (ex_pop t s client_fd request rest)
  show ?case by (rule exec_ok_idle_move [OF ex_pop.prems ex_pop.hyps(1)]) (simp_all add: ex_pop.hyps(2))
next
  case (ex_found t s client_fd request e)
  show ?case by (rule exec_ok_idle_move [OF ex_found.prems ex_found.hyps(1)]) (use ex_found.hyps in simp_all)
next
  case (ex_missing t s client_fd request)
  show ?case by (rule exec_ok_idle_move [OF ex_missing.prems ex_missing.hyps(1)]) (simp_all add: ex_missing.hyps(2))
next
  case (ex_insert t s client_fd request)
  show ?case by (rule insert_step_ok [OF ex_insert.prems ex_insert.hyps])
next
  case (ex_lookup t s client_fd request e)
  show ?case by (rule exec_ok_idle_move [OF ex_lookup.prems ex_lookup.hyps(1)]) (use ex_lookup.hyps in simp_all)
next
  case (ex_enter t s client_fd e request conn go conn')
  show ?case by (rule enter_step_ok [OF ex_enter.prems ex_enter.hyps])
next
  case (ex_drained t s client_fd e conn conn')
  show ?case by (rule drained_step_ok [OF ex_drained.prems ex_drained.hyps(1,2,3,5)])
next
  case (ex_take t s client_fd e conn resp_request conn')
  show ?case by (rule take_step_ok [OF ex_take.prems ex_take.hyps(1,2,3,5)])
next
  case (ex_dispatch t s client_fd e resp_request)
  show ?case by (rule dispatch_step_ok [OF ex_dispatch.prems ex_dispatch.hyps(1,2)])
qed

lemma exec_ok_new: "exec_ok n RequestExecutor_new"
  by (simp add: exec_ok_def exec_inv_def entries_ok_def conn_at_def RequestExecutor_new_def)

lemma exec_reachable_ok: "exec_reachable n s \<Longrightarrow> exec_ok n s"
  by (induction rule: rtranclp_induct) (rule exec_ok_new, rule exec_step_ok)

section \<open>One worker\<close>

fun held :: "worker \<Rightarrow> int \<Rightarrow> string" where
  "held (WPopped fd r) fd' = (if fd = fd' then r else [])"
| "held (WMissing fd r) fd' = (if fd = fd' then r else [])"
| "held (WInserted fd r) fd' = (if fd = fd' then r else [])"
| "held (WEntering fd e r) fd' = (if fd = fd' then r else [])"
| "held _ fd' = []"

definition queued :: "(int \<times> string) list \<Rightarrow> int \<Rightarrow> string" where
  "queued J fd = concat (map (\<lambda>(fd', r). if fd' = fd then r else []) J)"

lemma queued_simps [simp]: "queued [] fd = []" "queued ((fd', r) # J) fd = (if fd' = fd then r else []) @ queued J fd"
    "queued (J @ [(fd', r)]) fd = queued J fd @ (if fd' = fd then r else [])"
  by (simp_all add: queued_def)

fun pushed :: "ClientConnection option \<Rightarrow> string" where
  "pushed None = []"
| "pushed (Some conn) = cc_pushed conn"

text \<open>
  With one worker no insertion disturbs, and every byte of a client that has arrived is in its
  connection, in the hands of the worker or in the job queue, in that order.
\<close>

definition bytes_of :: "RequestExecutor \<Rightarrow> int \<Rightarrow> string" where
  "bytes_of s fd = pushed (client_conn s fd) @ held (workers s 0) fd @ queued (jobs s) fd"

definition one_ok :: "RequestExecutor \<Rightarrow> bool" where
  "one_ok s \<longleftrightarrow> \<not> disturbed s \<and> (\<forall>fd r. workers s 0 = WMissing fd r \<longrightarrow> entry_of s fd = None) \<and>
     (\<forall>fd r. workers s 0 = WInserted fd r \<longrightarrow> (\<exists>e. entry_of s fd = Some e)) \<and> arrived s = bytes_of s"

lemma one_okD:
  assumes "one_ok s"
  shows "\<not> disturbed s" and "workers s 0 = WMissing fd r \<Longrightarrow> entry_of s fd = None"
    and "workers s 0 = WInserted fd r \<Longrightarrow> \<exists>e. entry_of s fd = Some e" and "arrived s = bytes_of s"
  using assms unfolding one_ok_def by blast+

lemma one_conn_step:
  assumes ok: "exec_ok 1 s" "one_ok s" and w: "holds (workers s 0) = Some (fd, e)" and c: "entry_conn s e = Some conn"
    and p: "cc_pushed conn' = cc_pushed conn @ held (workers s 0) fd"
    and w': "holds w = Some (fd, e) \<and> busy w = Some fd \<or> w = WIdle" and s': "s' = s\<lparr>entry_conn := (entry_conn s)(e \<mapsto> conn')\<rparr>"
  shows "one_ok (move 0 w s')"
proof -
  note d = one_okD [OF ok(2)] and k = exec_okD(1) [OF ok(1) one_okD(1) [OF ok(2)]]
  have fd: "entry_of s fd = Some e" by (rule entries_okD(4) [OF k w])
  have c': "client_conn s fd = Some conn" using fd c by (simp add: conn_at_def)
  have h: "held w fd' = []" "w \<noteq> WMissing fd' r" "w \<noteq> WInserted fd' r" for fd' r using w' by (cases w; auto)+
  have other: "held (workers s 0) fd' = []" if "fd' \<noteq> fd" for fd' using that w by (cases "workers s 0") auto
  have "bytes_of (move 0 w s') = bytes_of s"
  proof (rule ext)
    fix fd'
    show "bytes_of (move 0 w s') fd' = bytes_of s fd'"
      using entries_ok_conn(2) [OF k fd, of conn'] other p c' by (cases "fd' = fd") (simp_all add: bytes_of_def s' h(1))
  qed
  with d(1,4) h(2,3) show ?thesis by (simp add: one_ok_def s')
qed

lemma one_ok_keep:
  assumes "one_ok s" and "disturbed s' \<longleftrightarrow> disturbed s" "arrived s' = arrived s" "\<And>fd. bytes_of s' fd = bytes_of s fd"
    and "\<And>fd r. workers s' 0 = WMissing fd r \<Longrightarrow> entry_of s' fd = None"
    and "\<And>fd r. workers s' 0 = WInserted fd r \<Longrightarrow> \<exists>e. entry_of s' fd = Some e"
  shows "one_ok s'"
  using assms by (auto simp: one_ok_def fun_eq_iff)

lemma one_insert_step:
  assumes ok: "exec_ok 1 s" "one_ok s" and w: "workers s 0 = WMissing fd r"
  shows "one_ok (move 0 (WInserted fd r) ((InsertConnection fd s)\<lparr>disturbed := disturbed s \<or> Disturbs 1 fd s\<rparr>))"
proof (rule one_ok_keep [OF ok(2)])
  let ?s = "move 0 (WInserted fd r) ((InsertConnection fd s)\<lparr>disturbed := disturbed s \<or> Disturbs 1 fd s\<rparr>)"
  note d = one_okD [OF ok(2)]
  have n: "\<not> Disturbs 1 fd s" using d(2) [OF w] w by (simp add: Disturbs_def)
  then show "disturbed ?s \<longleftrightarrow> disturbed s" by simp
  note i = InsertConnection_ok [OF ok(1) d(1) n]
  show "bytes_of ?s fd' = bytes_of s fd'" for fd'
    using w i(2,3) by (cases "fd' = fd") (simp_all add: bytes_of_def ClientConnection_new_def)
  have "\<exists>e. entry_of (InsertConnection fd s) fd = Some e"
    using fun_cong [OF i(2), of fd] by (simp add: conn_at_def split: option.splits)
  then show "\<exists>e. entry_of ?s fd' = Some e" if "workers ?s 0 = WInserted fd' r'" for fd' r' using that by simp
qed simp_all

lemma one_step_ok: "exec_step 1 s s' \<Longrightarrow> exec_ok 1 s \<Longrightarrow> one_ok s \<Longrightarrow> one_ok s'"
proof (induction rule: exec_step.induct)
  case (ex_submit s client_fd request)
  note d = one_okD [OF ex_submit(2)]
  have "bytes_of (Submit client_fd request s) = (bytes_of s)(client_fd := bytes_of s client_fd @ request)"
    by (rule ext) (simp add: bytes_of_def Submit_def)
  with d show ?case by (simp add: one_ok_def Submit_def)
next
  case (ex_pop t s client_fd request rest)
  then show ?case by (intro one_ok_keep [OF ex_pop.prems(2)]) (auto simp: bytes_of_def)
next
  case (ex_found t s client_fd request e)
  then show ?case by (intro one_ok_keep [OF ex_found.prems(2)]) (auto simp: bytes_of_def)
next
  case (ex_missing t s client_fd request)
  then show ?case by (intro one_ok_keep [OF ex_missing.prems(2)]) (auto simp: bytes_of_def)
next
  case (ex_insert t s client_fd request)
  then show ?case using one_insert_step [OF ex_insert.prems] by simp
next
  case (ex_lookup t s client_fd request e)
  then show ?case by (intro one_ok_keep [OF ex_lookup.prems(2)]) (auto simp: bytes_of_def)
next
  case (ex_enter t s client_fd e request conn go conn')
  have "cc_pushed conn' = cc_pushed conn @ request"
    using ex_enter.hyps(4) by (auto simp: EnterConnection_def Let_def split: if_splits)
  with ex_enter one_conn_step [of s client_fd e conn conn'] show ?case by simp
next
  case (ex_drained t s client_fd e conn conn')
  have "cc_pushed conn' = cc_pushed conn"
    using ex_drained.hyps(5) by (auto simp: NextRequest_def split: prod.splits sum.splits option.splits)
  with ex_drained one_conn_step [of s client_fd e conn conn' WIdle] show ?case by simp
next
  case (ex_take t s client_fd e conn resp_request conn')
  have "cc_pushed conn' = cc_pushed conn"
    using ex_take.hyps(5) by (auto simp: NextRequest_def split: prod.splits sum.splits option.splits)
  with ex_take one_conn_step [of s client_fd e conn conn' "WDispatching client_fd e resp_request"] show ?case by simp
next
  case (ex_dispatch t s client_fd e resp_request)
  then show ?case by (intro one_ok_keep [OF ex_dispatch.prems(2)]) (auto simp: bytes_of_def)
qed

lemma one_reachable_ok: "exec_reachable 1 s \<Longrightarrow> exec_ok 1 s \<and> one_ok s"
proof (induction rule: rtranclp_induct)
  case base
  show ?case using exec_ok_new by (auto simp: one_ok_def bytes_of_def conn_at_def RequestExecutor_new_def fun_eq_iff)
qed (blast intro: exec_step_ok one_step_ok)

section \<open>What the workers have executed\<close>

lemma connection_executed:
  assumes inv: "exec_inv B D G E" and c: "G fd = Some conn"
    and reqs: "list_all wf_resp reqs" "cc_pushed conn @ fut = concat (map Serialize reqs)"
  shows "\<exists>rest. reqs = exec_of E fd @ rest" and "\<not> being_processed conn \<Longrightarrow> fut = [] \<Longrightarrow> exec_of E fd = reqs"
proof -
  note k = cc_okD [OF exec_invD(5) [OF inv c]] and d = exec_invD [OF inv]
  have st: "stream_ok reqs (cc_taken conn) (resp_value_queue conn) fut" by (rule k(3) [OF reqs])
  have "\<exists>us. cc_taken conn = exec_of E fd @ us" using k(4,5) by (metis append_Nil2)
  with st show "\<exists>rest. reqs = exec_of E fd @ rest" by (auto simp: stream_ok_def)
  show "exec_of E fd = reqs" if p: "\<not> being_processed conn" "fut = []"
  proof -
    have "D t \<noteq> Some (fd, v)" for t v using d(4) [of t fd v] k(1) p(1) by blast
    then have "cc_taken conn = exec_of E fd" by (rule k(5))
    with stream_ok_end [OF _ reqs(1) k(2) [OF p(1)]] st p(2) show ?thesis by simp
  qed
qed

lemma NextRequest_defined:
  assumes "stream_ok reqs taken (resp_value_queue conn) fut" and "list_all wf_resp reqs"
  obtains r conn' where "NextRequest conn = (Inr r, conn')"
proof -
  obtain r q' where "PopValue (resp_value_queue conn) = (Inr r, q')" using PopValue_stream [OF assms(2,1)] by metis
  then show thesis using that by (cases r) (simp_all add: NextRequest_def)
qed

lemma one_worker_processing:
  assumes reach: "exec_reachable 1 s" and wf: "list_all wf_resp reqs" and bytes: "arrived s fd @ fut = concat (map Serialize reqs)"
    and w: "workers s 0 = WProcessing fd e"
  obtains conn r conn' where "entry_conn s e = Some conn" "being_processed conn" "NextRequest conn = (Inr r, conn')"
proof -
  have ok: "exec_ok 1 s" "one_ok s" using one_reachable_ok [OF reach] by simp_all
  note d = one_okD [OF ok(2)] and k = exec_okD [OF ok(1) one_okD(1) [OF ok(2)]]
  have "holds (workers s 0) = Some (fd, e)" using w by simp
  then obtain conn where e: "entry_of s fd = Some e" and c: "entry_conn s e = Some conn"
    using entries_okD(2) [OF k(1)] entries_okD(4) [OF k(1)] by blast
  have cc: "client_conn s fd = Some conn" using e c by (simp add: conn_at_def)
  note q = cc_okD [OF exec_invD(5) [OF k(2) cc]]
  have p: "being_processed conn" using q(1) w by (metis busy.simps(1))
  have "cc_pushed conn @ held (workers s 0) fd @ queued (jobs s) fd @ fut = concat (map Serialize reqs)"
    using bytes d(4) cc by (simp add: bytes_of_def)
  from q(3) [OF wf this] obtain r conn' where "NextRequest conn = (Inr r, conn')" using NextRequest_defined [OF _ wf] by metis
  with c p show thesis by (rule that)
qed

lemma one_worker_moves:
  assumes reach: "exec_reachable 1 s" and wf: "\<And>fd. list_all wf_resp (reqs fd)"
    and bytes: "\<And>fd. arrived s fd @ fut fd = concat (map Serialize (reqs fd))" and w: "workers s 0 \<noteq> WIdle \<or> jobs s \<noteq> []"
    and go: "\<not> exec_ends 1 s"
  shows "\<exists>s'. exec_step 1 s s' \<and> workers s' 0 \<noteq> workers s 0"
proof -
  have ok: "exec_ok 1 s" "one_ok s" using one_reachable_ok [OF reach] by simp_all
  note d = one_okD [OF ok(2)] and k = exec_okD [OF ok(1) one_okD(1) [OF ok(2)]]
  have move: ?thesis if "exec_step 1 s (move 0 w s')" "w \<noteq> workers s 0" for w s' using that by (intro exI [of _ "move 0 w s'"]) simp
  show ?thesis
  proof (cases "workers s 0")
    case WIdle
    with w obtain fd r rest where "jobs s = (fd, r) # rest" by (cases "jobs s") auto
    from move [OF ex_pop [OF _ WIdle this]] WIdle show ?thesis by simp
  next
    case (WPopped fd r)
    then show ?thesis using move [OF ex_found [OF _ WPopped]] move [OF ex_missing [OF _ WPopped]] by (cases "entry_of s fd") simp_all
  next
    case (WMissing fd r)
    from move [OF ex_insert [OF _ WMissing]] WMissing show ?thesis by simp
  next
    case (WInserted fd r)
    with d(3) obtain e where "entry_of s fd = Some e" by blast
    from move [OF ex_lookup [OF _ WInserted this]] WInserted show ?thesis by simp
  next
    case (WEntering fd e r)
    then have "holds (workers s 0) = Some (fd, e)" by simp
    then obtain conn where c: "entry_conn s e = Some conn" using entries_okD(2) [OF k(1)] entries_okD(4) [OF k(1)] by blast
    obtain go conn' where "EnterConnection r conn = (go, conn')" by (rule prod.exhaust)
    from move [OF ex_enter [OF _ WEntering c this]] WEntering show ?thesis by (cases go) simp_all
  next
    case (WProcessing fd e)
    obtain conn r conn' where c: "entry_conn s e = Some conn" "being_processed conn" and n: "NextRequest conn = (Inr r, conn')"
      by (rule one_worker_processing [OF reach wf bytes WProcessing])
    show ?thesis
    proof (cases r)
      case None
      from move [OF ex_drained [OF _ WProcessing c n [unfolded None]]] WProcessing show ?thesis by simp
    next
      case (Some v)
      from move [OF ex_take [OF _ WProcessing c n [unfolded Some]]] WProcessing show ?thesis by simp
    qed
  next
    case (WDispatching fd e v)
    have "\<not> DispatchThrows v" using go end_dispatch [OF _ WDispatching, of 1] by auto
    from move [OF ex_dispatch [OF _ WDispatching this]] WDispatching show ?thesis by simp
  qed
qed

lemma one_worker_dispatching:
  assumes reach: "exec_reachable 1 s" and wf: "list_all wf_resp reqs" and bytes: "arrived s fd @ fut = concat (map Serialize reqs)"
    and w: "workers s 0 = WDispatching fd e v"
  shows "v \<in> set reqs"
proof -
  have ok: "exec_ok 1 s" "one_ok s" using one_reachable_ok [OF reach] by simp_all
  note d = one_okD [OF ok(2)] and k = exec_okD [OF ok(1) one_okD(1) [OF ok(2)]]
  have D: "busy (workers s 0) = Some fd" "dispatching (workers s 0) = Some (fd, v)" using w by simp_all
  obtain conn where cc: "client_conn s fd = Some conn" using exec_invD(2) [OF k(2) D(1)] by blast
  note q = cc_okD [OF exec_invD(5) [OF k(2) cc]]
  have "cc_pushed conn @ held (workers s 0) fd @ queued (jobs s) fd @ fut = concat (map Serialize reqs)"
    using bytes d(4) cc by (simp add: bytes_of_def)
  from q(3) [OF wf this] q(4) [OF D(2)] show ?thesis by (auto simp: stream_ok_def)
qed

lemma one_worker_ends:
  assumes reach: "exec_reachable 1 s" and wf: "\<And>fd. list_all wf_resp (reqs fd)"
    and bytes: "\<And>fd. arrived s fd @ fut fd = concat (map Serialize (reqs fd))" and ends: "exec_ends 1 s"
  shows "\<exists>fd e v. workers s 0 = WDispatching fd e v \<and> v \<in> set (reqs fd) \<and> bad_subscription v"
  using ends
proof cases
  case (end_lookup t fd r)
  then have "workers s 0 = WInserted fd r" by simp
  then show ?thesis using one_okD(3) [OF conjunct2 [OF one_reachable_ok [OF reach]]] end_lookup(3) by fastforce
next
  case (end_mark t fd e conn)
  then have "workers s 0 = WProcessing fd e" by simp
  then show ?thesis by (rule one_worker_processing [OF reach wf bytes]) (use end_mark(3,4) in simp)
next
  case (end_parse t fd e conn ex conn')
  then have "workers s 0 = WProcessing fd e" by simp
  then show ?thesis by (rule one_worker_processing [OF reach wf bytes]) (use end_parse(3,5) in simp)
next
  case (end_dispatch t fd e v)
  then have "workers s 0 = WDispatching fd e v" by simp
  with one_worker_dispatching [OF reach wf bytes this] end_dispatch(3) show ?thesis by (auto simp: DispatchThrows_iff)
qed

lemma one_worker_executes:
  assumes reach: "exec_reachable 1 s" and wf: "list_all wf_resp reqs" and bytes: "arrived s fd @ fut = concat (map Serialize reqs)"
  shows "\<exists>rest. reqs = exec_of (executed s) fd @ rest"
    and "workers s 0 = WIdle \<Longrightarrow> jobs s = [] \<Longrightarrow> fut = [] \<Longrightarrow> exec_of (executed s) fd = reqs"
proof -
  have ok: "exec_ok 1 s" "one_ok s" using one_reachable_ok [OF reach] by simp_all
  note d = one_okD [OF ok(2)] and k = exec_okD [OF ok(1) one_okD(1) [OF ok(2)]]
  have b: "pushed (client_conn s fd) @ held (workers s 0) fd @ queued (jobs s) fd @ fut = concat (map Serialize reqs)"
    using bytes d(4) by (simp add: bytes_of_def)
  have none: "exec_of (executed s) fd = []" if "client_conn s fd = None"
    using exec_invD(3) [OF k(2), of fd] that by (auto simp: exec_of_def filter_empty_conv)
  show "\<exists>rest. reqs = exec_of (executed s) fd @ rest"
    using none b connection_executed(1) [OF k(2) _ wf] by (cases "client_conn s fd") simp_all
  show "exec_of (executed s) fd = reqs" if w: "workers s 0 = WIdle" "jobs s = []" "fut = []"
  proof (cases "client_conn s fd")
    case None
    with b w none show ?thesis by (cases reqs) (auto dest: arg_cong [of _ _ length])
  next
    case (Some conn)
    have "busy (workers s t) = None" for t using w(1) ok(1) by (cases "t = 0") (simp_all add: exec_ok_def)
    then have "\<not> being_processed conn" using cc_okD(1) [OF exec_invD(5) [OF k(2) Some]] by simp
    then show ?thesis using connection_executed(2) [OF k(2) Some wf] b Some w by simp
  qed
qed

section \<open>Two workers\<close>

definition two :: "worker \<Rightarrow> worker \<Rightarrow> nat \<Rightarrow> worker" where
  "two w w' = (\<lambda>_. WIdle)(0 := w, 1 := w')"

lemma two_simps [simp]:
  "two w w' 0 = w" "two w w' (Suc 0) = w'" "(two w w')(0 := u) = two u w'" "(two w w')(Suc 0 := u) = two w u"
  by (auto simp: two_def)

abbreviation exec_state :: "(int \<times> string) list \<Rightarrow> (int \<rightharpoonup> nat) \<Rightarrow> (nat \<rightharpoonup> ClientConnection) \<Rightarrow> nat \<Rightarrow> worker \<Rightarrow> worker \<Rightarrow>
    (int \<times> RespValue) list \<Rightarrow> (int \<Rightarrow> string) \<Rightarrow> bool \<Rightarrow> RequestExecutor" where
  "exec_state J M H k w w' E A d \<equiv> \<lparr>jobs = J, entry_of = M, entry_conn = H, next_entry = k, map_size = k, map_buckets = DEFAULT_CAPACITY,
     workers = two w w', executed = E, arrived = A, disturbed = d\<rparr>"

abbreviation conn_state :: "bool \<Rightarrow> string \<Rightarrow> string \<Rightarrow> RespValue list \<Rightarrow> ClientConnection" where
  "conn_state p buffer bytes taken \<equiv> \<lparr>being_processed = p, resp_value_queue = \<lparr>rvq_buffer = buffer, rvq_values = []\<rparr>,
     cc_pushed = bytes, cc_taken = taken\<rparr>"

lemma new_conn_state: "ClientConnection_new = conn_state False [] [] []"
  by (simp add: ClientConnection_new_def empty_queue_def)

lemma EnterConnection_state: "EnterConnection b (conn_state False buf p ts) = (True, conn_state True (buf @ b) (p @ b) ts)"
  by (simp add: EnterConnection_def PushString_def)

lemma NextRequest_none:
  "FromString b = Inl (out_of_range m) \<Longrightarrow> NextRequest (conn_state True b p ts) = (Inr None, conn_state False b p ts)"
  by (simp add: NextRequest_def PopValue_def PopLoop.simps)

lemma FromString_no_bytes: "\<exists>m. FromString [] = Inl (out_of_range m)"
  by (simp add: FromString_def ParseVariant.simps)

lemma NextRequest_whole:
  assumes "wf_resp v"
  shows "NextRequest (conn_state True (Serialize v) p ts) = (Inr (Some v), conn_state True [] p (ts @ [v]))"
proof -
  obtain m where m: "FromString [] = Inl (out_of_range m)" using FromString_no_bytes by blast
  let ?q1 = "\<lparr>rvq_buffer = Serialize v, rvq_values = []\<rparr>" and ?q2 = "\<lparr>rvq_buffer = [], rvq_values = [v]\<rparr>"
  have "PopLoop ?q2 = (out_of_range m, ?q2)" by (subst PopLoop.simps) (simp add: m)
  moreover have "PopLoop ?q1 = PopLoop ?q2" using FromString_Serialize [OF assms, of "[]"] by (subst PopLoop.simps) simp
  ultimately show ?thesis by (simp add: NextRequest_def PopValue_def)
qed

lemma exec_then: "exec_reachable n s \<Longrightarrow> exec_step n s s'' \<Longrightarrow> s'' = s' \<Longrightarrow> exec_reachable n s'"
  by (simp add: rtranclp.rtrancl_into_rtrancl)

lemma exec_exI: "exec_reachable n s \<Longrightarrow> P s \<Longrightarrow> \<exists>s. exec_reachable n s \<and> P s"
  by blast

lemma two_jobs:
  "exec_reachable 2 (exec_state [(fd, a), (fd, b)] Map.empty Map.empty 0 WIdle WIdle [] ((\<lambda>_. [])(fd := a @ b)) False)"
proof -
  have "exec_reachable 2 (Submit fd b (Submit fd a RequestExecutor_new))"
    by (rule exec_then [OF exec_then [OF rtranclp.rtrancl_refl ex_submit refl] ex_submit refl])
  moreover have "two WIdle WIdle = (\<lambda>_. WIdle)" by (auto simp: two_def)
  ultimately show ?thesis by (simp add: Submit_def RequestExecutor_new_def)
qed

lemma no_resize: "k \<le> 12 \<Longrightarrow> \<not> MapFull (exec_state J M H k w w' E A d)"
  by (simp add: MapFull_def DEFAULT_CAPACITY_def DEFAULT_LOAD_FACTOR_def)

lemma two_workers_reorder:
  assumes v: "wf_resp v" "\<not> DispatchThrows v" and w: "wf_resp w" "\<not> DispatchThrows w"
  shows "\<exists>s. exec_reachable 2 s \<and> \<not> disturbed s \<and> arrived s fd = Serialize v @ Serialize w \<and> exec_of (executed s) fd = [w, v]"
proof -
  let ?a = "Serialize v" and ?b = "Serialize w" and ?A = "(\<lambda>_. [])(fd := Serialize v @ Serialize w)"
  let ?M = "[fd \<mapsto> 0]"
  obtain m where m: "FromString [] = Inl (out_of_range m)" using FromString_no_bytes by blast
  note e = EnterConnection_state
  have "exec_reachable 2 (exec_state [(fd, ?b)] Map.empty Map.empty 0 (WPopped fd ?a) WIdle [] ?A False)"
    by (rule exec_then [OF two_jobs ex_pop [where t = 0]]) simp_all
  then have "exec_reachable 2 (exec_state [(fd, ?b)] Map.empty Map.empty 0 (WMissing fd ?a) WIdle [] ?A False)"
    by (rule exec_then [OF _ ex_missing [where t = 0]]) simp_all
  then have "exec_reachable 2 (exec_state [(fd, ?b)] ?M [0 \<mapsto> ClientConnection_new] 1 (WInserted fd ?a) WIdle [] ?A False)"
    by (rule exec_then [OF _ ex_insert [where t = 0 and client_fd = fd]]) (simp_all add: InsertConnection_def Disturbs_def no_resize)
  then have "exec_reachable 2 (exec_state [(fd, ?b)] ?M [0 \<mapsto> ClientConnection_new] 1 (WEntering fd 0 ?a) WIdle [] ?A False)"
    by (rule exec_then [OF _ ex_lookup [where t = 0]]) simp_all
  then have "exec_reachable 2 (exec_state [] ?M [0 \<mapsto> ClientConnection_new] 1 (WEntering fd 0 ?a) (WPopped fd ?b) [] ?A False)"
    by (rule exec_then [OF _ ex_pop [where t = 1]]) simp_all
  then have "exec_reachable 2 (exec_state [] ?M [0 \<mapsto> ClientConnection_new] 1 (WEntering fd 0 ?a) (WEntering fd 0 ?b) [] ?A False)"
    by (rule exec_then [OF _ ex_found [where t = 1]]) simp_all
  then have "exec_reachable 2 (exec_state [] ?M [0 \<mapsto> conn_state True ?b ?b []] 1 (WEntering fd 0 ?a) (WProcessing fd 0) [] ?A False)"
    by (rule exec_then [OF _ ex_enter [where t = 1 and e = 0, OF _ _ _ e [of ?b "[]" "[]" "[]"]]]) (simp_all add: new_conn_state)
  then have "exec_reachable 2 (exec_state [] ?M [0 \<mapsto> conn_state True [] ?b [w]] 1 (WEntering fd 0 ?a) (WDispatching fd 0 w) [] ?A False)"
    by (rule exec_then [OF _ ex_take [where t = 1 and e = 0, OF _ _ _ _ NextRequest_whole [OF w(1), of ?b "[]"]]]) simp_all
  then have "exec_reachable 2 (exec_state [] ?M [0 \<mapsto> conn_state True [] ?b [w]] 1 (WEntering fd 0 ?a) (WProcessing fd 0) [(fd, w)] ?A False)"
    by (rule exec_then [OF _ ex_dispatch [where t = 1 and e = 0, OF _ _ w(2)]]) simp_all
  then have "exec_reachable 2 (exec_state [] ?M [0 \<mapsto> conn_state False [] ?b [w]] 1 (WEntering fd 0 ?a) WIdle [(fd, w)] ?A False)"
    by (rule exec_then [OF _ ex_drained [where t = 1 and e = 0, OF _ _ _ _ NextRequest_none [OF m, of ?b "[w]"]]]) simp_all
  then have "exec_reachable 2 (exec_state [] ?M [0 \<mapsto> conn_state True ?a (?b @ ?a) [w]] 1 (WProcessing fd 0) WIdle [(fd, w)] ?A False)"
    by (rule exec_then [OF _ ex_enter [where t = 0 and e = 0, OF _ _ _ e [of ?a "[]" ?b "[w]"]]]) simp_all
  then have "exec_reachable 2 (exec_state [] ?M [0 \<mapsto> conn_state True [] (?b @ ?a) [w, v]] 1 (WDispatching fd 0 v) WIdle [(fd, w)] ?A False)"
    by (rule exec_then [OF _ ex_take [where t = 0 and e = 0, OF _ _ _ _ NextRequest_whole [OF v(1), of "?b @ ?a" "[w]"]]]) simp_all
  then have "exec_reachable 2 (exec_state [] ?M [0 \<mapsto> conn_state True [] (?b @ ?a) [w, v]] 1 (WProcessing fd 0) WIdle [(fd, w), (fd, v)] ?A False)"
    by (rule exec_then [OF _ ex_dispatch [where t = 0 and e = 0, OF _ _ v(2)]]) simp_all
  then show ?thesis by (rule exec_exI) (simp add: exec_of_def)
qed

lemma two_workers_lose:
  assumes m: "FromString a = Inl (out_of_range m)"
  shows "\<exists>s. exec_reachable 2 s \<and> arrived s fd = a @ b \<and> jobs s = [] \<and> workers s 0 = WIdle \<and> workers s 1 = WProcessing fd 0 \<and>
    map_option cc_pushed (client_conn s fd) = Some b"
proof -
  let ?A = "(\<lambda>_. [])(fd := a @ b)" and ?M = "[fd \<mapsto> 0]"
  note e = EnterConnection_state
  have "exec_reachable 2 (exec_state [(fd, b)] Map.empty Map.empty 0 (WPopped fd a) WIdle [] ?A False)"
    by (rule exec_then [OF two_jobs ex_pop [where t = 0]]) simp_all
  then have "exec_reachable 2 (exec_state [(fd, b)] Map.empty Map.empty 0 (WMissing fd a) WIdle [] ?A False)"
    by (rule exec_then [OF _ ex_missing [where t = 0]]) simp_all
  then have "exec_reachable 2 (exec_state [] Map.empty Map.empty 0 (WMissing fd a) (WPopped fd b) [] ?A False)"
    by (rule exec_then [OF _ ex_pop [where t = 1]]) simp_all
  then have "exec_reachable 2 (exec_state [] Map.empty Map.empty 0 (WMissing fd a) (WMissing fd b) [] ?A False)"
    by (rule exec_then [OF _ ex_missing [where t = 1]]) simp_all
  then have "exec_reachable 2 (exec_state [] ?M [0 \<mapsto> ClientConnection_new] 1 (WInserted fd a) (WMissing fd b) [] ?A False)"
    by (rule exec_then [OF _ ex_insert [where t = 0 and client_fd = fd]]) (simp_all add: InsertConnection_def Disturbs_def no_resize)
  then have "exec_reachable 2 (exec_state [] ?M [0 \<mapsto> ClientConnection_new] 1 (WEntering fd 0 a) (WMissing fd b) [] ?A False)"
    by (rule exec_then [OF _ ex_lookup [where t = 0]]) simp_all
  then have "exec_reachable 2 (exec_state [] ?M [0 \<mapsto> conn_state True a a []] 1 (WProcessing fd 0) (WMissing fd b) [] ?A False)"
    by (rule exec_then [OF _ ex_enter [where t = 0 and e = 0, OF _ _ _ e [of a "[]" "[]" "[]"]]]) (simp_all add: new_conn_state)
  then have "exec_reachable 2 (exec_state [] ?M [0 \<mapsto> conn_state False a a []] 1 WIdle (WMissing fd b) [] ?A False)"
    by (rule exec_then [OF _ ex_drained [where t = 0 and e = 0, OF _ _ _ _ NextRequest_none [OF m, of a "[]"]]]) simp_all
  then have "exec_reachable 2 (exec_state [] ?M [0 \<mapsto> ClientConnection_new] 1 WIdle (WInserted fd b) [] ?A True)"
    by (rule exec_then [OF _ ex_insert [where t = 1 and client_fd = fd]]) (simp_all add: InsertConnection_def Disturbs_def no_resize)
  then have "exec_reachable 2 (exec_state [] ?M [0 \<mapsto> ClientConnection_new] 1 WIdle (WEntering fd 0 b) [] ?A True)"
    by (rule exec_then [OF _ ex_lookup [where t = 1]]) simp_all
  then have "exec_reachable 2 (exec_state [] ?M [0 \<mapsto> conn_state True b b []] 1 WIdle (WProcessing fd 0) [] ?A True)"
    by (rule exec_then [OF _ ex_enter [where t = 1 and e = 0, OF _ _ _ e [of b "[]" "[]" "[]"]]]) (simp_all add: new_conn_state)
  then show ?thesis by (rule exec_exI) (simp add: conn_at_def)
qed

lemma one_request_taken:
  assumes v: "wf_resp v" and n: "0 < n"
  shows "exec_reachable n (exec_state [] [fd \<mapsto> 0] [0 \<mapsto> conn_state True [] (Serialize v) [v]] 1 (WDispatching fd 0 v) WIdle []
    ((\<lambda>_. [])(fd := Serialize v)) False)"
proof -
  let ?b = "Serialize v" and ?A = "(\<lambda>_. [])(fd := Serialize v)" and ?M = "[fd \<mapsto> 0]"
  have "two WIdle WIdle = (\<lambda>_. WIdle)" by (auto simp: two_def)
  then have "exec_reachable n (exec_state [(fd, ?b)] Map.empty Map.empty 0 WIdle WIdle [] ?A False)"
    by (intro exec_then [OF rtranclp.rtrancl_refl ex_submit [of n _ fd ?b]]) (simp add: Submit_def RequestExecutor_new_def)
  then have "exec_reachable n (exec_state [] Map.empty Map.empty 0 (WPopped fd ?b) WIdle [] ?A False)"
    by (rule exec_then [OF _ ex_pop [OF n]]) simp_all
  then have "exec_reachable n (exec_state [] Map.empty Map.empty 0 (WMissing fd ?b) WIdle [] ?A False)"
    by (rule exec_then [OF _ ex_missing [OF n]]) simp_all
  then have "exec_reachable n (exec_state [] ?M [0 \<mapsto> ClientConnection_new] 1 (WInserted fd ?b) WIdle [] ?A False)"
    by (rule exec_then [OF _ ex_insert [where client_fd = fd, OF n]]) (simp_all add: InsertConnection_def Disturbs_def no_resize)
  then have "exec_reachable n (exec_state [] ?M [0 \<mapsto> ClientConnection_new] 1 (WEntering fd 0 ?b) WIdle [] ?A False)"
    by (rule exec_then [OF _ ex_lookup [OF n]]) simp_all
  then have "exec_reachable n (exec_state [] ?M [0 \<mapsto> conn_state True ?b ?b []] 1 (WProcessing fd 0) WIdle [] ?A False)"
    by (rule exec_then [OF _ ex_enter [where e = 0, OF n _ _ EnterConnection_state [of ?b "[]" "[]" "[]"]]]) (simp_all add: new_conn_state)
  then show ?thesis
    by (rule exec_then [OF _ ex_take [where e = 0, OF n _ _ _ NextRequest_whole [OF v, of ?b "[]"]]]) simp_all
qed

text \<open>A well-formed request at which the dispatcher throws ends the program.\<close>

lemma bad_request_ends:
  assumes "wf_resp v" and "bad_subscription v" and "0 < n"
  shows "\<exists>s. exec_reachable n s \<and> arrived s fd = Serialize v \<and> exec_ends n s"
  by (rule exec_exI [OF one_request_taken [OF assms(1,3), of fd]])
    (use assms(2) in \<open>auto simp: DispatchThrows_iff intro!: end_dispatch [OF assms(3)]\<close>)

lemma one_request_run:
  assumes v: "wf_resp v" "\<not> DispatchThrows v" and n: "0 < n"
  shows "exec_reachable n (exec_state [] [fd \<mapsto> 0] [0 \<mapsto> conn_state False [] (Serialize v) [v]] 1 WIdle WIdle [(fd, v)]
    ((\<lambda>_. [])(fd := Serialize v)) False)"
proof -
  let ?b = "Serialize v" and ?A = "(\<lambda>_. [])(fd := Serialize v)" and ?M = "[fd \<mapsto> 0]"
  obtain m where m: "FromString [] = Inl (out_of_range m)" using FromString_no_bytes by blast
  note one_request_taken [OF v(1) n, of fd]
  then have "exec_reachable n (exec_state [] ?M [0 \<mapsto> conn_state True [] ?b [v]] 1 (WProcessing fd 0) WIdle [(fd, v)] ?A False)"
    by (rule exec_then [OF _ ex_dispatch [where e = 0, OF n _ v(2)]]) simp_all
  then show ?thesis
    by (rule exec_then [OF _ ex_drained [where e = 0, OF n _ _ _ NextRequest_none [OF m, of ?b "[v]"]]]) simp_all
qed

lemma sample_request_returns: "\<not> DispatchThrows sample_request"
  by (simp add: DispatchThrows_def sample_request_def IsRequest_defs)

section \<open>Properties\<close>

text \<open>
  \<^bold>\<open>C33\<close>. Whatever the number of workers and however they interleave, as long as no insertion into
  the map of connections has replaced a connection or destroyed an entry in use: at most one
  worker executes requests of a client; what has been executed for a client are the first of the
  requests its connection's bytes encode, in order; and when no worker is at a connection whose
  bytes end with a whole request, all of them have been executed.
\<close>

theorem executor_invariant:
  assumes "exec_reachable n s" and "\<not> disturbed s"
  shows "(\<forall>t t' fd. busy (workers s t) = Some fd \<and> busy (workers s t') = Some fd \<longrightarrow> t = t') \<and>
    (\<forall>fd conn reqs fut. client_conn s fd = Some conn \<and> list_all wf_resp reqs \<and> cc_pushed conn @ fut = concat (map Serialize reqs) \<longrightarrow>
       (\<exists>rest. reqs = exec_of (executed s) fd @ rest) \<and> (\<not> being_processed conn \<and> fut = [] \<longrightarrow> exec_of (executed s) fd = reqs))"
proof -
  note k = exec_okD(2) [OF exec_reachable_ok [OF assms(1)] assms(2)]
  show ?thesis using exec_invD(1) [OF k] connection_executed [OF k] by blast
qed

theorem executor_invariant_witness:
  "\<exists>s. exec_reachable 2 s \<and> \<not> disturbed s \<and> cc_pushed (the (client_conn s 7)) = Serialize sample_request \<and>
     exec_of (executed s) 7 = [sample_request]"
proof -
  let ?s = "exec_state [] [7 \<mapsto> 0] [0 \<mapsto> conn_state False [] (Serialize sample_request) [sample_request]] 1 WIdle WIdle
    [(7, sample_request)] ((\<lambda>_. [])(7 := Serialize sample_request)) False"
  have r: "exec_reachable 2 ?s" by (rule one_request_run [OF wf_sample_request sample_request_returns]) simp
  have c: "client_conn ?s 7 = Some (conn_state False [] (Serialize sample_request) [sample_request])" by (simp add: conn_at_def)
  have "exec_of (executed ?s) 7 = [sample_request]"
    using executor_invariant [OF r, THEN conjunct2, rule_format, of 7 _ "[sample_request]" "[]", THEN conjunct2] c wf_sample_request by simp
  with r c show ?thesis by (intro exI [of _ ?s]) simp
qed

text \<open>
  \<^bold>\<open>C34\<close>. With one worker, if what arrives from each client is the beginning of a stream of
  well-formed requests: the requests executed for a client are the first of those it sent, in the
  order of arrival; the only thing that ends the program is a \<open>SUBSCRIBE\<close> or \<open>UNSUBSCRIBE\<close> of one of
  the streams with a null, empty or non-string argument, at which the dispatcher throws; otherwise
  the worker makes a step as long as there is work (no failed assertion, no entry that is gone);
  and when it has nothing left to do every complete request has been executed.
\<close>

theorem executor_in_order:
  assumes "exec_reachable 1 s" and "\<And>fd. list_all wf_resp (reqs fd)" and "\<And>fd. arrived s fd @ fut fd = concat (map Serialize (reqs fd))"
  shows "(\<forall>fd. \<exists>rest. reqs fd = exec_of (executed s) fd @ rest) \<and>
    (exec_ends 1 s \<longrightarrow> (\<exists>fd e v. workers s 0 = WDispatching fd e v \<and> v \<in> set (reqs fd) \<and> bad_subscription v)) \<and>
    (\<not> exec_ends 1 s \<and> (workers s 0 \<noteq> WIdle \<or> jobs s \<noteq> []) \<longrightarrow> (\<exists>s'. exec_step 1 s s' \<and> workers s' 0 \<noteq> workers s 0)) \<and>
    (workers s 0 = WIdle \<and> jobs s = [] \<longrightarrow> (\<forall>fd. fut fd = [] \<longrightarrow> exec_of (executed s) fd = reqs fd))"
  using one_worker_executes [OF assms(1,2,3)] one_worker_moves [OF assms] one_worker_ends [OF assms] by blast

theorem executor_in_order_witness:
  "\<exists>s. exec_reachable 1 s \<and> arrived s 7 = Serialize sample_request \<and> exec_of (executed s) 7 = [sample_request]"
proof -
  let ?s = "exec_state [] [7 \<mapsto> 0] [0 \<mapsto> conn_state False [] (Serialize sample_request) [sample_request]] 1 WIdle WIdle
    [(7, sample_request)] ((\<lambda>_. [])(7 := Serialize sample_request)) False"
  let ?reqs = "(\<lambda>_. [])(7 := [sample_request]) :: int \<Rightarrow> RespValue list"
  have r: "exec_reachable 1 ?s" by (rule one_request_run [OF wf_sample_request sample_request_returns]) simp
  have "list_all wf_resp (?reqs fd)" "arrived ?s fd @ (\<lambda>_. []) fd = concat (map Serialize (?reqs fd))" for fd
    using wf_sample_request by simp_all
  from executor_in_order [OF r this, THEN conjunct2, THEN conjunct2, THEN conjunct2] have "exec_of (executed ?s) 7 = [sample_request]" by simp
  with r show ?thesis by (intro exI [of _ ?s]) simp
qed

end
