(* ===== verification/Server_App.thy ===== *)
theory Server_App
  imports Request_Executor
begin

text \<open>
  The program around the executor of the first version: \<open>ServerApp\<close> of \<open>v1/src/server\<close>, the log of
  \<open>v1/src/server/logger\<close> and the command line of \<open>v1/src/server/main.cpp\<close>. The results of the
  system calls are arguments. The event loop runs on the main thread; the workers of the
  executor run beside it (\<open>Request_Executor\<close>), and all it does to the executor is \<open>Submit\<close>.
\<close>

section \<open>The log\<close>

text \<open>The characters of the \<open>switch\<close> with what follows the backslash.\<close>

definition Escapes :: "(char \<times> char) list" where
  "Escapes = [(CHR 0x0A, CHR ''n''), (CHR 0x0D, CHR ''r''), (CHR 0x09, CHR ''t''), (CHR 0x0B, CHR ''v''), (CHR 0x0C, CHR ''f''),
     (CHR 0x07, CHR ''a''), (CHR 0x08, CHR ''b''), (CHR 0x5C, CHR 0x5C), (CHR 0x22, CHR 0x22), (CHR 0x27, CHR 0x27)]"

definition EscapeChar :: "char \<Rightarrow> string" where
  "EscapeChar c = (case map_of Escapes c of Some e \<Rightarrow> [CHR 0x5C, e] | None \<Rightarrow> [c])"

definition EscapeDelimitedChars :: "string \<Rightarrow> string" where
  "EscapeDelimitedChars input = concat (map EscapeChar input)"

text \<open>What one call appends to the stream; the time stamp is an argument.\<close>

datatype log_level = Log | Debug | Error

definition FileLogger_line :: "log_level \<Rightarrow> string \<Rightarrow> string \<Rightarrow> string" where
  "FileLogger_line level timestamp message =
     (case level of Log \<Rightarrow> ''LOG ['' | Debug \<Rightarrow> ''DEBUG ['' | Error \<Rightarrow> ''ERROR ['') @ timestamp @ '']: '' @
     EscapeDelimitedChars message @ [CHR 0x0A]"

section \<open>\<open>ServerApp\<close>\<close>

record ServerApp =
  sa_epoll_fd :: int
  sa_server_fd :: int
  sa_watched :: "int set"
  sa_executor :: RequestExecutor
  sa_log :: "(log_level \<times> string) list"

abbreviation sa_write :: "log_level \<Rightarrow> string \<Rightarrow> ServerApp \<Rightarrow> ServerApp" where
  "sa_write level message app \<equiv> app\<lparr>sa_log := sa_log app @ [(level, message)]\<rparr>"

text \<open>\<open>epoll_ctl\<close> with \<open>EPOLL_CTL_ADD\<close> fails on a descriptor that is not valid; nobody looks at its result.\<close>

definition EpollAdd :: "int \<Rightarrow> ServerApp \<Rightarrow> ServerApp" where
  "EpollAdd fd app = (if 0 \<le> fd then app\<lparr>sa_watched := insert fd (sa_watched app)\<rparr> else app)"

definition ServerApp_new :: "int \<Rightarrow> int \<Rightarrow> bool \<Rightarrow> bool \<Rightarrow> ServerApp" where
  "ServerApp_new epoll_result socket_result bind_ok listen_ok =
     (let app = \<lparr>sa_epoll_fd = -1, sa_server_fd = -1, sa_watched = {}, sa_executor = RequestExecutor_new, sa_log = []\<rparr>;
          app = app\<lparr>sa_epoll_fd := epoll_result\<rparr>
      in if epoll_result < 0 then sa_write Error ''Failed to create epoll instance'' app
         else let app = app\<lparr>sa_server_fd := socket_result\<rparr>
              in if socket_result < 0 then sa_write Error ''Failed to create server socket'' app
                 else if \<not> bind_ok then sa_write Error ''Failed to bind to port 6379'' app
                 else if \<not> listen_ok then sa_write Error ''listen failed'' app
                 else EpollAdd socket_result app)"

text \<open>The descriptors the destructor closes.\<close>

definition ServerApp_destroy :: "ServerApp \<Rightarrow> int list" where
  "ServerApp_destroy app =
     (if 0 \<le> sa_server_fd app then [sa_server_fd app] else []) @ (if 0 \<le> sa_epoll_fd app then [sa_epoll_fd app] else [])"

definition handle_new_connection :: "int \<Rightarrow> ServerApp \<Rightarrow> ServerApp" where
  "handle_new_connection client_fd app = EpollAdd client_fd (sa_write Log ''Client connected'' app)"

text \<open>Every result of \<open>recv\<close> that is neither data nor "would block" ends the connection; closing a descriptor removes it from the set.\<close>

definition HangUp :: "int \<Rightarrow> ServerApp \<Rightarrow> ServerApp" where
  "HangUp client_fd app = sa_write Log ''Client closed connection'' (app\<lparr>sa_watched := sa_watched app - {client_fd}\<rparr>)"

text \<open>The results of \<open>recv\<close> are those until the socket would block; a list that ends stands for one that goes on with \<open>EAGAIN\<close>.\<close>

fun handle_request :: "int \<Rightarrow> recv_result list \<Rightarrow> ServerApp \<Rightarrow> ServerApp" where
  "handle_request client_fd [] app = app"
| "handle_request client_fd (RecvError e # results) app =
     (if e = EAGAIN \<or> e = EWOULDBLOCK then app else HangUp client_fd app)"
| "handle_request client_fd (Received bytes # results) app =
     (if bytes \<noteq> [] then handle_request client_fd results (app\<lparr>sa_executor := Submit client_fd bytes (sa_executor app)\<rparr>)
      else HangUp client_fd app)"

text \<open>An event: the descriptor, what \<open>accept\<close> returns and what \<open>recv\<close> returns, should they be called.\<close>

type_synonym sa_event = "int \<times> int \<times> recv_result list"

fun HandleAppEvent :: "sa_event \<Rightarrow> ServerApp \<Rightarrow> ServerApp" where
  "HandleAppEvent (fd, accepted, results) app =
     (if fd = sa_server_fd app then handle_new_connection accepted app else handle_request fd results app)"

datatype wait_result = WaitFailed errno | Ready "sa_event list"

text \<open>The loop over the results of \<open>epoll_wait\<close>, and the exit code once it has returned.\<close>

fun start_loop :: "wait_result list \<Rightarrow> ServerApp \<Rightarrow> int option \<times> ServerApp" where
  "start_loop [] app = (None, app)"
| "start_loop (WaitFailed e # waits) app =
     (if e = EINTR then start_loop waits app else (Some 1, sa_write Error ''epoll_wait failed'' app))"
| "start_loop (Ready events # waits) app = start_loop waits (fold HandleAppEvent events app)"

definition start :: "wait_result list \<Rightarrow> ServerApp \<Rightarrow> int option \<times> ServerApp" where
  "start waits app = (if sa_epoll_fd app < 0 \<or> sa_server_fd app < 0 then (Some 1, app) else start_loop waits app)"

section \<open>\<open>main\<close>\<close>

text \<open>The options of the command line: an exit code, or whether requests are logged.\<close>

fun ParseOptions :: "string list \<Rightarrow> bool \<Rightarrow> int + bool" where
  "ParseOptions [] enable_request_logging = Inr enable_request_logging"
| "ParseOptions (option # argv) enable_request_logging =
     (if option = ''-l'' \<or> option = ''--log'' then ParseOptions argv True
      else if option = ''-h'' \<or> option = ''--help'' then Inl 0
      else Inl 1)"

definition v1_main :: "string list \<Rightarrow> int \<Rightarrow> int \<Rightarrow> bool \<Rightarrow> bool \<Rightarrow> wait_result list \<Rightarrow> int option" where
  "v1_main argv epoll_result socket_result bind_ok listen_ok waits =
     (case ParseOptions argv False of
        Inl code \<Rightarrow> Some code
      | Inr _ \<Rightarrow> fst (start waits (ServerApp_new epoll_result socket_result bind_ok listen_ok)))"

section \<open>Lines of the log\<close>

text \<open>A message occupies one line of the log, and the line determines the message.\<close>

lemma Escapes_back: "map_of Escapes c = Some e \<Longrightarrow> map_of (map prod.swap Escapes) e = Some c"
  by (auto simp: Escapes_def split: if_splits)

lemma Escapes_backslash: "map_of Escapes (CHR 0x5C) = Some (CHR 0x5C)"
  by (simp add: Escapes_def)

lemma EscapeChar_prefix_free:
  assumes "EscapeChar c @ xs = EscapeChar d @ ys"
  shows "c = d \<and> xs = ys"
proof (cases "map_of Escapes c")
  case None
  then show ?thesis using assms Escapes_backslash by (cases "map_of Escapes d") (auto simp: EscapeChar_def)
next
  case (Some e)
  then show ?thesis using assms Escapes_backslash Escapes_back [OF Some] Escapes_back [of d e]
    by (cases "map_of Escapes d") (auto simp: EscapeChar_def)
qed

lemma EscapeChar_nonempty [simp]: "EscapeChar c \<noteq> []"
  by (simp add: EscapeChar_def split: option.split)

lemma EscapeDelimitedChars_inj: "EscapeDelimitedChars a = EscapeDelimitedChars b \<Longrightarrow> a = b"
proof (induction a arbitrary: b)
  case Nil
  then show ?case by (cases b) (simp_all add: EscapeDelimitedChars_def)
next
  case (Cons c a)
  then obtain d b' where b: "b = d # b'" by (cases b) (simp_all add: EscapeDelimitedChars_def)
  with Cons.prems EscapeChar_prefix_free [of c "EscapeDelimitedChars a" d "EscapeDelimitedChars b'"] Cons.IH [of b']
  show ?case by (simp add: EscapeDelimitedChars_def)
qed

lemma EscapeDelimitedChars_one_line: "CHR 0x0A \<notin> set (EscapeDelimitedChars a)"
proof -
  have "CHR 0x0A \<notin> set (EscapeChar c)" for c by (auto simp: EscapeChar_def Escapes_def)
  then show ?thesis by (simp add: EscapeDelimitedChars_def)
qed

section \<open>The event loop and the executor\<close>

fun received :: "recv_result list \<Rightarrow> string" where
  "received (Received bytes # results) = (if bytes = [] then [] else bytes @ received results)"
| "received _ = []"

fun event_bytes :: "int \<Rightarrow> int \<Rightarrow> sa_event \<Rightarrow> string" where
  "event_bytes listener client_fd (fd, accepted, results) = (if fd \<noteq> listener \<and> fd = client_fd then received results else [])"

fun wait_bytes :: "int \<Rightarrow> int \<Rightarrow> wait_result list \<Rightarrow> string" where
  "wait_bytes listener client_fd [] = []"
| "wait_bytes listener client_fd (WaitFailed e # waits) = (if e = EINTR then wait_bytes listener client_fd waits else [])"
| "wait_bytes listener client_fd (Ready events # waits) =
     concat (map (event_bytes listener client_fd) events) @ wait_bytes listener client_fd waits"

lemma app_simps [simp]:
  "sa_server_fd (HangUp fd app) = sa_server_fd app" "sa_executor (HangUp fd app) = sa_executor app"
  "sa_server_fd (EpollAdd fd app) = sa_server_fd app" "sa_executor (EpollAdd fd app) = sa_executor app"
  "sa_server_fd (handle_new_connection fd app) = sa_server_fd app" "sa_executor (handle_new_connection fd app) = sa_executor app"
  by (simp_all add: HangUp_def EpollAdd_def handle_new_connection_def)

text \<open>All the main thread does to the executor is to submit jobs: its steps are those of an executor without workers.\<close>

lemma handle_request_submits:
  "sa_server_fd (handle_request fd results app) = sa_server_fd app \<and>
   (exec_step 0)\<^sup>*\<^sup>* (sa_executor app) (sa_executor (handle_request fd results app)) \<and>
   (\<forall>client_fd. arrived (sa_executor (handle_request fd results app)) client_fd =
      arrived (sa_executor app) client_fd @ (if client_fd = fd then received results else []))"
proof (induction fd results app rule: handle_request.induct)
  case (3 fd bytes results app)
  show ?case
  proof (cases "bytes = []")
    case False
    let ?app = "app\<lparr>sa_executor := Submit fd bytes (sa_executor app)\<rparr>"
    have "exec_step 0 (sa_executor app) (sa_executor ?app)" by (simp add: ex_submit)
    then have "(exec_step 0)\<^sup>*\<^sup>* (sa_executor app) (sa_executor (handle_request fd results ?app))"
      using 3 [OF False] by (meson converse_rtranclp_into_rtranclp)
    moreover have "arrived (sa_executor ?app) client_fd = arrived (sa_executor app) client_fd @ (if client_fd = fd then bytes else [])"
      for client_fd by (simp add: Submit_def)
    ultimately show ?thesis using 3 [OF False] False by simp
  qed simp
qed simp_all

lemma HandleAppEvent_submits:
  "sa_server_fd (HandleAppEvent ev app) = sa_server_fd app \<and>
   (exec_step 0)\<^sup>*\<^sup>* (sa_executor app) (sa_executor (HandleAppEvent ev app)) \<and>
   (\<forall>client_fd. arrived (sa_executor (HandleAppEvent ev app)) client_fd =
      arrived (sa_executor app) client_fd @ event_bytes (sa_server_fd app) client_fd ev)"
  using handle_request_submits [of "fst ev" "snd (snd ev)" app] by (cases ev) auto

lemma events_submit:
  "sa_server_fd (fold HandleAppEvent events app) = sa_server_fd app \<and>
   (exec_step 0)\<^sup>*\<^sup>* (sa_executor app) (sa_executor (fold HandleAppEvent events app)) \<and>
   (\<forall>client_fd. arrived (sa_executor (fold HandleAppEvent events app)) client_fd =
      arrived (sa_executor app) client_fd @ concat (map (event_bytes (sa_server_fd app) client_fd) events))"
proof (induction events arbitrary: app)
  case (Cons ev events)
  have "(exec_step 0)\<^sup>*\<^sup>* (sa_executor app) (sa_executor (fold HandleAppEvent events (HandleAppEvent ev app)))"
    using HandleAppEvent_submits [of ev app] Cons.IH [of "HandleAppEvent ev app"] by (meson rtranclp_trans)
  then show ?case using HandleAppEvent_submits [of ev app] Cons.IH [of "HandleAppEvent ev app"] by simp
qed simp

lemma start_loop_submits:
  "(exec_step 0)\<^sup>*\<^sup>* (sa_executor app) (sa_executor (snd (start_loop waits app))) \<and>
   (\<forall>client_fd. arrived (sa_executor (snd (start_loop waits app))) client_fd =
      arrived (sa_executor app) client_fd @ wait_bytes (sa_server_fd app) client_fd waits)"
proof (induction waits app rule: start_loop.induct)
  case (3 events waits app)
  then have "(exec_step 0)\<^sup>*\<^sup>* (sa_executor app) (sa_executor (snd (start_loop waits (fold HandleAppEvent events app))))"
    using events_submit [of events app] by (meson rtranclp_trans)
  with 3 events_submit [of events app] show ?case by simp
qed simp_all

text \<open>A client stays in the set until its socket reports the end of the stream or an error, an interruption included.\<close>

fun hangs_up :: "recv_result list \<Rightarrow> bool" where
  "hangs_up (Received bytes # results) = (bytes = [] \<or> hangs_up results)"
| "hangs_up (RecvError e # results) = (e \<noteq> EAGAIN \<and> e \<noteq> EWOULDBLOCK)"
| "hangs_up [] = False"

lemma handle_request_watched:
  "sa_watched (handle_request fd results app) = (if hangs_up results then sa_watched app - {fd} else sa_watched app)"
  by (induction fd results app rule: handle_request.induct) (simp_all add: HangUp_def)

text \<open>
  A failure to create the epoll instance or the socket ends the program with code 1. A failure to
  bind or to listen is logged only: the server waits for events on an empty set.
\<close>

lemma bind_failure_unnoticed:
  assumes "0 \<le> epoll_result" and "0 \<le> socket_result" and "\<not> (bind_ok \<and> listen_ok)"
  shows "sa_watched (ServerApp_new epoll_result socket_result bind_ok listen_ok) = {}"
    and "start waits (ServerApp_new epoll_result socket_result bind_ok listen_ok) =
      start_loop waits (ServerApp_new epoll_result socket_result bind_ok listen_ok)"
  using assms by (auto simp: ServerApp_new_def Let_def start_def)

lemma socket_failure_exits:
  "epoll_result < 0 \<or> socket_result < 0 \<Longrightarrow> fst (start waits (ServerApp_new epoll_result socket_result bind_ok listen_ok)) = Some 1"
  by (auto simp: ServerApp_new_def Let_def start_def)

lemma start_loop_code:
  "fst (start_loop waits app) = None \<or> fst (start_loop waits app) = Some 1 \<and> (\<exists>e. WaitFailed e \<in> set waits \<and> e \<noteq> EINTR)"
proof (induction waits app rule: start_loop.induct)
  case (2 e waits app)
  then show ?case by (cases "e = EINTR") auto
qed simp_all

section \<open>Properties\<close>

text \<open>
  \<^bold>\<open>C35\<close>. A server that has been set up hands every byte it receives from a client to the executor,
  once and in the order received, whatever \<open>epoll_wait\<close>, \<open>accept\<close> and \<open>recv\<close> return; submitting
  jobs is all it does to the executor; and it returns, with code 1, only when \<open>epoll_wait\<close> fails.
\<close>

theorem server_app_forwards:
  assumes "0 \<le> epoll_result" and "0 \<le> socket_result"
    and "start waits (ServerApp_new epoll_result socket_result True True) = (code, app)"
  shows "(exec_step 0)\<^sup>*\<^sup>* RequestExecutor_new (sa_executor app) \<and>
    (\<forall>client_fd. arrived (sa_executor app) client_fd = wait_bytes socket_result client_fd waits) \<and>
    (code = None \<or> code = Some 1 \<and> (\<exists>e. WaitFailed e \<in> set waits \<and> e \<noteq> EINTR))"
proof -
  let ?app = "ServerApp_new epoll_result socket_result True True"
  have new: "sa_server_fd ?app = socket_result" "sa_executor ?app = RequestExecutor_new"
    "start waits ?app = start_loop waits ?app"
    using assms(1,2) by (simp_all add: ServerApp_new_def Let_def start_def EpollAdd_def)
  have "code = None \<or> code = Some 1 \<and> (\<exists>e. WaitFailed e \<in> set waits \<and> e \<noteq> EINTR)"
    using start_loop_code [of waits ?app] assms(3) unfolding new(3) by simp
  moreover have "arrived RequestExecutor_new = (\<lambda>_. [])" by (simp add: RequestExecutor_new_def)
  moreover have "app = snd (start_loop waits ?app)" using assms(3) unfolding new(3) by simp
  ultimately show ?thesis using start_loop_submits [of ?app waits] unfolding new(1,2) by simp
qed

theorem server_app_forwards_witness:
  "arrived (sa_executor (snd (start [WaitFailed EINTR, Ready [(3, 5, []), (5, 0, [Received ''*1'', Received ''x'', RecvError EAGAIN])],
     Ready [(5, 0, [Received ''y'', Received []])]] (ServerApp_new 4 3 True True)))) 5 = ''*1xy''"
proof -
  let ?waits = "[WaitFailed EINTR, Ready [(3, 5, []), (5, 0, [Received ''*1'', Received ''x'', RecvError EAGAIN])],
     Ready [(5, 0, [Received ''y'', Received []])]]"
  have "arrived (sa_executor (snd (start ?waits (ServerApp_new 4 3 True True)))) 5 = wait_bytes 3 5 ?waits"
    using server_app_forwards [OF _ _ surjective_pairing, of 4 3 ?waits] by (simp del: wait_bytes.simps)
  also have "wait_bytes 3 5 ?waits = ''*1xy''" by simp
  finally show ?thesis .
qed

end
