(* ===== verification/Spec2Isabelle.thy ===== *)
theory Spec2Isabelle
  imports Linked_List_Hashmap Linear_Probing_Hashmap Spsc_Queue Request_Dispatcher Snapshotter Client Server
    Pub_Sub V1_Handlers Server_App
begin

text \<open>
  A verification of the in-memory key/value server of this repository and of its client.

  \<^bold>\<open>The program.\<close> The repository holds two versions of a server for the RESP protocol. In \<open>v2\<close> a
  main thread (\<open>server.cc\<close>) accepts clients, deals them out to I/O threads and executes all
  commands on one store; an I/O thread (\<open>io_thread.cc\<close>) owns the sockets of its clients, cuts the
  bytes it reads into requests and writes replies back. The threads exchange messages through
  single-producer single-consumer queues, each with an event counter that wakes the reader. A
  child process writes snapshots of the store. In \<open>v1\<close> the main thread (\<open>ServerApp.cpp\<close>) reads bytes
  and submits them as jobs to worker threads (\<open>RequestExecutor.cpp\<close>), which share the store and the
  publish/subscribe channels, both striped hash maps. The client types a line, sends it as an
  array of bulk strings and prints what comes back.

  \<^bold>\<open>How code is modelled.\<close> A function is a HOL function with the source's name; a method takes its
  object as the last argument and returns the changed one. Exceptions are values of \<open>exn\<close> on the
  left of a sum (\<open>'a result\<close>), undefined behaviour is a \<open>fault\<close>, and what stops a thread is a \<open>halt\<close>.
  The results of system calls, the clock and the hash functions are arguments. A list of call
  results that ends stands for a call that has not returned (or would block), as said at each
  definition. Integers are \<open>int\<close> with the 64-bit range checks the code relies on written out; sizes
  and positions are \<open>nat\<close>. Loops are structural or well-founded recursions; the loops that need not
  end (splitting at an empty delimiter, probing a full table, a queue another thread may fill)
  are \<open>partial_function (option)\<close> and their results are proved to exist where they do. No
  definition has a fuel argument. Threads are step relations, with steps as fine as the property
  needs: single atomic accesses for the queue (\<open>duo_step\<close>) and the wake-ups (\<open>wake_step\<close>); locking,
  reading, writing and unlocking for the striped map (\<open>stripe_step\<close>); the code under one mutex, a
  call of the map or a call of the dispatcher for the workers of \<open>v1\<close> (\<open>exec_step\<close>); and the run of a
  whole handler for the threads of the \<open>v2\<close> server (\<open>sys_step\<close>), which share nothing but the queues and
  event counters treated by the finer relations. Fields that only record what happened (\<open>wire\<close>,
  \<open>replies\<close>, \<open>seen\<close>, \<open>arrived\<close>, \<open>executed\<close> and the like) are never read by the modelled code.

  \<^bold>\<open>Theories and sources.\<close>
  \<^item> \<open>Prelude\<close>: exceptions, sequencing, \<open>std::string\<close> searching, decimal numbers, \<open>stoll\<close> and \<open>from_chars\<close>.
  \<^item> \<open>Resp_Value\<close> (\<open>v2/src/resp_value/resp_value.cc\<close>, \<open>resp_values.cc\<close>): values, parser, printer. Printing
    and parsing are inverse on well-formed values; a decided result is final; the parser accepts
    only well-formed values; every strict prefix of a value is incomplete.
  \<^item> \<open>Resp_Value_Queue\<close> (\<open>resp_value_queue.cc\<close>): the incremental parser. How a stream is cut into chunks
    does not matter; some malformed inputs block a client for ever.
  \<^item> \<open>Map_Interface\<close> (\<open>v2/src/store/map/map.h\<close>): the contract of a map as the locales
    \<open>growing_dictionary\<close> and \<open>dictionary\<close>, with the lemmas its clients use. \<open>Standard_Map\<close>,
    \<open>Linked_List_Hashmap\<close>, \<open>Linear_Probing_Hashmap\<close> and \<open>Striped_Hashmap\<close> interpret them for the four
    implementations (\<open>std\<close>, \<open>llh\<close>, \<open>lph\<close>, \<open>shm\<close>): every history of calls answers as a finite map; the table
    grows with its contents; probing ends. Linear probing keeps the contract only without
    \<open>Remove\<close>. The striped map (\<open>v1\<close>) is also a system of threads: its bindings are
    linearizable up to the first resize if the number of locks divides the number of buckets, and
    an insertion can be lost otherwise.
  \<^item> \<open>Json_Text\<close> and \<open>Store\<close> (\<open>serialise.cc\<close>, \<open>store.cc\<close>): keys with deadlines, refined to the map of
    unexpired keys, and the round trip through JSON.
  \<^item> \<open>Request_Handlers\<close> and \<open>Request_Dispatcher\<close> (\<open>v2/src/server/handler\<close>): each command's reply and effect,
    the commands that can fault, and that nothing else changes.
  \<^item> \<open>Snapshotter\<close> (\<open>snapshotter.cc\<close>): all system calls with their failures; every state of the directory
    loads as the old or the complete new store, the new one only after it was flushed.
  \<^item> \<open>Spsc_Queue\<close> (\<open>single_consumer_producer_queue.h\<close>): a bounded FIFO list, an interpretation of the
    locale \<open>bounded_fifo\<close>, also under every interleaving of one producer and one consumer.
  \<^item> \<open>Socket_Io\<close> (\<open>send_all.cc\<close>, \<open>event_fd.cc\<close>), \<open>Io_Thread\<close> (\<open>io_thread.cc\<close>, \<open>connection.h\<close>, \<open>messages.h\<close>) and
    \<open>Server\<close> (\<open>server.cc\<close>): the handlers of both event loops, the interleaving of all threads as the
    relation \<open>sys_step\<close>, its invariant, no lost wake-up, and what a client receives.
  \<^item> \<open>Client\<close> (\<open>v2/src/client\<close>): arguments of a line, sending and printing. Words without quotes are
    sent as they are; quotes are removed, contrary to a comment of the source. The receiver makes
    a C string of its buffer: it prints the replies if they have no NUL and no piece fills the
    buffer, and reads past the buffer if one does.
  \<^item> \<open>Pub_Sub\<close>, \<open>V1_Handlers\<close>, \<open>Request_Executor\<close> and \<open>Server_App\<close> (\<open>v1/src/server\<close>): publish/subscribe, requests
    and handlers, the interleaving of the worker threads as the relation \<open>exec_step\<close> with the
    exceptions and assertions that end the program (\<open>exec_ends\<close>), and the event loop with its log and
    command line. The RESP, client and \<open>SendAll\<close> files of \<open>v1\<close> are those of
    \<open>v2\<close> up to the spelling of names and are modelled by the same definitions.
  \<^item> This theory: client and server composed, from the typed line to the printed reply.

  \<^bold>\<open>Bounds.\<close> Queue and buffer sizes, table capacities and load factors are those of the source; the
  theorems about tables and queues hold for every capacity. The number of I/O threads, clients,
  workers, requests and interleavings is not bounded. Load factors are rational numbers, which
  is exact for the values the program uses.

  \<^bold>\<open>Not modelled.\<close> The memory model below sequential consistency: the accesses of the queue use
  acquire and release order, and the interleavings are those of sequential consistency. The
  locks of the \<open>v1\<close> maps inside the executor and the publish/subscribe channels: a map call there is
  one step, and \<open>Striped_Hashmap\<close> treats the calls themselves. The handlers of \<open>v1\<close> and its publish/subscribe
  channels are treated for calls that do not overlap, which the source does not enforce for different
  clients; \<open>Pub_Sub\<close> shows one loss that overlap causes. What a caller of \<open>LookUp\<close> in the striped map
  reads through the reference after the lock is released. A thread that pushes to a full queue
  spins in the code; here that is a \<open>halt\<close>, the theorems say when it occurs, and what the other
  threads do during the spin is not described. Failing allocations, and output on the terminal other than the client's. The maps
  of \<open>v1\<close> that its server does not use (\<open>LinkedListHashmap.h\<close>, \<open>LinearProbingHashmap.h\<close>, \<open>StandardMap.h\<close>,
  \<open>CoarseGrainConcurrentMapWrapper.h\<close>) repeat the algorithms of \<open>v2\<close>. \<open>concurrent_queue.h\<close> of \<open>v2\<close> has no
  user. The \<open>main\<close> functions of \<open>v2\<close> hand the options that a third-party library has parsed to the
  modelled constructors. \<open>std::hash\<close> and the clock are library code: a parameter and an argument.
  Time stamps of the log come from the clock and the locale and are an argument.
\<close>

section \<open>From the keyboard to the screen\<close>

lemma ParseArgs_words: "ParseArgs (map (\<lambda>w. BulkString (Some w)) ws) = Some (map Some ws)"
  by (induction ws) (auto simp: BulkString_def)

lemma SenderMessage_no_nil_option: "\<not> nil_option (SenderMessage ws)"
  by (cases ws) (auto simp: nil_option_def SenderMessage_def Array_def BulkString_def ParseArgs_words [unfolded BulkString_def] split: option.split)

text \<open>
  \<^bold>\<open>C1\<close>. Client and server together: a fresh client types lines of words without quotes, none of
  them \<open>exit\<close>, and its sender hands the bytes to the network, which delivers them in arbitrary pieces
  and rounds to a server that is idle before and serves no other client meanwhile. The clock and
  the deadlines in the store are in range, and so are the times in \<open>EXPIRE\<close> commands. Then the server
  executes the commands in the order in which they were typed. Once the socket of the client has
  taken the waiting bytes, the receiver of the client prints one reply for each line, in order,
  whatever pieces the bytes arrive in, as long as they contain no NUL and no piece fills the
  receive buffer.
\<close>

theorem end_to_end:
  assumes "list_all (list_all plain_word) lines" and "''exit'' \<notin> set (map unwords lines)"
    and "list_all (\<lambda>ws. wf_resp (SenderMessage ws) \<and> small_time (SenderMessage ws)) lines"
    and "keeps_sending (length (concat (map Serialize (map SenderMessage lines)))) results"
    and "server_reachable clock s" and "idle s" and "client_at s i fd c" and "parse_queue c = empty_queue"
    and "replies (io_threads s ! i) fd = []" and "good_store (srv_store s)" and "\<And>n. good_clock (clock n)"
    and "list_all round_ok rounds" and "concat (concat (map fst rounds)) = fst (SenderWorker results (map unwords lines))"
  shows "\<exists>s' c' rs. serve clock i fd rounds s = Some (Inr s') \<and> client_at s' i fd c'
    \<and> DispatchAll (timed clock (ticks s) (map SenderMessage lines)) (srv_store s) = Inr (rs, srv_store s')
    \<and> length rs = length lines
    \<and> (\<forall>sends. takes (length (out_buffer c')) sends \<longrightarrow>
        (\<exists>s''. IoHandle i (ClientEvent fd None (Some sends)) s' = Some (Inr s'')
          \<and> wire (io_threads s'' ! i) fd = concat (map Serialize rs)
          \<and> (\<forall>chunks. [] \<notin> set chunks \<and> concat chunks = wire (io_threads s'' ! i) fd \<and> NUL \<notin> set (concat chunks) \<and>
                list_all (\<lambda>c. length c < kBufferSize) chunks \<longrightarrow>
              ReceiverWorker (map Received chunks) zero_buffer empty_queue = (map Show rs, Running))))"
proof -
  let ?reqs = "map SenderMessage lines"
  have sent: "concat (concat (map fst rounds)) = concat (map Serialize ?reqs)"
    using assms(13) SenderWorker_plain(2) [OF assms(1,2,4)] by simp
  have wf: "list_all wf_resp ?reqs" using assms(3) by (simp add: list_all_iff)
  have good: "\<forall>(now, request) \<in> set (timed clock (ticks s) ?reqs).
      good_clock now \<and> wf_resp request \<and> small_time request \<and> \<not> nil_option request"
    using assms(3,11) SenderMessage_no_nil_option by (auto simp: timed_def list_all_iff in_set_zip)
  obtain rs data where rs: "DispatchAll (timed clock (ticks s) ?reqs) (srv_store s) = Inr (rs, data)"
    "length rs = length lines" "list_all wf_resp rs"
    using DispatchAll_good [OF assms(10) good] by (auto simp: timed_def)
  have ok: "server_ok s" using server_reachable_ok [OF assms(5)] by simp
  have q: "rvq_values (parse_queue c) = []" "rvq_buffer (parse_queue c) @ concat (concat (map fst rounds)) = concat (map Serialize ?reqs)"
    using assms(8) sent by (simp_all add: empty_queue_def)
  obtain s' c' where s': "serve clock i fd rounds s = Some (Inr s')" "server_ok s'" "client_at s' i fd c'" "srv_store s' = data"
      "replies (io_threads s' ! i) fd = concat (map Serialize rs)"
    using serve_ok [OF ok assms(6,7,12) wf q(1) FromString_empty [folded assms(8)] q(2) rs(1)] assms(9) by auto
  have "\<exists>s''. IoHandle i (ClientEvent fd None (Some sends)) s' = Some (Inr s'') \<and> wire (io_threads s'' ! i) fd = concat (map Serialize rs)
      \<and> (\<forall>chunks. [] \<notin> set chunks \<and> concat chunks = wire (io_threads s'' ! i) fd \<and> NUL \<notin> set (concat chunks) \<and>
            list_all (\<lambda>c. length c < kBufferSize) chunks \<longrightarrow>
          ReceiverWorker (map Received chunks) zero_buffer empty_queue = (map Show rs, Running))"
    if t: "takes (length (out_buffer c')) sends" for sends
  proof -
    obtain s'' where s'': "IoHandle i (ClientEvent fd None (Some sends)) s' = Some (Inr s'')" "wire (io_threads s'' ! i) fd = concat (map Serialize rs)"
      using IoHandle_delivers [OF s'(2,3) t] s'(5) by auto
    have "ReceiverWorker (map Received chunks) zero_buffer empty_queue = (map Show rs, Running)"
      if "[] \<notin> set chunks \<and> concat chunks = wire (io_threads s'' ! i) fd \<and> NUL \<notin> set (concat chunks) \<and>
        list_all (\<lambda>c. length c < kBufferSize) chunks" for chunks
      by (rule ReceiverWorker_stream [OF rs(3)]) (use that [unfolded s''(2)] in blast)+
    with s'' show ?thesis by blast
  qed
  with s' rs show ?thesis by blast
qed

theorem end_to_end_witness:
  "\<exists>s s' c' rs. serve (\<lambda>_. 5) 0 7 [([''*1'' @ CRLF @ ''$4''], []), ([CRLF @ ''PING'' @ CRLF], [])] s = Some (Inr s')
     \<and> client_at s' 0 7 c' \<and> DispatchAll [(5, Array [BulkString (Some ''PING'')])] [] = Inr (rs, srv_store s') \<and> length rs = 1"
proof -
  let ?lines = "[[''PING'']]" and ?results = "replicate 20 (Sent 1)"
  let ?rounds = "[([''*1'' @ CRLF @ ''$4''], []), ([CRLF @ ''PING'' @ CRLF], [])]"
  obtain s where s: "server_reachable (\<lambda>_. 5) s" "idle s" "client_at s 0 7 (Connection_new 7)" "srv_store s = []" "ticks s = 0"
    "replies (io_threads s ! 0) 7 = []"
    using connected_server [of 7 "\<lambda>_. 5"] by auto
  have l: "list_all (list_all plain_word) ?lines" "''exit'' \<notin> set (map unwords ?lines)" by (simp_all add: plain_word_def)
  have w: "list_all (\<lambda>ws. wf_resp (SenderMessage ws) \<and> small_time (SenderMessage ws)) ?lines"
    by (simp add: SenderMessage_def Array_def BulkString_def small_time_def expire_names_def small_value_def int64_defs)
  have m: "concat (map Serialize (map SenderMessage ?lines)) = ''*1'' @ CRLF @ ''$4'' @ CRLF @ ''PING'' @ CRLF"
    by (simp add: SenderMessage_def Array_def BulkString_def dec_string.simps digit_char_def)
  then have k: "keeps_sending (length (concat (map Serialize (map SenderMessage ?lines)))) ?results"
    by (simp add: keeps_sending_def list_all_iff)
  have r: "list_all round_ok ?rounds" by (simp add: round_ok_def harmless_def)
  have sent: "concat (concat (map fst ?rounds)) = fst (SenderWorker ?results (map unwords ?lines))"
    using SenderWorker_plain(2) [OF l k] m by simp
  have q: "parse_queue (Connection_new 7) = empty_queue" by (simp add: Connection_new_def)
  have g: "good_store (srv_store s)" "\<And>n. good_clock ((\<lambda>_. 5) n)" by (simp_all add: s(4) good_store_empty good_clock_def)
  from end_to_end [OF l w k s(1-3) q s(6) g r sent] s(4,5) show ?thesis
    by (simp add: timed_def SenderMessage_def del: serve.simps DispatchAll.simps) blast
qed

end
